(* ===== verification/Prelude.thy ===== *)
theory Prelude
  imports Main "HOL-Library.Word" "HOL-Library.Monad_Syntax"
begin

unbundle bit_operations_syntax

text \<open>
  What every component of the development shares: the machine integers of the
  C sources, the arithmetic of free-running ring indices (32-bit or 16-bit
  counters that are only masked when a slot is accessed), and slices of a ring.

  A counter never wraps at the ring size; it wraps at the width of its type.
  The distance \<open>dist a b\<close> of two counters is the number of increments that lead
  from \<open>a\<close> to \<open>b\<close>, which is what the C code computes with an unsigned
  subtraction.
\<close>

section \<open>Machine integers\<close>

type_synonym u8 = "8 word"
type_synonym u16 = "16 word"
type_synonym u32 = "32 word"
type_synonym u64 = "64 word"

named_theorems ring_simps \<open>distances and slices of ring counters\<close>
named_theorems be_simps \<open>unfolding rules of the backend's queue routines\<close>
named_theorems inv_intros \<open>preservation lemmas of component invariants\<close>

definition bool_to_u32 :: "bool \<Rightarrow> u32" where
  "bool_to_u32 b = (if b then 1 else 0)"

definition ring_idx :: "'a::len word \<Rightarrow> 'a word \<Rightarrow> nat" where
  "ring_idx m w = unat (w AND m)"

definition dist :: "'a::len word \<Rightarrow> 'a word \<Rightarrow> nat" where
  "dist a b = unat (b - a)"

definition ring_slice :: "'d list \<Rightarrow> 'a::len word \<Rightarrow> 'a word \<Rightarrow> nat \<Rightarrow> 'd list" where
  "ring_slice d m a n = map (\<lambda>i. d ! ring_idx m (a + of_nat i)) [0..<n]"

section \<open>Booleans as integers\<close>

lemma bool_to_u32_eq_0 [simp]: "bool_to_u32 b = 0 \<longleftrightarrow> \<not> b"
  by (simp add: bool_to_u32_def)

section \<open>Options\<close>

lemma ex_Some_case: "(\<exists>m. r = Some m \<and> P m) \<longleftrightarrow> (case r of None \<Rightarrow> False | Some m \<Rightarrow> P m)"
  by (cases r) auto

section \<open>Widening\<close>

lemma unat_ucast_up:
  fixes w :: "'a::len word"
  assumes "LENGTH('a) \<le> LENGTH('b)"
  shows "unat (ucast w :: 'b::len word) = unat w"
proof -
  have "unat w < 2 ^ LENGTH('b)"
    using assms by (intro less_le_trans [OF unsigned_less power_increasing]) simp_all
  then show ?thesis
    by (simp add: unsigned_ucast_eq take_bit_nat_eq_self)
qed

section \<open>Distances\<close>

lemma dist_self [simp]: "dist a a = 0"
  by (simp add: dist_def)

lemma dist_eq_0 [simp]: "dist a b = 0 \<longleftrightarrow> a = b"
  by (auto simp: dist_def unat_eq_0)

lemma dist_bound: "dist (a :: 'a::len word) b < 2 ^ LENGTH('a)"
  by (simp add: dist_def)

lemma add_dist [simp]: "a + of_nat (dist a b) = b"
  by (simp add: dist_def)

lemma dist_of_nat:
  "n < 2 ^ LENGTH('a) \<Longrightarrow> dist a (a + of_nat n :: 'a::len word) = n"
  by (simp add: dist_def unat_of_nat)

lemma dist_trans:
  fixes a b c :: "'a::len word"
  assumes "dist a b \<le> dist a c"
  shows "dist b c = dist a c - dist a b"
proof -
  have "c - b = (c - a) - (b - a)" by simp
  moreover have "b - a \<le> c - a"
    using assms by (simp add: dist_def word_le_nat_alt)
  ultimately show ?thesis
    unfolding dist_def by (metis unat_sub)
qed

lemma dist_suc_right:
  fixes a b :: "'a::len word"
  assumes "Suc (dist a b) < 2 ^ LENGTH('a)"
  shows "dist a (b + 1) = Suc (dist a b)"
proof -
  have "b + 1 = a + of_nat (Suc (dist a b))"
    using add_dist [of a b] by (metis add.assoc add.commute of_nat_Suc)
  then show ?thesis
    using dist_of_nat [OF assms, of a] by metis
qed

lemma dist_suc_left:
  fixes a b :: "'a::len word"
  assumes "a \<noteq> b"
  shows "dist (a + 1) b = dist a b - 1"
proof -
  have "dist a b \<noteq> 0" using assms by simp
  then have "1 \<le> b - a"
    by (simp add: dist_def word_le_nat_alt Suc_le_eq)
  then have "unat (b - a - 1) = unat (b - a) - 1"
    by (simp add: unat_sub)
  moreover have "b - (a + 1) = b - a - 1" by simp
  ultimately show ?thesis
    unfolding dist_def by metis
qed

lemma dist_swap:
  fixes a b :: "'a::len word"
  assumes "a \<noteq> b"
  shows "dist b a = 2 ^ LENGTH('a) - dist a b"
proof -
  have "a - b = 0 - (b - a)" by simp
  moreover have "unat (0 - (b - a)) = 2 ^ LENGTH('a) - unat (b - a)"
    using assms unat_sub_if_size [of 0 "b - a"] by (simp add: word_size unat_eq_0)
  ultimately show ?thesis unfolding dist_def by metis
qed

lemma dist_pos: "a \<noteq> b \<Longrightarrow> 0 < dist a b"
  using dist_eq_0 [of a b] by (metis gr0I)

section \<open>Event indices\<close>

lemma pred_sub_less_iff:
  fixes n d :: "'a::len word"
  shows "n - d - 1 < n \<longleftrightarrow> d < n"
proof (cases "d < n")
  case True
  then have "1 \<le> n - d" "d \<le> n"
    by (auto simp: word_le_nat_alt word_less_nat_alt unat_sub Suc_le_eq)
  then have "unat (n - d - 1) = unat n - unat d - 1"
    by (simp add: unat_sub)
  then show ?thesis using True by (simp add: word_less_nat_alt)
next
  case False
  show ?thesis
  proof (cases "d = - 1")
    case False
    then have "unat (d + 1) = Suc (unat d)" by (simp add: unatSuc add.commute add_eq_0_iff)
    moreover have "unat (n - (d + 1)) = unat n + 2 ^ LENGTH('a) - unat (d + 1)"
      using calculation \<open>\<not> d < n\<close> unat_sub_if_size [of n "d + 1"]
      by (simp add: word_less_nat_alt word_size)
    moreover have "Suc (unat d) \<le> 2 ^ LENGTH('a)" 
      by (metis Suc_leI unsigned_less)
    ultimately have "\<not> unat (n - (d + 1)) < unat n" by linarith
    then show ?thesis using \<open>\<not> d < n\<close> by (simp add: word_less_nat_alt diff_diff_eq)
  qed (use \<open>\<not> d < n\<close> in simp)
qed

text \<open>The test of an event index: after moving a counter from \<open>old\<close> to \<open>new\<close>, the
  unsigned comparison holds exactly when \<open>ev\<close> is among the values passed over.\<close>

lemma event_crossed_iff:
  fixes old ev new :: "'a::len word"
  shows "new - ev - 1 < new - old \<longleftrightarrow> dist old ev < dist old new"
proof -
  have "new - ev - 1 = (new - old) - (ev - old) - 1" by simp
  then show ?thesis
    using pred_sub_less_iff [of "new - old" "ev - old"] by (simp add: dist_def word_less_nat_alt)
qed

section \<open>Masked indices\<close>

lemma ring_idx_mask: "ring_idx (mask k) w = unat w mod 2 ^ k"
  by (simp add: ring_idx_def take_bit_eq_mask [symmetric] unsigned_take_bit_eq)
    (simp add: take_bit_eq_mod)

lemma ring_idx_less: "ring_idx (mask k) w < 2 ^ k"
  by (simp add: ring_idx_mask)

lemma ring_idx_add:
  fixes a :: "'a::len word"
  assumes "k \<le> LENGTH('a)"
  shows "ring_idx (mask k) (a + of_nat i) = (unat a + i) mod 2 ^ k"
proof -
  have dvd: "(2::nat) ^ k dvd 2 ^ LENGTH('a)"
    using assms by (rule le_imp_power_dvd)
  have "unat (a + of_nat i) = (unat a + i) mod 2 ^ LENGTH('a)"
    by (simp add: unat_word_ariths unat_of_nat mod_add_right_eq)
  then show ?thesis
    using dvd by (simp add: ring_idx_mask mod_mod_cancel)
qed

lemma mod_add_inj:
  fixes u i j N :: nat
  assumes "(u + i) mod N = (u + j) mod N" "i < N" "j < N"
  shows "i = j"
proof -
  have "int i mod int N = int j mod int N"
  proof -
    have "(int u + int i) mod int N = (int u + int j) mod int N"
      using assms(1) by (metis of_nat_add zmod_int)
    then have "(int u + int i - int u) mod int N = (int u + int j - int u) mod int N"
      by (rule mod_diff_cong) simp
    then show ?thesis by simp
  qed
  then show ?thesis using assms(2,3) by simp
qed

lemma ring_idx_inj:
  fixes a :: "'a::len word"
  assumes "k \<le> LENGTH('a)" "i < 2 ^ k" "j < 2 ^ k"
    and "ring_idx (mask k) (a + of_nat i) = ring_idx (mask k) (a + of_nat j)"
  shows "i = j"
  using assms(4) unfolding ring_idx_add [OF assms(1)]
  by (rule mod_add_inj [OF _ assms(2,3)])

section \<open>Slices of a ring\<close>

lemma length_ring_slice [simp]: "length (ring_slice d m a n) = n"
  by (simp add: ring_slice_def)

lemma ring_slice_0 [simp]: "ring_slice d m a 0 = []"
  by (simp add: ring_slice_def)

lemma ring_slice_Suc:
  "ring_slice d m a (Suc n) = ring_slice d m a n @ [d ! ring_idx m (a + of_nat n)]"
  by (simp add: ring_slice_def)

lemma ring_slice_add:
  "ring_slice d m a (n + p) = ring_slice d m a n @ ring_slice d m (a + of_nat n) p"
  by (induction p) (simp_all add: ring_slice_Suc add.assoc)

lemma ring_slice_Cons:
  "ring_slice d m a (Suc n) = d ! ring_idx m a # ring_slice d m (a + 1) n"
  using ring_slice_add [of d m a 1 n] by (simp add: ring_slice_Suc)

lemma ring_slice_nth:
  "i < n \<Longrightarrow> ring_slice d m a n ! i = d ! ring_idx m (a + of_nat i)"
  by (simp add: ring_slice_def)

lemma ring_slice_cong:
  "(\<And>i. i < n \<Longrightarrow> d ! ring_idx m (a + of_nat i) = d' ! ring_idx m (a + of_nat i))
    \<Longrightarrow> ring_slice d m a n = ring_slice d' m a n"
  by (simp add: ring_slice_def)

lemma ring_slice_update_outside:
  fixes a :: "'a::len word"
  assumes "k \<le> LENGTH('a)" "n \<le> j" "j < 2 ^ k"
  shows "ring_slice (d[ring_idx (mask k) (a + of_nat j) := x]) (mask k) a n
    = ring_slice d (mask k) a n"
proof (rule ring_slice_cong)
  fix i assume "i < n"
  then have "i \<noteq> j" "i < 2 ^ k" using assms by auto
  then have "ring_idx (mask k) (a + of_nat j) \<noteq> ring_idx (mask k) (a + of_nat i)"
    using ring_idx_inj [OF assms(1)] assms(3) by metis
  then show "d[ring_idx (mask k) (a + of_nat j) := x] ! ring_idx (mask k) (a + of_nat i)
      = d ! ring_idx (mask k) (a + of_nat i)"
    by simp
qed

lemma ring_slice_snoc_update:
  fixes a :: "'a::len word"
  assumes "k \<le> LENGTH('a)" "n < 2 ^ k" "length d = 2 ^ k"
  shows "ring_slice (d[ring_idx (mask k) (a + of_nat n) := x]) (mask k) a (Suc n)
    = ring_slice d (mask k) a n @ [x]"
  using assms by (simp add: ring_slice_Suc ring_slice_update_outside ring_idx_less)

lemmas ring_dist_simps = dist_suc_right dist_suc_left dist_of_nat

declare ring_dist_simps [ring_simps] ring_slice_Suc [ring_simps]

end
