(* ===== verification/Mark.thy ===== *)
theory Mark
  imports Prelude
begin

text \<open>
  The packet classifier of \<open>proxy/mark_fun.h\<close>, which both the eBPF transmit
  programs and the backend run, over the header layouts of
  \<open>include/net_headers.h\<close> on a little-endian machine.

  A packet is the list of bytes behind the data pointer, and a pointer into it
  is an offset.  Every load goes through \<open>rd8\<close>, which is \<open>None\<close> beyond the bytes
  that exist, so an out-of-bounds read is a value of the model.
\<close>

section \<open>Loads and byte order\<close>

definition rd8 :: "u8 list \<Rightarrow> nat \<Rightarrow> u8 option" where
  "rd8 data i = (if i < length data then Some (data ! i) else None)"

definition rd16 :: "u8 list \<Rightarrow> nat \<Rightarrow> u16 option" where
  "rd16 data i = do {
     a \<leftarrow> rd8 data i;
     b \<leftarrow> rd8 data (i + 1);
     Some (ucast a OR push_bit 8 (ucast b)) }"

definition rd32 :: "u8 list \<Rightarrow> nat \<Rightarrow> u32 option" where
  "rd32 data i = do {
     a \<leftarrow> rd16 data i;
     b \<leftarrow> rd16 data (i + 2);
     Some (ucast a OR push_bit 16 (ucast b)) }"

definition bswap16 :: "u16 \<Rightarrow> u16" where
  "bswap16 x = push_bit 8 (x AND 0xff) OR drop_bit 8 x"

definition bswap32 :: "u32 \<Rightarrow> u32" where
  "bswap32 x = push_bit 24 (x AND 0xff) OR push_bit 8 (x AND 0xff00)
     OR (drop_bit 8 x AND 0xff00) OR drop_bit 24 x"

definition be16_to_cpu :: "u16 \<Rightarrow> u16" where "be16_to_cpu x = bswap16 x"
definition be32_to_cpu :: "u32 \<Rightarrow> u32" where "be32_to_cpu x = bswap32 x"
definition cpu_to_be32 :: "u32 \<Rightarrow> u32" where "cpu_to_be32 x = bswap32 x"

section \<open>Header fields\<close>

definition sizeof_ethhdr :: nat where "sizeof_ethhdr = 14"
definition sizeof_iphdr :: nat where "sizeof_iphdr = 20"
definition sizeof_udphdr :: nat where "sizeof_udphdr = 8"
definition sizeof_tcphdr :: nat where "sizeof_tcphdr = 20"

definition ETH_P_IP :: u16 where "ETH_P_IP = 0x0800"
definition ETH_P_ARP :: u16 where "ETH_P_ARP = 0x0806"
definition IPPROTO_ICMP :: u8 where "IPPROTO_ICMP = 1"
definition IPPROTO_TCP :: u8 where "IPPROTO_TCP = 6"
definition IPPROTO_UDP :: u8 where "IPPROTO_UDP = 17"

definition eth_h_proto :: "u8 list \<Rightarrow> nat \<Rightarrow> u16 option" where
  "eth_h_proto data mac = rd16 data (mac + 12)"

definition iph_version :: "u8 list \<Rightarrow> nat \<Rightarrow> u8 option" where
  "iph_version data iph = map_option (\<lambda>b. drop_bit 4 b) (rd8 data iph)"
definition iph_ihl :: "u8 list \<Rightarrow> nat \<Rightarrow> u8 option" where
  "iph_ihl data iph = map_option (\<lambda>b. b AND 0x0f) (rd8 data iph)"
definition iph_tos :: "u8 list \<Rightarrow> nat \<Rightarrow> u8 option" where
  "iph_tos data iph = rd8 data (iph + 1)"
definition iph_protocol :: "u8 list \<Rightarrow> nat \<Rightarrow> u8 option" where
  "iph_protocol data iph = rd8 data (iph + 9)"
definition iph_daddr :: "u8 list \<Rightarrow> nat \<Rightarrow> u32 option" where
  "iph_daddr data iph = rd32 data (iph + 16)"

definition l4_dest :: "u8 list \<Rightarrow> nat \<Rightarrow> u16 option" where
  "l4_dest data h = rd16 data (h + 2)"
definition tcp_doff :: "u8 list \<Rightarrow> nat \<Rightarrow> u8 option" where
  "tcp_doff data h = map_option (\<lambda>b. drop_bit 4 b) (rd8 data (h + 12))"
definition tcp_syn :: "u8 list \<Rightarrow> nat \<Rightarrow> bool option" where
  "tcp_syn data h = map_option (\<lambda>b. bit b 1) (rd8 data (h + 13))"
definition tcp_ack :: "u8 list \<Rightarrow> nat \<Rightarrow> bool option" where
  "tcp_ack data h = map_option (\<lambda>b. bit b 4) (rd8 data (h + 13))"

section \<open>Classes\<close>

definition STREAM_A1 :: u32 where "STREAM_A1 = 0"
definition STREAM_A2 :: u32 where "STREAM_A2 = 1"
definition STREAM_B1 :: u32 where "STREAM_B1 = 4"
definition STREAM_ERR :: u32 where "STREAM_ERR = 12"
definition DEFAULT_CLASS :: u32 where "DEFAULT_CLASS = 13"

definition STREAM_BY_CLASS :: "u8 \<Rightarrow> u32 \<Rightarrow> u32" where
  "STREAM_BY_CLASS cl strm = ucast cl * 4 + strm"

definition IPADDR :: "u32 \<Rightarrow> u32 \<Rightarrow> u32 \<Rightarrow> u32 \<Rightarrow> u32" where
  "IPADDR a1 a2 a3 a4 = push_bit 24 a1 OR push_bit 16 a2 OR push_bit 8 a3 OR a4"

section \<open>Searching a prefix\<close>

text \<open>A C string is the list of its bytes with the terminating zero.\<close>

definition bpf_strlen :: "u8 list \<Rightarrow> u32" where
  "bpf_strlen str = of_nat (length (takeWhile (\<lambda>c. c \<noteq> 0) str))"

fun find_prefix_loop :: "u8 list \<Rightarrow> nat \<Rightarrow> u8 list \<Rightarrow> nat \<Rightarrow> nat \<Rightarrow> bool option" where
  "find_prefix_loop data buf prefix i 0 = Some True"
| "find_prefix_loop data buf prefix i (Suc n) = do {
     b \<leftarrow> rd8 data (buf + i);
     p \<leftarrow> rd8 prefix i;
     if b \<noteq> p then Some False else find_prefix_loop data buf prefix (i + 1) n }"

definition find_prefix :: "u8 list \<Rightarrow> nat \<Rightarrow> u16 \<Rightarrow> u8 list \<Rightarrow> bool option" where
  "find_prefix data buf buf_len prefix =
    (let prefix_len = bpf_strlen prefix in
     if prefix_len = 0 \<or> prefix_len > ucast buf_len then Some False
     else find_prefix_loop data buf prefix 0 (unat prefix_len))"

text \<open>The string \<open>GET / HTTP/1.1\<close>.\<close>

definition http_prefix :: "u8 list" where
  "http_prefix = [0x47, 0x45, 0x54, 0x20, 0x2f, 0x20, 0x48, 0x54, 0x54, 0x50,
                  0x2f, 0x31, 0x2e, 0x31, 0]"

section \<open>The classifier\<close>

text \<open>The macro \<open>SAFE_PKTDATA_OFFSET_ADV\<close> returns \<open>STREAM_ERR\<close> from the enclosing
  function when the packet is too short, and otherwise advances both the data
  pointer and the 16-bit offset; the rest of the function is its continuation.\<close>

definition SAFE_PKTDATA_OFFSET_ADV ::
  "nat \<Rightarrow> u16 \<Rightarrow> nat \<Rightarrow> u32 \<Rightarrow> (nat \<Rightarrow> u16 \<Rightarrow> u32 option) \<Rightarrow> u32 option" where
  "SAFE_PKTDATA_OFFSET_ADV data data_offset x pkt_sz cont =
    (if unat data_offset + x > unat pkt_sz then Some STREAM_ERR
     else cont (data + x) (data_offset + of_nat x))"

definition mark_ipclass :: "u8 \<Rightarrow> u32 \<Rightarrow> u8" where
  "mark_ipclass tos dest_ip =
    (if tos = 0x0c \<or> tos = 0xb8 \<or>
        be32_to_cpu dest_ip AND IPADDR 255 255 255 0 = IPADDR 172 16 139 0 then 0
     else if be32_to_cpu dest_ip AND IPADDR 255 255 255 0 = IPADDR 172 16 128 0 then 1
     else 2)"

text \<open>The payload rules: the part of the function after the headers have been
  parsed.  \<open>syn_ack\<close> is what the test of the two TCP flags reads; it is only
  looked at for TCP packets.\<close>

definition mark_rules ::
  "u8 list \<Rightarrow> nat \<Rightarrow> u32 \<Rightarrow> u8 \<Rightarrow> u8 \<Rightarrow> u32 \<Rightarrow> u16 \<Rightarrow> bool option \<Rightarrow> u32 option" where
  "mark_rules data l7_payload payload_size protocol tos dest_ip dest_port syn_ack =
    (if protocol = IPPROTO_ICMP then Some STREAM_A1
     else if protocol = IPPROTO_UDP \<and> dest_port = 53 \<and>
             (dest_ip = cpu_to_be32 (IPADDR 8 8 8 8) \<or> dest_ip = IPADDR 8 8 4 4)
       then Some STREAM_A1
     else if protocol = IPPROTO_UDP \<and> dest_port = 53 then Some STREAM_A2
     else
       let ipclass = mark_ipclass tos dest_ip in
       if protocol = IPPROTO_UDP \<and> dest_port = 1853 then Some (STREAM_BY_CLASS ipclass 0)
       else if protocol = IPPROTO_TCP \<and> (dest_port = 22 \<or> dest_port = 23 \<or> dest_port = 3389)
         then Some (STREAM_BY_CLASS ipclass 1)
       else do {
         small \<leftarrow> (if protocol = IPPROTO_TCP
                  then map_option (\<lambda>f. f \<and> payload_size < 200) syn_ack
                  else Some False);
         if small then Some (STREAM_BY_CLASS ipclass 1)
         else if (protocol = IPPROTO_TCP \<or> protocol = IPPROTO_UDP) \<and>
                 (dest_port = 111 \<or> dest_port = 2049)
           then Some (STREAM_BY_CLASS ipclass 2)
         else if protocol = IPPROTO_TCP \<and> (dest_port = 20 \<or> dest_port = 21 \<or> dest_port = 69)
           then Some (STREAM_BY_CLASS ipclass 2)
         else if protocol = IPPROTO_TCP \<and> (dest_port = 80 \<or> dest_port = 443)
           then Some (STREAM_BY_CLASS ipclass 3)
         else do {
           http \<leftarrow> (if protocol = IPPROTO_TCP
                   then find_prefix data l7_payload (ucast payload_size) http_prefix
                   else Some False);
           Some (if http then STREAM_B1 else DEFAULT_CLASS) } })"

text \<open>The transport headers: the switch on the protocol.\<close>

definition mark_l4 ::
  "u8 list \<Rightarrow> nat \<Rightarrow> u16 \<Rightarrow> u32 \<Rightarrow> u8 \<Rightarrow> u8 \<Rightarrow> u32 \<Rightarrow> u32 option" where
  "mark_l4 pkt data data_offset pkt_sz protocol tos dest_ip =
    (if protocol = IPPROTO_UDP then
       SAFE_PKTDATA_OFFSET_ADV data data_offset sizeof_udphdr pkt_sz (\<lambda>data' data_offset'. do {
         port \<leftarrow> l4_dest pkt data;
         mark_rules pkt data' (pkt_sz - ucast data_offset') protocol tos dest_ip
           (be16_to_cpu port) None })
     else if protocol = IPPROTO_TCP then
       SAFE_PKTDATA_OFFSET_ADV data data_offset sizeof_tcphdr pkt_sz (\<lambda>data' data_offset'. do {
         port \<leftarrow> l4_dest pkt data;
         doff \<leftarrow> tcp_doff pkt data;
         if \<not> unat doff * 4 \<ge> sizeof_tcphdr then Some STREAM_ERR
         else SAFE_PKTDATA_OFFSET_ADV data' data_offset' (unat doff * 4 - sizeof_tcphdr) pkt_sz
           (\<lambda>data'' data_offset''.
             mark_rules pkt data'' (pkt_sz - ucast data_offset'') protocol tos dest_ip
               (be16_to_cpu port)
               (do { syn \<leftarrow> tcp_syn pkt data;
                     if syn then Some True else tcp_ack pkt data })) })
     else if protocol = IPPROTO_ICMP then
       mark_rules pkt data (pkt_sz - ucast data_offset) protocol tos dest_ip 0 None
     else Some DEFAULT_CLASS)"

text \<open>The link and network headers.\<close>

definition mark_packet_fun :: "u8 list \<Rightarrow> u32 \<Rightarrow> u32 option" where
  "mark_packet_fun pkt pkt_sz =
    SAFE_PKTDATA_OFFSET_ADV 0 0 sizeof_ethhdr pkt_sz (\<lambda>iph data_offset. do {
      h_proto \<leftarrow> eth_h_proto pkt 0;
      let ethertype = be16_to_cpu h_proto;
      if ethertype = ETH_P_ARP then Some STREAM_A1
      else if ethertype \<noteq> ETH_P_IP then Some DEFAULT_CLASS
      else SAFE_PKTDATA_OFFSET_ADV iph data_offset sizeof_iphdr pkt_sz
        (\<lambda>data data_offset. do {
          version \<leftarrow> iph_version pkt iph;
          if version \<noteq> 4 then Some DEFAULT_CLASS
          else do {
            ihl \<leftarrow> iph_ihl pkt iph;
            if \<not> unat ihl * 4 \<ge> sizeof_iphdr then Some STREAM_ERR
            else SAFE_PKTDATA_OFFSET_ADV data data_offset (unat ihl * 4 - sizeof_iphdr) pkt_sz
              (\<lambda>data data_offset. do {
                dest_ip \<leftarrow> iph_daddr pkt iph;
                protocol \<leftarrow> iph_protocol pkt iph;
                tos \<leftarrow> iph_tos pkt iph;
                mark_l4 pkt data data_offset pkt_sz protocol tos dest_ip }) } }) })"

section \<open>Loads stay inside the packet\<close>

lemma rd8_in [simp]: "i < length data \<Longrightarrow> rd8 data i = Some (data ! i)"
  by (simp add: rd8_def)

lemma rd16_in: "i + 1 < length data \<Longrightarrow>
    rd16 data i = Some (ucast (data ! i) OR push_bit 8 (ucast (data ! (i + 1))))"
  by (simp add: rd16_def)

lemma rd32_in: "i + 3 < length data \<Longrightarrow> \<exists>w. rd32 data i = Some w"
  by (simp add: rd32_def rd16_in)

lemma find_prefix_loop_iff:
  "buf + i + n \<le> length data \<Longrightarrow> i + n \<le> length prefix \<Longrightarrow>
    find_prefix_loop data buf prefix i n
      = Some (take n (drop (buf + i) data) = take n (drop i prefix))"
proof (induction n arbitrary: i)
  case (Suc n)
  have "find_prefix_loop data buf prefix (i + 1) n
      = Some (take n (drop (buf + (i + 1)) data) = take n (drop (i + 1) prefix))"
    using Suc.prems by (intro Suc.IH) simp_all
  moreover have "drop (buf + i) data = data ! (buf + i) # drop (buf + (i + 1)) data"
    using Suc.prems Cons_nth_drop_Suc [of "buf + i" data] by simp
  moreover have "drop i prefix = prefix ! i # drop (i + 1) prefix"
    using Suc.prems Cons_nth_drop_Suc [of i prefix] by simp
  ultimately show ?case using Suc.prems by simp
qed simp

lemma http_prefix_len: "bpf_strlen http_prefix = 14"
  by (simp add: bpf_strlen_def http_prefix_def)

lemma find_prefix_in:
  assumes "buf + unat buf_len \<le> length data"
  shows "\<exists>r. find_prefix data buf buf_len http_prefix = Some r"
proof (cases "(14::u32) > ucast buf_len")
  case False
  then have "14 \<le> unat buf_len"
    by (simp add: not_less word_le_nat_alt unat_ucast_up)
  then show ?thesis
    using assms False find_prefix_loop_iff [of buf 0 14 data http_prefix]
    by (simp add: find_prefix_def http_prefix_len)
      (simp add: http_prefix_def)
qed (auto simp: find_prefix_def http_prefix_len)

section \<open>The range of the marks\<close>

lemma mark_ipclass_range: "mark_ipclass tos ip \<in> {0, 1, 2}"
  by (simp add: mark_ipclass_def)

lemma stream_by_class_le: "cl \<in> {0, 1, 2} \<Longrightarrow> s \<le> 3 \<Longrightarrow> STREAM_BY_CLASS cl s \<le> 11"
  by (auto simp: STREAM_BY_CLASS_def word_le_nat_alt unat_word_ariths)

lemma mark_rules_range:
  assumes payload: "l7 + unat (ucast sz :: u16) \<le> length pkt"
    and flags: "protocol = IPPROTO_TCP \<Longrightarrow> syn_ack \<noteq> None"
  shows "\<exists>m. mark_rules pkt l7 sz protocol tos ip port syn_ack = Some m \<and>
    m \<le> 13 \<and> m \<noteq> STREAM_ERR"
proof -
  obtain http where http: "find_prefix pkt l7 (ucast sz) http_prefix = Some http"
    using find_prefix_in [OF payload] by blast
  have by_class: "STREAM_BY_CLASS (mark_ipclass tos ip) s \<le> 13 \<and>
      STREAM_BY_CLASS (mark_ipclass tos ip) s \<noteq> 12" if "s \<le> 3" for s
    using stream_by_class_le [OF mark_ipclass_range that, of tos ip]
    by (auto simp: word_le_nat_alt)
  show ?thesis
  proof (cases "protocol = IPPROTO_TCP")
    case True
    then obtain f where "syn_ack = Some f" using flags by blast
    then show ?thesis using True
      unfolding ex_Some_case mark_rules_def
      by (simp add: Let_def http IPPROTO_TCP_def IPPROTO_UDP_def IPPROTO_ICMP_def
          by_class STREAM_B1_def DEFAULT_CLASS_def STREAM_ERR_def)
  next
    case False
    then show ?thesis
      unfolding ex_Some_case mark_rules_def
      by (simp add: Let_def by_class STREAM_A1_def STREAM_A2_def
          STREAM_B1_def DEFAULT_CLASS_def STREAM_ERR_def)
  qed
qed

lemma safe_adv_cases:
  assumes "\<And>data' off'. unat off + x \<le> unat sz \<Longrightarrow> data' = data + x \<Longrightarrow>
      unat off' = unat off + x \<Longrightarrow> \<exists>m. cont data' off' = Some m \<and> m \<le> 13"
    and "unat off + x < 2 ^ 16"
  shows "\<exists>m. SAFE_PKTDATA_OFFSET_ADV data off x sz cont = Some m \<and> m \<le> 13"
proof (cases "unat off + x > unat sz")
  case False
  have "unat (off + of_nat x) = unat off + x"
    using assms(2) by (simp add: unat_word_ariths unat_of_nat)
  then show ?thesis
    using assms(1) [of "data + x" "off + of_nat x"] False
    by (simp add: SAFE_PKTDATA_OFFSET_ADV_def)
qed (simp add: SAFE_PKTDATA_OFFSET_ADV_def STREAM_ERR_def)

lemma payload_in:
  fixes sz :: u32 and off :: u16
  assumes "unat off \<le> unat sz" "unat sz \<le> n"
  shows "unat off + unat (ucast (sz - ucast off) :: u16) \<le> n"
proof -
  have "(ucast off :: u32) \<le> sz"
    using assms(1) by (simp add: word_le_nat_alt unat_ucast_up)
  then have "unat (sz - ucast off) = unat sz - unat off"
    by (simp add: unat_sub unat_ucast_up)
  moreover have "unat (ucast (sz - ucast off) :: u16) \<le> unat (sz - ucast off)"
    by (simp add: unsigned_ucast_eq take_bit_nat_less_eq_self)
  ultimately show ?thesis using assms by simp
qed

lemmas header_size_defs =
  sizeof_ethhdr_def sizeof_iphdr_def sizeof_udphdr_def sizeof_tcphdr_def

lemma nibble_less:
  fixes b :: u8
  shows "unat (drop_bit 4 b) < 16" and "unat (b AND 0x0f) < 16"
proof -
  show "unat (drop_bit 4 b) < 16"
  proof -
    have "unat b < 2 ^ 8" by (rule less_le_trans [OF unsigned_less]) simp
    then show ?thesis
      by (simp add: drop_bit_eq_div unat_div_distrib)
  qed
  have "b AND 0x0f = take_bit 4 b"
    by (simp add: take_bit_eq_mask mask_eq_exp_minus_1)
  then show "unat (b AND 0x0f) < 16"
    using take_bit_nat_less_exp [of 4 "unat b"] by (simp add: unsigned_take_bit_eq)
qed

lemma mark_rules_le:
  fixes off :: u16
  assumes "unat off \<le> unat sz" "unat sz \<le> length pkt"
    and "protocol = IPPROTO_TCP \<Longrightarrow> syn_ack \<noteq> None"
  shows "\<exists>m. mark_rules pkt (unat off) (sz - ucast off) protocol tos ip port syn_ack = Some m
    \<and> m \<le> 13"
  using mark_rules_range [OF payload_in [OF assms(1,2)] assms(3)] by blast

lemma mark_l4_le:
  assumes off: "unat off \<le> unat sz" "unat sz \<le> length pkt" "unat off \<le> 100"
  shows "\<exists>m. mark_l4 pkt (unat off) off sz protocol tos ip = Some m \<and> m \<le> 13"
proof (cases "protocol = IPPROTO_UDP")
  case udp: True
  show ?thesis unfolding mark_l4_def if_P [OF udp]
  proof (rule safe_adv_cases, goal_cases)
    case (1 data' off')
    then show ?case
      using off udp mark_rules_le [of off' sz pkt protocol None]
      by (simp add: l4_dest_def rd16_in header_size_defs IPPROTO_UDP_def IPPROTO_TCP_def)
  qed (use off in \<open>simp add: header_size_defs\<close>)
next
  case not_udp: False
  show ?thesis
  proof (cases "protocol = IPPROTO_TCP")
    case tcp: True
    show ?thesis unfolding mark_l4_def if_not_P [OF not_udp] if_P [OF tcp]
    proof (rule safe_adv_cases, goal_cases)
      case (1 data' off')
      let ?doff = "drop_bit 4 (pkt ! (unat off + 12))"
      let ?flags = "do { syn \<leftarrow> tcp_syn pkt (unat off);
                         if syn then Some True else tcp_ack pkt (unat off) }"
      have flags: "?flags \<noteq> None"
        using 1 off by (auto simp: tcp_syn_def tcp_ack_def header_size_defs)
      have adv: "\<exists>m. SAFE_PKTDATA_OFFSET_ADV data' off' (unat ?doff * 4 - sizeof_tcphdr) sz
          (\<lambda>d o'. mark_rules pkt d (sz - ucast o') protocol tos ip port ?flags) = Some m \<and> m \<le> 13"
        for port
      proof (rule safe_adv_cases, goal_cases)
        case (1 d o')
        then show ?case
          using \<open>data' = _\<close> \<open>unat off' = _\<close> off(2) flags mark_rules_le [of o' sz pkt protocol ?flags]
          by simp
      next
        case 2
        show ?case using \<open>unat off' = _\<close> off nibble_less(1) [of "pkt ! (unat off + 12)"]
          by (simp add: header_size_defs)
      qed
      show ?case
        using 1 off adv
        by (simp add: l4_dest_def tcp_doff_def rd16_in header_size_defs STREAM_ERR_def)
    qed (use off in \<open>simp add: header_size_defs\<close>)
  next
    case False
    then show ?thesis
      using not_udp mark_rules_le [OF off(1,2), of protocol None]
      by (auto simp: mark_l4_def DEFAULT_CLASS_def)
  qed
qed

lemma mark_ip_le:
  assumes "14 \<le> unat sz" "unat sz \<le> length pkt"
  shows "\<exists>m. SAFE_PKTDATA_OFFSET_ADV 14 14 sizeof_iphdr sz (\<lambda>data off. do {
      version \<leftarrow> iph_version pkt 14;
      if version \<noteq> 4 then Some DEFAULT_CLASS
      else do {
        ihl \<leftarrow> iph_ihl pkt 14;
        if \<not> unat ihl * 4 \<ge> sizeof_iphdr then Some STREAM_ERR
        else SAFE_PKTDATA_OFFSET_ADV data off (unat ihl * 4 - sizeof_iphdr) sz (\<lambda>data off. do {
          ip \<leftarrow> iph_daddr pkt 14;
          protocol \<leftarrow> iph_protocol pkt 14;
          tos \<leftarrow> iph_tos pkt 14;
          mark_l4 pkt data off sz protocol tos ip }) } }) = Some m \<and> m \<le> 13"
proof (rule safe_adv_cases, goal_cases)
  case (1 data off)
  let ?ihl = "pkt ! 14 AND 0x0f"
  have len: "34 \<le> length pkt" using 1 assms by (simp add: header_size_defs)
  obtain ip where ip: "iph_daddr pkt 14 = Some ip"
    using rd32_in [of 30 pkt] len by (auto simp: iph_daddr_def)
  have "\<exists>m. SAFE_PKTDATA_OFFSET_ADV data off (unat ?ihl * 4 - sizeof_iphdr) sz
      (\<lambda>data off. mark_l4 pkt data off sz (pkt ! 23) (pkt ! 15) ip) = Some m \<and> m \<le> 13"
  proof (rule safe_adv_cases, goal_cases)
    case (1 d o')
    then show ?case
      using \<open>data = _\<close> \<open>unat off = _\<close> assms mark_l4_le [of o' sz pkt] nibble_less(2) [of "pkt ! 14"]
      by (simp add: header_size_defs)
  next
    case 2
    show ?case using \<open>unat off = _\<close> nibble_less(2) [of "pkt ! 14"]
      by (simp add: header_size_defs)
  qed
  then show ?case
    using len by (simp add: iph_version_def iph_ihl_def iph_protocol_def iph_tos_def ip
        DEFAULT_CLASS_def STREAM_ERR_def)
qed (simp add: header_size_defs)

lemma bswap32_involution: "bswap32 (bswap32 x) = x"
proof -
  have m: "(0xff :: u32) = mask 8" "(0xff00 :: u32) = push_bit 8 (mask 8)"
    by (simp_all add: mask_eq_exp_minus_1)
  show ?thesis
  proof (rule bit_word_eqI)
    fix n assume "n < LENGTH(32)"
    then consider "n < 8" | "8 \<le> n" "n < 16" | "16 \<le> n" "n < 24" | "24 \<le> n" "n < 32"
      by fastforce
    then show "bit (bswap32 (bswap32 x)) n = bit x n"
      by cases (auto simp: bswap32_def m bit_simps less_diff_conv2 dest: bit_imp_le_length)
  qed
qed

lemma bswap32_eq_iff: "bswap32 x = y \<longleftrightarrow> x = bswap32 y"
  using bswap32_involution by metis

text \<open>The whole classifier.\<close>

lemma mark_packet_fun_le:
  assumes "unat pkt_sz \<le> length pkt"
  shows "\<exists>m. mark_packet_fun pkt pkt_sz = Some m \<and> m \<le> 13"
  unfolding mark_packet_fun_def
proof (rule safe_adv_cases, goal_cases)
  case (1 data off)
  then have off: "off = 14" "data = 14" "14 \<le> unat pkt_sz"
    by (simp_all add: header_size_defs word_unat_eq_iff)
  show ?case
    using mark_ip_le [OF off(3) assms] assms off(3) unfolding off(1,2)
    by (simp add: eth_h_proto_def rd16_in STREAM_A1_def DEFAULT_CLASS_def Let_def)
qed (simp add: header_size_defs)

section \<open>Properties\<close>

text \<open>C10: on a packet whose buffer holds at least the announced number of bytes the
  classifier returns, reads no byte outside the packet, and its result is one of
  the classes 0 to 13.\<close>

theorem mark_packet_fun_safe:
  assumes "unat pkt_sz \<le> length pkt"
  shows "\<exists>m. mark_packet_fun pkt pkt_sz = Some m \<and> m \<le> 13"
  using assms by (rule mark_packet_fun_le)

text \<open>Witness of C10: a complete ARP frame header.\<close>

theorem mark_packet_fun_safe_witness:
  "\<exists>m. mark_packet_fun (replicate 12 0 @ [0x08, 0x06]) 14 = Some m \<and> m \<le> 13"
  by (rule mark_packet_fun_safe) simp

text \<open>C13: DNS queries (UDP port 53) get the top class exactly for the destinations
  8.8.8.8 and 4.4.8.8, and the second class otherwise; the second address of the
  intended resolver, 8.8.4.4, is compared without byte swap and is not matched.\<close>

theorem mark_rules_dns:
  "mark_rules pkt l7 sz IPPROTO_UDP tos ip 53 flags
    = Some (if be32_to_cpu ip = IPADDR 8 8 8 8 \<or> be32_to_cpu ip = IPADDR 4 4 8 8
            then STREAM_A1 else STREAM_A2)"
proof -
  have "be32_to_cpu ip = IPADDR 4 4 8 8 \<longleftrightarrow> ip = IPADDR 8 8 4 4"
    unfolding be32_to_cpu_def bswap32_eq_iff by (simp add: bswap32_def IPADDR_def)
  moreover have "be32_to_cpu ip = IPADDR 8 8 8 8 \<longleftrightarrow> ip = cpu_to_be32 (IPADDR 8 8 8 8)"
    unfolding be32_to_cpu_def cpu_to_be32_def by (rule bswap32_eq_iff)
  ultimately show ?thesis
    by (simp add: mark_rules_def IPPROTO_UDP_def IPPROTO_ICMP_def)
qed

end
