(* ===== verification/Guest_Memory.thy ===== *)
theory Guest_Memory
  imports Prelude "HOL-Library.Multiset"
begin

text \<open>
  The guest memory map of a backend and the translation of guest-physical
  addresses to host-virtual ones (\<open>translate_addr\<close> of \<open>proxy/backend.h\<close>), with its
  move-to-front search of the region table, and the queue bookkeeping that the
  ring back ends share.

  Addresses are 64-bit words and \<open>gpa + len\<close> wraps as it does in C.
\<close>

section \<open>Structures\<close>

record BpfhvBackendMemoryRegion =
  gpa_start :: u64
  gpa_end :: u64
  region_size :: u64
  hv_vaddr :: u64
  mmap_offset :: u64
  mmap_addr :: u64
  va_start :: u64

definition BPFHV_PROXY_MAX_REGIONS :: nat where "BPFHV_PROXY_MAX_REGIONS = 8"

text \<open>The part of a backend that address translation reads and writes; the
  backend record of the control plane extends it.\<close>

record be_mem =
  regions :: "BpfhvBackendMemoryRegion list"
  num_regions :: nat

record iovec =
  iov_base :: u64
  iov_len :: u64

record BpfhvBackendQueueStats =
  st_bufs :: u64
  st_pkts :: u64
  st_batches :: u64
  st_kicks :: u64
  st_irqs :: u64

record BpfhvBackendQueue =
  q_notify :: bool
  q_stats :: BpfhvBackendQueueStats

definition BPFHV_BE_TX_BUDGET :: nat where "BPFHV_BE_TX_BUDGET = 128"
definition BPFHV_BE_RX_BUDGET :: nat where "BPFHV_BE_RX_BUDGET = 128"

section \<open>Translation\<close>

definition region_match :: "BpfhvBackendMemoryRegion \<Rightarrow> u64 \<Rightarrow> u64 \<Rightarrow> bool" where
  "region_match re gpa len \<longleftrightarrow> gpa_start re \<le> gpa \<and> gpa + len \<le> gpa_end re"

text \<open>The null pointer is the address 0.\<close>

definition translate_addr :: "'a be_mem_scheme \<Rightarrow> u64 \<Rightarrow> u64 \<Rightarrow> u64 \<times> 'a be_mem_scheme" where
  "translate_addr be gpa len =
    (let re = regions be ! 0 in
     if region_match re gpa len then (va_start re + (gpa - gpa_start re), be)
     else case find (\<lambda>i. region_match (regions be ! i) gpa len) [1..<num_regions be] of
       None \<Rightarrow> (0, be)
     | Some i \<Rightarrow>
         let tmp = regions be ! i;
             be' = be\<lparr>regions := (regions be)[i := regions be ! 0, 0 := tmp]\<rparr>
         in (va_start tmp + (gpa - gpa_start tmp), be'))"

section \<open>Specification\<close>

text \<open>The regions in use, as a set, and containment of a range in unbounded
  arithmetic.\<close>

definition active_regions :: "'a be_mem_scheme \<Rightarrow> BpfhvBackendMemoryRegion list" where
  "active_regions be = take (num_regions be) (regions be)"

definition in_region :: "BpfhvBackendMemoryRegion \<Rightarrow> u64 \<Rightarrow> u64 \<Rightarrow> bool" where
  "in_region re gpa len \<longleftrightarrow>
     unat (gpa_start re) \<le> unat gpa \<and> unat gpa + unat len \<le> unat (gpa_end re)"

definition region_wf :: "BpfhvBackendMemoryRegion \<Rightarrow> bool" where
  "region_wf re \<longleftrightarrow> gpa_start re \<le> gpa_end re \<and> 0 < va_start re \<and>
     unat (va_start re) + unat (gpa_end re - gpa_start re) < 2 ^ 64"

definition regions_disjoint :: "BpfhvBackendMemoryRegion \<Rightarrow> BpfhvBackendMemoryRegion \<Rightarrow> bool" where
  "regions_disjoint a b \<longleftrightarrow> gpa_end a \<le> gpa_start b \<or> gpa_end b \<le> gpa_start a"

definition mem_wf :: "'a be_mem_scheme \<Rightarrow> bool" where
  "mem_wf be \<longleftrightarrow> length (regions be) = BPFHV_PROXY_MAX_REGIONS \<and>
     1 \<le> num_regions be \<and> num_regions be \<le> BPFHV_PROXY_MAX_REGIONS \<and>
     (\<forall>re \<in> set (active_regions be). region_wf re)"

definition mem_disjoint :: "'a be_mem_scheme \<Rightarrow> bool" where
  "mem_disjoint be \<longleftrightarrow> (\<forall>i < num_regions be. \<forall>j < num_regions be.
     i \<noteq> j \<longrightarrow> regions_disjoint (regions be ! i) (regions be ! j))"

text \<open>The reference translation: the address of the region that contains the
  range, whatever its position in the table.\<close>

definition lookup_region :: "BpfhvBackendMemoryRegion list \<Rightarrow> u64 \<Rightarrow> u64 \<Rightarrow> u64" where
  "lookup_region rs gpa len =
    (case find (\<lambda>re. in_region re gpa len) rs of
       None \<Rightarrow> 0
     | Some re \<Rightarrow> va_start re + (gpa - gpa_start re))"

section \<open>Matching and containment\<close>

text \<open>Without wrap-around of \<open>gpa + len\<close> the test of the code is containment.\<close>

lemma region_match_in_region:
  assumes "unat gpa + unat len < 2 ^ 64"
  shows "region_match re gpa len \<longleftrightarrow> in_region re gpa len"
  using assms by (simp add: region_match_def in_region_def word_le_nat_alt unat_word_ariths)

lemma in_region_unique:
  assumes "regions_disjoint a b" "in_region a gpa len" "in_region b gpa len" "0 < len"
  shows False
proof -
  have "0 < unat len" using assms(4) by (simp add: word_less_nat_alt)
  then show False
    using assms(1-3) by (auto simp: regions_disjoint_def in_region_def word_le_nat_alt)
qed

lemma find_upt_Some:
  assumes "find P [a..<b] = Some i"
  shows "a \<le> i" "i < b" "P i"
  using assms by (auto simp: find_Some_iff)

lemma find_upt_None: "find P [a..<b] = None \<longleftrightarrow> (\<forall>i. a \<le> i \<and> i < b \<longrightarrow> \<not> P i)"
  by (auto simp: find_None_iff)

text \<open>Swapping two active entries does not change the set of active regions.\<close>

lemma mset_active_swap:
  assumes "i < num_regions be" "num_regions be \<le> length (regions be)"
  shows "mset (active_regions (be\<lparr>regions := (regions be)[i := regions be ! 0, 0 := regions be ! i]\<rparr>))
    = mset (active_regions be)"
proof -
  let ?t = "take (num_regions be) (regions be)"
  have "take (num_regions be) ((regions be)[i := regions be ! 0, 0 := regions be ! i])
      = ?t[i := ?t ! 0, 0 := ?t ! i]"
    using assms by (simp add: take_update_swap)
  moreover have "mset (?t[i := ?t ! 0, 0 := ?t ! i]) = mset ?t"
    using assms by (intro mset_swap) simp_all
  ultimately show ?thesis by (simp add: active_regions_def)
qed

lemma active_nth: "i < num_regions be \<Longrightarrow> num_regions be \<le> length (regions be) \<Longrightarrow>
    regions be ! i \<in> set (active_regions be)"
  by (auto simp: active_regions_def in_set_conv_nth)

section \<open>What a translation does\<close>

text \<open>Either the table is unchanged, or an active entry moves to the front.\<close>

lemma translate_addr_cases:
  assumes "mem_wf be"
  obtains (hit) i where "i < num_regions be" "region_match (regions be ! i) gpa len"
      "fst (translate_addr be gpa len)
        = va_start (regions be ! i) + (gpa - gpa_start (regions be ! i))"
      "snd (translate_addr be gpa len)
        = be\<lparr>regions := (regions be)[i := regions be ! 0, 0 := regions be ! i]\<rparr>"
    | (miss) "\<forall>i < num_regions be. \<not> region_match (regions be ! i) gpa len"
      "translate_addr be gpa len = (0, be)"
proof (cases "region_match (regions be ! 0) gpa len")
  case True
  then show ?thesis using assms
    by (intro hit [of 0]) (auto simp: translate_addr_def mem_wf_def Let_def)
next
  case first: False
  show ?thesis
  proof (cases "find (\<lambda>i. region_match (regions be ! i) gpa len) [1..<num_regions be]")
    case None
    then have "\<forall>i < num_regions be. \<not> region_match (regions be ! i) gpa len"
      using first by (metis find_upt_None less_one not_le)
    then show ?thesis using None first
      by (intro miss) (simp_all add: translate_addr_def Let_def)
  next
    case (Some i)
    then show ?thesis using first find_upt_Some [OF Some]
      by (intro hit [of i]) (simp_all add: translate_addr_def Let_def)
  qed
qed

lemma translate_addr_mset:
  assumes "mem_wf be"
  shows "mset (active_regions (snd (translate_addr be gpa len))) = mset (active_regions be)"
  using assms
proof (cases rule: translate_addr_cases [OF assms, of gpa len])
  case (1 i)
  then show ?thesis using assms mset_active_swap [of i be] by (simp add: mem_wf_def)
next
  case 2
  then show ?thesis by simp
qed

lemma translate_addr_frame:
  assumes "mem_wf be"
  shows "length (regions (snd (translate_addr be gpa len))) = length (regions be)"
    and "num_regions (snd (translate_addr be gpa len)) = num_regions be"
  by (cases rule: translate_addr_cases [OF assms, of gpa len]; simp)+

lemma translate_addr_mem_wf [inv_intros]:
  assumes "mem_wf be"
  shows "mem_wf (snd (translate_addr be gpa len))"
  using assms translate_addr_frame [OF assms, of gpa len]
    mset_eq_setD [OF translate_addr_mset [OF assms, of gpa len]]
  by (simp add: mem_wf_def)

lemma regions_disjoint_sym: "regions_disjoint a b \<longleftrightarrow> regions_disjoint b a"
  by (auto simp: regions_disjoint_def)

lemma mem_disjoint_swap:
  assumes "mem_disjoint be" "k < num_regions be" "num_regions be \<le> length (regions be)"
  shows "mem_disjoint (be\<lparr>regions := (regions be)[k := regions be ! 0, 0 := regions be ! k]\<rparr>)"
proof -
  define f where "f i = (if i = 0 then k else if i = k then 0 else i)" for i
  have len: "0 < length (regions be)" using assms by linarith
  have nth: "(regions be)[k := regions be ! 0, 0 := regions be ! k] ! i = regions be ! f i"
    if "i < num_regions be" for i
    using that assms len by (auto simp: f_def nth_list_update)
  have "f i < num_regions be" if "i < num_regions be" for i
    using that assms by (auto simp: f_def)
  moreover have "f i \<noteq> f j" if "i \<noteq> j" for i j
    using that by (auto simp: f_def)
  ultimately show ?thesis
    using assms(1) unfolding mem_disjoint_def by (auto simp: nth)
qed

lemma translate_addr_mem_disjoint [inv_intros]:
  assumes "mem_wf be" "mem_disjoint be"
  shows "mem_disjoint (snd (translate_addr be gpa len))"
proof (cases rule: translate_addr_cases [OF assms(1), of gpa len])
  case (1 i)
  then show ?thesis using mem_disjoint_swap [OF assms(2) 1(1)] assms(1)
    by (simp add: mem_wf_def)
next
  case 2
  then show ?thesis using assms(2) by simp
qed

lemma lookup_region_unique:
  assumes disj: "mem_disjoint be" and len: "0 < len"
    and i: "i < num_regions be" "num_regions be \<le> length (regions be)"
    and hit: "in_region (regions be ! i) gpa len"
  shows "lookup_region (active_regions be) gpa len
    = va_start (regions be ! i) + (gpa - gpa_start (regions be ! i))"
proof -
  let ?P = "\<lambda>re. in_region re gpa len"
  have "regions be ! i \<in> set (active_regions be)" using active_nth [OF i] .
  then obtain re where re: "find ?P (active_regions be) = Some re"
    using hit by (cases "find ?P (active_regions be)") (auto simp: find_None_iff)
  then obtain j where j: "j < num_regions be" "re = regions be ! j" "?P re"
    using i(2) by (auto simp: find_Some_iff active_regions_def)
  have "i = j"
  proof (rule ccontr)
    assume "i \<noteq> j"
    then have "regions_disjoint (regions be ! i) (regions be ! j)"
      using disj i(1) j(1) by (simp add: mem_disjoint_def)
    then show False using in_region_unique [OF _ hit _ len] j by blast
  qed
  then show ?thesis using re j(2) by (simp add: lookup_region_def)
qed

lemma lookup_region_None:
  assumes "\<forall>i < num_regions be. \<not> in_region (regions be ! i) gpa len"
    and "num_regions be \<le> length (regions be)"
  shows "lookup_region (active_regions be) gpa len = 0"
proof -
  have "find (\<lambda>re. in_region re gpa len) (active_regions be) = None"
    using assms by (auto simp: find_None_iff active_regions_def in_set_conv_nth)
  then show ?thesis by (simp add: lookup_region_def)
qed

section \<open>Properties\<close>

text \<open>C8: for a non-empty range whose end does not wrap, the
  move-to-front search returns what the reference lookup of the containing region
  returns, and the region table stays well formed, disjoint, and the same multiset
  of active regions.\<close>

theorem translate_addr_correct:
  assumes "mem_wf be" "mem_disjoint be" "0 < len" "unat gpa + unat len < 2 ^ 64"
  shows "fst (translate_addr be gpa len) = lookup_region (active_regions be) gpa len \<and>
    mem_wf (snd (translate_addr be gpa len)) \<and>
    mem_disjoint (snd (translate_addr be gpa len)) \<and>
    mset (active_regions (snd (translate_addr be gpa len))) = mset (active_regions be)"
proof -
  have n: "num_regions be \<le> length (regions be)" using assms(1) by (simp add: mem_wf_def)
  have "fst (translate_addr be gpa len) = lookup_region (active_regions be) gpa len"
  proof (cases rule: translate_addr_cases [OF assms(1), of gpa len])
    case (1 i)
    then show ?thesis
      using lookup_region_unique [OF assms(2,3) 1(1) n] region_match_in_region [OF assms(4)]
      by simp
  next
    case 2
    then show ?thesis
      using lookup_region_None [OF _ n] region_match_in_region [OF assms(4)] by simp
  qed
  then show ?thesis
    using translate_addr_mem_wf translate_addr_mem_disjoint translate_addr_mset assms by blast
qed

text \<open>A table with two regions, for the witnesses.\<close>

definition region_sample :: "u64 \<Rightarrow> u64 \<Rightarrow> u64 \<Rightarrow> BpfhvBackendMemoryRegion" where
  "region_sample s e va = \<lparr>gpa_start = s, gpa_end = e, region_size = e - s, hv_vaddr = 0,
     mmap_offset = 0, mmap_addr = va, va_start = va\<rparr>"

definition mem_sample :: be_mem where
  "mem_sample = \<lparr>regions = [region_sample 0 0x1000 0x7f0000, region_sample 0x1000 0x3000 0x8f0000]
     @ replicate 6 (region_sample 0 0 0), num_regions = 2\<rparr>"

definition queue_sample :: BpfhvBackendQueue where
  "queue_sample = \<lparr>q_notify = False, q_stats =
     \<lparr>st_bufs = 0, st_pkts = 0, st_batches = 0, st_kicks = 0, st_irqs = 0\<rparr>\<rparr>"

lemma mem_sample_wf: "mem_wf mem_sample"
  by (simp add: mem_wf_def mem_sample_def active_regions_def region_sample_def region_wf_def
      BPFHV_PROXY_MAX_REGIONS_def)

lemma mem_sample_disjoint: "mem_disjoint mem_sample"
  by (auto simp: mem_disjoint_def mem_sample_def region_sample_def regions_disjoint_def
      less_Suc_eq numeral_2_eq_2)

text \<open>Witness of C8.\<close>

theorem translate_addr_correct_witness:
  "fst (translate_addr mem_sample 0x1800 64) = lookup_region (active_regions mem_sample) 0x1800 64 \<and>
    mem_wf (snd (translate_addr mem_sample 0x1800 64)) \<and>
    mem_disjoint (snd (translate_addr mem_sample 0x1800 64)) \<and>
    mset (active_regions (snd (translate_addr mem_sample 0x1800 64)))
      = mset (active_regions mem_sample)"
  by (rule translate_addr_correct [OF mem_sample_wf mem_sample_disjoint]) simp_all

text \<open>C9: a translated range that does not wrap lies completely inside the host
  mapping of one active region.\<close>

theorem translate_addr_safe:
  assumes "mem_wf be" "unat gpa + unat len < 2 ^ 64"
    and "translate_addr be gpa len = (va, be')" "va \<noteq> 0"
  shows "\<exists>re \<in> set (active_regions be). va_start re \<le> va \<and>
    unat va + unat len \<le> unat (va_start re) + unat (gpa_end re - gpa_start re)"
proof (cases rule: translate_addr_cases [OF assms(1), of gpa len])
  case (1 i)
  let ?re = "regions be ! i"
  have "?re \<in> set (active_regions be)"
    using assms(1) by (intro active_nth 1(1)) (simp add: mem_wf_def)
  moreover from this have wf: "region_wf ?re" using assms(1) by (simp add: mem_wf_def)
  have inr: "in_region ?re gpa len" using 1(2) region_match_in_region [OF assms(2)] by simp
  have d1: "unat (gpa - gpa_start ?re) = unat gpa - unat (gpa_start ?re)"
    using inr by (simp add: in_region_def unat_sub word_le_nat_alt)
  have d2: "unat (gpa_end ?re - gpa_start ?re) = unat (gpa_end ?re) - unat (gpa_start ?re)"
    using wf by (simp add: region_wf_def unat_sub)
  have small: "unat (va_start ?re) + (unat gpa - unat (gpa_start ?re)) < 2 ^ 64"
    using wf inr d2 unfolding region_wf_def in_region_def by linarith
  have "unat va = unat (va_start ?re) + (unat gpa - unat (gpa_start ?re))"
    using 1(3) assms(3) d1 mod_less [OF small] by (simp add: unat_word_ariths)
  then have "va_start ?re \<le> va \<and>
      unat va + unat len \<le> unat (va_start ?re) + unat (gpa_end ?re - gpa_start ?re)"
    using inr d2 unfolding word_le_nat_alt in_region_def by linarith
  ultimately show ?thesis by blast
next
  case 2
  then show ?thesis using assms by simp
qed

text \<open>Witness of C9.\<close>

theorem translate_addr_safe_witness:
  "\<exists>re \<in> set (active_regions mem_sample). va_start re \<le> 0x8f0800 \<and>
    unat (0x8f0800 :: u64) + unat (64 :: u64)
      \<le> unat (va_start re) + unat (gpa_end re - gpa_start re)"
proof (rule translate_addr_safe [OF mem_sample_wf])
  show "translate_addr mem_sample 0x1800 64
      = (0x8f0800, snd (translate_addr mem_sample 0x1800 64))"
    by (simp add: translate_addr_def mem_sample_def region_sample_def region_match_def
        upt_rec Let_def)
qed simp_all

text \<open>C12: the end of the range is computed modulo \<open>2 ^ 64\<close>, so a descriptor whose
  address lies beyond the end of the first region is accepted when its end wraps,
  although the region does not contain the range.\<close>

theorem translate_addr_wraps:
  assumes "mem_wf be" "gpa_start (regions be ! 0) \<le> gpa" "gpa_end (regions be ! 0) < gpa"
    and "gpa + len \<le> gpa_end (regions be ! 0)"
  shows "translate_addr be gpa len
      = (va_start (regions be ! 0) + (gpa - gpa_start (regions be ! 0)), be) \<and>
    \<not> in_region (regions be ! 0) gpa len"
proof
  show "translate_addr be gpa len
      = (va_start (regions be ! 0) + (gpa - gpa_start (regions be ! 0)), be)"
    using assms by (simp add: translate_addr_def region_match_def Let_def)
  show "\<not> in_region (regions be ! 0) gpa len"
    using assms(3) by (simp add: in_region_def word_less_nat_alt)
qed

text \<open>Witness of C12: 32 bytes at the last 16 bytes of the address space.\<close>

theorem translate_addr_wraps_witness:
  "translate_addr mem_sample 0xfffffffffffffff0 32
      = (va_start (regions mem_sample ! 0)
          + (0xfffffffffffffff0 - gpa_start (regions mem_sample ! 0)), mem_sample) \<and>
    \<not> in_region (regions mem_sample ! 0) 0xfffffffffffffff0 32"
  by (rule translate_addr_wraps [OF mem_sample_wf])
    (simp_all add: mem_sample_def region_sample_def)

end
