(* ===== verification/Bpfhv_Types.thy ===== *)
theory Bpfhv_Types
  imports Prelude
begin

text \<open>
  The structures and constants of \<open>include/bpfhv.h\<close> that the driver, the eBPF
  programs and the backend share: scatter-gather buffer descriptors, the
  per-queue context, feature bits and status bits.

  \<open>struct bpfhv_tx_context\<close> and \<open>struct bpfhv_rx_context\<close> have the same fields in
  the same order, so one record models both.  The hypervisor-specific part that
  follows the context in memory (the \<open>opaque\<close> member) is a separate value that
  the programs take and return next to the context.
\<close>

section \<open>Buffers and contexts\<close>

record bpfhv_buf =
  buf_cookie :: u64
  buf_paddr :: u64
  buf_vaddr :: u64
  buf_len :: u32

record bpfhv_context =
  guest_priv :: u64
  packet :: u64
  num_bufs :: u32
  iflags :: u32
  oflags :: u32
  min_completed_bufs :: u32
  min_intr_nsecs :: u32
  bufs :: "bpfhv_buf list"

type_synonym bpfhv_tx_context = bpfhv_context
type_synonym bpfhv_rx_context = bpfhv_context

definition BPFHV_MAX_RX_BUFS :: u32 where "BPFHV_MAX_RX_BUFS = 64"
definition BPFHV_MAX_TX_BUFS :: u32 where "BPFHV_MAX_TX_BUFS = 64"
definition BPFHV_IFLAGS_INTR_NEEDED :: u32 where "BPFHV_IFLAGS_INTR_NEEDED = 1"
definition BPFHV_OFLAGS_KICK_NEEDED :: u32 where "BPFHV_OFLAGS_KICK_NEEDED = 1"
definition BPFHV_OFLAGS_RESCHED_NEEDED :: u32 where "BPFHV_OFLAGS_RESCHED_NEEDED = 2"

text \<open>The size of the two context structures: the fixed part is 48 bytes and
  each of the 64 buffers takes 32.\<close>

definition sizeof_bpfhv_context :: nat where
  "sizeof_bpfhv_context = 8 + 8 + 5 * 4 + 3 * 4 + 64 * 32"

section \<open>Status, control and feature bits\<close>

definition BPFHV_STATUS_LINK :: u32 where "BPFHV_STATUS_LINK = 1"
definition BPFHV_STATUS_UPGRADE :: u32 where "BPFHV_STATUS_UPGRADE = 2"
definition BPFHV_STATUS_RX_ENABLED :: u32 where "BPFHV_STATUS_RX_ENABLED = 4"
definition BPFHV_STATUS_TX_ENABLED :: u32 where "BPFHV_STATUS_TX_ENABLED = 8"

definition BPFHV_F_SG :: u64 where "BPFHV_F_SG = 0x1"
definition BPFHV_F_TX_CSUM :: u64 where "BPFHV_F_TX_CSUM = 0x2"
definition BPFHV_F_RX_CSUM :: u64 where "BPFHV_F_RX_CSUM = 0x4"
definition BPFHV_F_TSOv4 :: u64 where "BPFHV_F_TSOv4 = 0x8"
definition BPFHV_F_TCPv4_LRO :: u64 where "BPFHV_F_TCPv4_LRO = 0x10"
definition BPFHV_F_TSOv6 :: u64 where "BPFHV_F_TSOv6 = 0x20"
definition BPFHV_F_TCPv6_LRO :: u64 where "BPFHV_F_TCPv6_LRO = 0x40"
definition BPFHV_F_UFO :: u64 where "BPFHV_F_UFO = 0x80"
definition BPFHV_F_UDP_LRO :: u64 where "BPFHV_F_UDP_LRO = 0x100"
definition BPFHV_F_RX_OUT_OF_ORDER :: u64 where "BPFHV_F_RX_OUT_OF_ORDER = 0x200"
definition BPFHV_F_TX_OUT_OF_ORDER :: u64 where "BPFHV_F_TX_OUT_OF_ORDER = 0x400"

lemmas bpfhv_status_defs =
  BPFHV_STATUS_LINK_def BPFHV_STATUS_UPGRADE_def
  BPFHV_STATUS_RX_ENABLED_def BPFHV_STATUS_TX_ENABLED_def

lemmas bpfhv_feature_defs =
  BPFHV_F_SG_def BPFHV_F_TX_CSUM_def BPFHV_F_RX_CSUM_def BPFHV_F_TSOv4_def
  BPFHV_F_TCPv4_LRO_def BPFHV_F_TSOv6_def BPFHV_F_TCPv6_LRO_def BPFHV_F_UFO_def
  BPFHV_F_UDP_LRO_def BPFHV_F_RX_OUT_OF_ORDER_def BPFHV_F_TX_OUT_OF_ORDER_def

lemmas bpfhv_flag_defs =
  BPFHV_MAX_RX_BUFS_def BPFHV_MAX_TX_BUFS_def BPFHV_IFLAGS_INTR_NEEDED_def
  BPFHV_OFLAGS_KICK_NEEDED_def BPFHV_OFLAGS_RESCHED_NEEDED_def

section \<open>Buffers of a context\<close>

text \<open>The guest driver always hands over a context with the full buffer array;
  the valid prefix is what \<open>num_bufs\<close> says.\<close>

definition ctx_wf :: "bpfhv_context \<Rightarrow> bool" where
  "ctx_wf ctx \<longleftrightarrow> length (bufs ctx) = 64 \<and> unat (num_bufs ctx) \<le> 64"

definition ctx_bufs :: "bpfhv_context \<Rightarrow> bpfhv_buf list" where
  "ctx_bufs ctx = take (unat (num_bufs ctx)) (bufs ctx)"

text \<open>A context as the driver allocates it, zeroed.\<close>

definition zero_buf :: bpfhv_buf where
  "zero_buf = \<lparr>buf_cookie = 0, buf_paddr = 0, buf_vaddr = 0, buf_len = 0\<rparr>"

definition zero_ctx :: bpfhv_context where
  "zero_ctx = \<lparr>guest_priv = 0, packet = 0, num_bufs = 0, iflags = 0, oflags = 0,
     min_completed_bufs = 0, min_intr_nsecs = 0, bufs = replicate 64 zero_buf\<rparr>"

lemma zero_ctx_wf [simp]: "ctx_wf zero_ctx" "length (bufs zero_ctx) = 64"
  by (simp_all add: ctx_wf_def zero_ctx_def)

lemma length_ctx_bufs: "ctx_wf ctx \<Longrightarrow> length (ctx_bufs ctx) = unat (num_bufs ctx)"
  by (simp add: ctx_wf_def ctx_bufs_def)

end
