(* ===== verification/Ring.thy ===== *)
theory Ring
  imports Prelude
begin

text \<open>
  The split ring that the \<open>sring\<close> and \<open>sring_gso\<close> devices share.  Their transmit
  and receive contexts all have the members \<open>prod\<close> (written by the guest when it
  publishes), \<open>cons\<close> (written by the hypervisor when it completes), \<open>clear\<close>
  (private to the guest, the next entry to take back), \<open>kick_enabled\<close>, \<open>qmask\<close> and
  the array \<open>desc\<close>; only the interrupt field and the descriptor type differ.  The
  record \<open>ring\<close> holds the common members and each context extends it.

  The counters run freely over 32 bits.  The invariant orders them as
  \<open>clear \<le> cons \<le> prod \<le> clear + size\<close> by their distances, so that it survives
  their wrap-around, and the two queues of the abstraction are the slices between
  them: completed entries wait for the guest, pending ones for the hypervisor.
\<close>

section \<open>Contexts and their abstraction\<close>

record 'd ring =
  prod :: u32
  cons :: u32
  kick_enabled :: u32
  qmask :: u32
  clear :: u32
  desc :: "'d list"

text \<open>The two directions differ in how the guest asks for interrupts: by the index of
  the completion it wants to hear about, or by a flag.\<close>

record 'd tx_ring = "'d ring" +
  intr_at :: u32

record 'd rx_ring = "'d ring" +
  intr_enabled :: u32

definition ring_inv :: "nat \<Rightarrow> ('d, 'a) ring_scheme \<Rightarrow> bool" where
  "ring_inv k r \<longleftrightarrow> k < 32 \<and> length (desc r) = 2 ^ k \<and> qmask r = mask k \<and>
     dist (clear r) (cons r) \<le> dist (clear r) (prod r) \<and>
     dist (clear r) (prod r) \<le> 2 ^ k"

definition completed :: "('d, 'a) ring_scheme \<Rightarrow> 'd list" where
  "completed r = ring_slice (desc r) (qmask r) (clear r) (dist (clear r) (cons r))"

definition pending :: "('d, 'a) ring_scheme \<Rightarrow> 'd list" where
  "pending r = ring_slice (desc r) (qmask r) (cons r) (dist (cons r) (prod r))"

definition outstanding :: "('d, 'a) ring_scheme \<Rightarrow> 'd list" where
  "outstanding r = ring_slice (desc r) (qmask r) (clear r) (dist (clear r) (prod r))"

section \<open>Elementary accesses\<close>

definition slot :: "('d, 'a) ring_scheme \<Rightarrow> u32 \<Rightarrow> 'd" where
  "slot r i = desc r ! ring_idx (qmask r) i"

definition set_slot :: "u32 \<Rightarrow> 'd \<Rightarrow> ('d, 'a) ring_scheme \<Rightarrow> ('d, 'a) ring_scheme" where
  "set_slot i d r = r\<lparr>desc := (desc r)[ring_idx (qmask r) i := d]\<rparr>"

definition ring_push :: "'d \<Rightarrow> ('d, 'a) ring_scheme \<Rightarrow> ('d, 'a) ring_scheme" where
  "ring_push d r = (set_slot (prod r) d r)\<lparr>prod := prod r + 1\<rparr>"

definition ring_consume :: "nat \<Rightarrow> ('d, 'a) ring_scheme \<Rightarrow> ('d, 'a) ring_scheme" where
  "ring_consume n r = r\<lparr>cons := cons r + of_nat n\<rparr>"

definition ring_pop :: "('d, 'a) ring_scheme \<Rightarrow> ('d, 'a) ring_scheme" where
  "ring_pop r = r\<lparr>clear := clear r + 1\<rparr>"

section \<open>Sizes and splitting\<close>

lemma ring_inv_k: "ring_inv k r \<Longrightarrow> k \<le> LENGTH(32)"
  by (simp add: ring_inv_def)

lemma two_power_k_less: "ring_inv k r \<Longrightarrow> (2::nat) ^ k < 2 ^ LENGTH(32)"
  using power_strict_increasing [of k 32 "2::nat"] by (simp add: ring_inv_def)

lemma dist_cons_prod:
  "ring_inv k r \<Longrightarrow> dist (cons r) (prod r) = dist (clear r) (prod r) - dist (clear r) (cons r)"
  by (rule dist_trans) (simp add: ring_inv_def)

lemma length_completed [simp]: "length (completed r) = dist (clear r) (cons r)"
  by (simp add: completed_def)

lemma length_pending [simp]: "length (pending r) = dist (cons r) (prod r)"
  by (simp add: pending_def)

lemma length_outstanding [simp]: "length (outstanding r) = dist (clear r) (prod r)"
  by (simp add: outstanding_def)

text \<open>The outstanding entries are the completed ones followed by the pending ones.\<close>

lemma outstanding_split:
  assumes "ring_inv k r"
  shows "outstanding r = completed r @ pending r"
proof -
  have d: "dist (clear r) (prod r) = dist (clear r) (cons r) + dist (cons r) (prod r)"
    using assms dist_cons_prod [OF assms] by (simp add: ring_inv_def)
  show ?thesis
    by (simp add: outstanding_def completed_def pending_def d ring_slice_add)
qed

lemma completed_empty [simp]: "completed r = [] \<longleftrightarrow> clear r = cons r"
  by (simp add: completed_def ring_slice_def)

lemma pending_empty [simp]: "pending r = [] \<longleftrightarrow> cons r = prod r"
  by (simp add: pending_def ring_slice_def)

lemma completed_update [simp]:
  "completed (r\<lparr>kick_enabled := v\<rparr>) = completed r"
  by (simp add: completed_def)

lemma pending_update [simp]:
  "pending (r\<lparr>kick_enabled := v\<rparr>) = pending r"
  by (simp add: pending_def)

lemma ring_inv_kick [simp]: "ring_inv k (r\<lparr>kick_enabled := v\<rparr>) \<longleftrightarrow> ring_inv k r"
  by (simp add: ring_inv_def)

section \<open>Publication\<close>

lemma ring_push_fields [simp]:
  "prod (ring_push d r) = prod r + 1" "cons (ring_push d r) = cons r"
  "clear (ring_push d r) = clear r" "kick_enabled (ring_push d r) = kick_enabled r"
  "qmask (ring_push d r) = qmask r" "length (desc (ring_push d r)) = length (desc r)"
  "ring.more (ring_push d r) = ring.more r"
  by (simp_all add: ring_push_def set_slot_def)

lemma push_dist:
  assumes "ring_inv k r" "dist (clear r) (prod r) < 2 ^ k"
  shows "dist (clear r) (prod r + 1) = Suc (dist (clear r) (prod r))"
  using assms two_power_k_less [OF assms(1)] by (intro dist_suc_right) simp

lemma ring_push_inv [inv_intros]:
  assumes "ring_inv k r" "dist (clear r) (prod r) < 2 ^ k"
  shows "ring_inv k (ring_push d r)"
  using assms push_dist [OF assms] by (simp add: ring_inv_def)

lemma ring_push_outstanding:
  assumes "ring_inv k r" "dist (clear r) (prod r) < 2 ^ k"
  shows "outstanding (ring_push d r) = outstanding r @ [d]"
proof -
  have "outstanding (ring_push d r)
      = ring_slice ((desc r)[ring_idx (mask k) (clear r + of_nat (dist (clear r) (prod r))) := d])
          (mask k) (clear r) (Suc (dist (clear r) (prod r)))"
    using assms push_dist [OF assms]
    by (simp add: outstanding_def ring_push_def set_slot_def ring_inv_def)
  also have "\<dots> = ring_slice (desc r) (mask k) (clear r) (dist (clear r) (prod r)) @ [d]"
    using assms by (intro ring_slice_snoc_update) (auto simp: ring_inv_def)
  finally show ?thesis
    using assms by (simp add: outstanding_def ring_inv_def)
qed

lemma ring_push_queues:
  assumes "ring_inv k r" "dist (clear r) (prod r) < 2 ^ k"
  shows "completed (ring_push d r) = completed r"
    and "pending (ring_push d r) = pending r @ [d]"
proof -
  have "completed (ring_push d r) @ pending (ring_push d r) = completed r @ pending r @ [d]"
    using ring_push_outstanding [OF assms, of d] outstanding_split [OF assms(1)]
      outstanding_split [OF ring_push_inv [OF assms], of d]
    by simp
  then show "completed (ring_push d r) = completed r" "pending (ring_push d r) = pending r @ [d]"
    by (simp_all add: append_eq_append_conv)
qed

section \<open>Completion by the hypervisor\<close>

lemma consume_dist:
  assumes "ring_inv k r" "n \<le> dist (cons r) (prod r)"
  shows "dist (clear r) (cons r + of_nat n) = dist (clear r) (cons r) + n"
proof -
  have eq: "cons r + of_nat n = clear r + of_nat (dist (clear r) (cons r) + n)"
    by (simp add: add.assoc [symmetric])
  have "dist (clear r) (cons r) + n < 2 ^ LENGTH(32)"
    using assms dist_cons_prod [OF assms(1)] two_power_k_less [OF assms(1)]
    unfolding ring_inv_def by linarith
  then show ?thesis unfolding eq by (rule dist_of_nat)
qed

lemma ring_consume_inv [inv_intros]:
  assumes "ring_inv k r" "n \<le> dist (cons r) (prod r)"
  shows "ring_inv k (ring_consume n r)"
  using assms consume_dist [OF assms] dist_cons_prod [OF assms(1)]
  by (auto simp: ring_inv_def ring_consume_def)

lemma ring_consume_queues:
  assumes "ring_inv k r" "n \<le> dist (cons r) (prod r)"
  shows "completed (ring_consume n r) = completed r @ take n (pending r)"
    and "pending (ring_consume n r) = drop n (pending r)"
proof -
  let ?r = "ring_consume n r"
  have o: "completed ?r @ pending ?r = completed r @ pending r"
    using outstanding_split [OF assms(1)] outstanding_split [OF ring_consume_inv [OF assms]]
    by (simp add: outstanding_def ring_consume_def)
  have "length (completed ?r) = length (completed r) + n"
    using consume_dist [OF assms] by (simp add: ring_consume_def)
  then have "completed ?r = take (length (completed r) + n) (completed r @ pending r)"
    "pending ?r = drop (length (completed r) + n) (completed r @ pending r)"
    using o by (metis append_eq_conv_conj)+
  then show "completed ?r = completed r @ take n (pending r)" "pending ?r = drop n (pending r)"
    by simp_all
qed

section \<open>Taking entries back\<close>

lemma pop_dist:
  assumes "ring_inv k r" "clear r \<noteq> prod r"
  shows "dist (clear r + 1) (prod r) = dist (clear r) (prod r) - 1"
  using assms(2) by (rule dist_suc_left)

lemma ring_pop_inv [inv_intros]:
  assumes "ring_inv k r" "clear r \<noteq> cons r"
  shows "ring_inv k (ring_pop r)"
proof -
  have "0 < dist (clear r) (cons r)" using assms(2) by (rule dist_pos)
  then have "clear r \<noteq> prod r" using assms(1) by (auto simp: ring_inv_def)
  then show ?thesis
    using assms by (auto simp: ring_inv_def ring_pop_def dist_suc_left intro: diff_le_mono)
qed

lemma ring_pop_queues:
  assumes "ring_inv k r" "clear r \<noteq> cons r"
  shows "completed r = slot r (clear r) # completed (ring_pop r)"
    and "pending (ring_pop r) = pending r"
proof -
  obtain n where n: "dist (clear r) (cons r) = Suc n"
    using dist_pos [OF assms(2)] gr0_implies_Suc by blast
  then show "completed r = slot r (clear r) # completed (ring_pop r)"
    using assms by (simp add: completed_def ring_pop_def slot_def dist_suc_left ring_slice_Cons)
  show "pending (ring_pop r) = pending r"
    by (simp add: pending_def ring_pop_def)
qed

lemma outstanding_pop:
  assumes "clear r \<noteq> prod r"
  shows "outstanding r = slot r (clear r) # outstanding (ring_pop r)"
proof -
  obtain n where n: "dist (clear r) (prod r) = Suc n"
    using dist_pos [OF assms] gr0_implies_Suc by blast
  then show ?thesis
    using assms by (simp add: outstanding_def ring_pop_def slot_def dist_suc_left ring_slice_Cons)
qed

section \<open>Publishing several entries\<close>

lemma ring_push_fold:
  assumes "ring_inv k r" "dist (clear r) (prod r) + length ds \<le> 2 ^ k"
  shows "ring_inv k (fold ring_push ds r)"
    and "pending (fold ring_push ds r) = pending r @ ds"
    and "completed (fold ring_push ds r) = completed r"
    and "clear (fold ring_push ds r) = clear r \<and> cons (fold ring_push ds r) = cons r \<and>
      kick_enabled (fold ring_push ds r) = kick_enabled r \<and>
      ring.more (fold ring_push ds r) = ring.more r \<and>
      dist (clear r) (prod (fold ring_push ds r)) = dist (clear r) (prod r) + length ds"
  using assms
proof (induction ds arbitrary: r)
  case (Cons d ds)
  {
    case 1
    then show ?case
      using Cons.IH(1) [of "ring_push d r"] ring_push_inv [of k r d] push_dist [of k r] by simp
  next
    case 2
    then show ?case
      using Cons.IH(2) [of "ring_push d r"] ring_push_inv [of k r d] push_dist [of k r]
        ring_push_queues [of k r d] by simp
  next
    case 3
    then show ?case
      using Cons.IH(3) [of "ring_push d r"] ring_push_inv [of k r d] push_dist [of k r]
        ring_push_queues [of k r d] by simp
  next
    case 4
    then show ?case
      using Cons.IH(4) [of "ring_push d r"] ring_push_inv [of k r d] push_dist [of k r] by simp
  }
qed simp_all

section \<open>Reclaiming\<close>

text \<open>Moving \<open>clear\<close> over \<open>n\<close> outstanding entries keeps the invariant when \<open>cons\<close> is
  dragged along as soon as it has been overtaken.\<close>

lemma dist_plus_left:
  fixes a b :: "'a::len word"
  assumes "n \<le> dist a b"
  shows "dist (a + of_nat n) b = dist a b - n"
proof -
  have "n < 2 ^ LENGTH('a)" using assms dist_bound [of a b] by linarith
  then have d: "dist a (a + of_nat n) = n" by (rule dist_of_nat)
  then show ?thesis using dist_trans [of a "a + of_nat n" b] assms by simp
qed

lemma ring_reclaim_inv:
  assumes "ring_inv k r" "n \<le> dist (clear r) (prod r)"
  shows "ring_inv k (r\<lparr>clear := clear r + of_nat n,
      cons := (if dist (clear r) (cons r) < n then clear r + of_nat n else cons r)\<rparr>)"
  using assms dist_plus_left [OF assms(2)] dist_plus_left [of n "clear r" "cons r"]
  by (auto simp: ring_inv_def)

end
