(* ===== verification/Sring.thy ===== *)
theory Sring
  imports Ring Bpfhv_Types Mark
begin

text \<open>
  The guest side of the \<open>sring\<close> device: the context layouts of \<open>proxy/sring.h\<close>, the
  initialisation in \<open>proxy/sring.c\<close> and the ten eBPF programs of
  \<open>proxy/sring_progs.c\<close>.

  A program takes the context and the private part behind it and returns its C
  result with both updated.  The values of the helper calls are arguments: the
  packet bytes behind \<open>pkt_data\<close> and the number \<open>pkt_size\<close> returns, and the
  function \<open>rx_pkt_alloc\<close>.  The interrupt programs load \<open>cons\<close> twice; what the
  hypervisor does between the two loads is the argument \<open>hv\<close>.
\<close>

section \<open>Contexts\<close>

record sring_tx_desc =
  txd_cookie :: u64
  txd_paddr :: u64
  txd_len :: u32
  txd_mark :: u32

type_synonym sring_tx_context = "sring_tx_desc tx_ring"

record sring_rx_desc =
  rxd_cookie :: u64
  rxd_paddr :: u64
  rxd_len :: u32

type_synonym sring_rx_context = "sring_rx_desc rx_ring"

text \<open>The private parts are 512 bytes each (four cache lines of 128 bytes) and a
  descriptor takes 24.\<close>

definition sizeof_sring_context :: nat where "sizeof_sring_context = 4 * 128"
definition sizeof_sring_desc :: nat where "sizeof_sring_desc = 24"

definition sring_rx_ctx_size :: "nat \<Rightarrow> nat" where
  "sring_rx_ctx_size num_rx_bufs =
     sizeof_bpfhv_context + sizeof_sring_context + num_rx_bufs * sizeof_sring_desc"

definition sring_tx_ctx_size :: "nat \<Rightarrow> nat" where
  "sring_tx_ctx_size num_tx_bufs =
     sizeof_bpfhv_context + sizeof_sring_context + num_tx_bufs * sizeof_sring_desc"

text \<open>The assertion that the number of buffers is a power of two (or zero) fails
  with \<open>None\<close>.  The count is a \<open>size_t\<close> and the mask 32 bits wide.\<close>

definition pow2_check :: "u64 \<Rightarrow> bool" where
  "pow2_check n \<longleftrightarrow> n AND (n - 1) = 0"

definition sring_rx_ctx_init :: "u64 \<Rightarrow> sring_rx_context option" where
  "sring_rx_ctx_init num_rx_bufs =
    (if pow2_check num_rx_bufs then
       Some \<lparr>prod = 0, cons = 0, kick_enabled = 1, qmask = ucast (num_rx_bufs - 1), clear = 0,
         desc = replicate (unat num_rx_bufs) \<lparr>rxd_cookie = 0, rxd_paddr = 0, rxd_len = 0\<rparr>,
         intr_enabled = 1\<rparr>
     else None)"

definition sring_tx_ctx_init :: "u64 \<Rightarrow> sring_tx_context option" where
  "sring_tx_ctx_init num_tx_bufs =
    (if pow2_check num_tx_bufs then
       Some \<lparr>prod = 0, cons = 0, kick_enabled = 1, qmask = ucast (num_tx_bufs - 1), clear = 0,
         desc = replicate (unat num_tx_bufs)
           \<lparr>txd_cookie = 0, txd_paddr = 0, txd_len = 0, txd_mark = 0\<rparr>,
         intr_at = 0\<rparr>
     else None)"

section \<open>Transmit programs\<close>

definition clear_met_cons :: "u32 \<Rightarrow> u32 \<Rightarrow> u32 \<Rightarrow> bool" where
  "clear_met_cons old_clear cons' new_clear \<longleftrightarrow> new_clear - cons' - 1 < new_clear - old_clear"

definition sring_mark_packet :: "u8 list \<Rightarrow> u32 \<Rightarrow> u32 option" where
  "sring_mark_packet pkt_data pkt_size = mark_packet_fun pkt_data pkt_size"

definition kick_oflags :: "('d, 'a) ring_scheme \<Rightarrow> u32" where
  "kick_oflags priv = (if kick_enabled priv \<noteq> 0 then BPFHV_OFLAGS_KICK_NEEDED else 0)"

definition sring_txp ::
  "u8 list \<Rightarrow> u32 \<Rightarrow> bpfhv_tx_context \<Rightarrow> sring_tx_context
    \<Rightarrow> (int \<times> bpfhv_tx_context \<times> sring_tx_context) option" where
  "sring_txp pkt_data pkt_size ctx priv =
    (if num_bufs ctx \<noteq> 1 then Some (-1, ctx, priv)
     else do {
       mark \<leftarrow> sring_mark_packet pkt_data pkt_size;
       let txb = bufs ctx ! 0;
       let txd = \<lparr>txd_cookie = buf_cookie txb, txd_paddr = buf_paddr txb,
                  txd_len = buf_len txb, txd_mark = mark\<rparr>;
       let priv = ring_push txd priv;
       let ctx = ctx\<lparr>oflags := kick_oflags priv\<rparr>;
       Some (0, ctx, priv) })"

definition tx_buf_of :: "sring_tx_desc \<Rightarrow> bpfhv_buf \<Rightarrow> bpfhv_buf" where
  "tx_buf_of txd txb =
     txb\<lparr>buf_paddr := txd_paddr txd, buf_len := txd_len txd, buf_cookie := txd_cookie txd\<rparr>"

definition sring_tx_get_one ::
  "bpfhv_tx_context \<Rightarrow> sring_tx_context \<Rightarrow> bpfhv_tx_context \<times> sring_tx_context" where
  "sring_tx_get_one ctx priv =
    (let txd = slot priv (clear priv);
         ctx = ctx\<lparr>bufs := (bufs ctx)[0 := tx_buf_of txd (bufs ctx ! 0)], num_bufs := 1\<rparr>
     in (ctx, ring_pop priv))"

definition sring_txc ::
  "bpfhv_tx_context \<Rightarrow> sring_tx_context \<Rightarrow> int \<times> bpfhv_tx_context \<times> sring_tx_context" where
  "sring_txc ctx priv =
    (if clear priv = cons priv then (0, ctx, priv)
     else let (ctx, priv) = sring_tx_get_one ctx priv
       in (1, ctx\<lparr>oflags := 0\<rparr>, priv))"

definition sring_txr ::
  "bpfhv_tx_context \<Rightarrow> sring_tx_context \<Rightarrow> int \<times> bpfhv_tx_context \<times> sring_tx_context" where
  "sring_txr ctx priv =
    (let cons_met = (clear priv = cons priv) in
     if clear priv = prod priv then (0, ctx, priv)
     else let (ctx, priv) = sring_tx_get_one ctx priv;
              priv = (if cons_met then priv\<lparr>cons := clear priv\<rparr> else priv)
       in (1, ctx\<lparr>oflags := 0\<rparr>, priv))"

definition sring_txi ::
  "('d tx_ring \<Rightarrow> 'd tx_ring) \<Rightarrow> bpfhv_tx_context \<Rightarrow> 'd tx_ring \<Rightarrow> int \<times> 'd tx_ring" where
  "sring_txi hv ctx priv =
    (if min_completed_bufs ctx = 0 then (0, priv)
     else
       let cons0 = cons priv;
           ncompl = cons0 - clear priv in
       if ncompl \<ge> min_completed_bufs ctx then (1, priv)
       else
         let priv = hv (priv\<lparr>intr_at := clear priv + min_completed_bufs ctx - 1\<rparr>);
             ncompl = ncompl + (cons priv - cons0) in
         if ncompl \<ge> min_completed_bufs ctx then (1, priv) else (0, priv))"

section \<open>Receive programs\<close>

definition rx_desc_of :: "bpfhv_buf \<Rightarrow> sring_rx_desc" where
  "rx_desc_of rxb =
     \<lparr>rxd_cookie = buf_cookie rxb, rxd_paddr = buf_paddr rxb, rxd_len = buf_len rxb\<rparr>"

text \<open>The loop of \<open>sring_rxp\<close> writes one descriptor per buffer; the new \<open>prod\<close> is
  stored once at the end, which the sequential model does not distinguish.\<close>

definition sring_rxp ::
  "bpfhv_rx_context \<Rightarrow> sring_rx_context \<Rightarrow> int \<times> bpfhv_rx_context \<times> sring_rx_context" where
  "sring_rxp ctx priv =
    (if num_bufs ctx > BPFHV_MAX_RX_BUFS then (-1, ctx, priv)
     else
       let priv = fold (\<lambda>rxb priv. ring_push (rx_desc_of rxb) priv) (ctx_bufs ctx) priv;
           ctx = ctx\<lparr>oflags := kick_oflags priv\<rparr>
       in (0, ctx, priv))"

definition rx_buf_of :: "sring_rx_desc \<Rightarrow> bpfhv_buf \<Rightarrow> bpfhv_buf" where
  "rx_buf_of rxd rxb =
     rxb\<lparr>buf_cookie := rxd_cookie rxd, buf_paddr := rxd_paddr rxd, buf_len := rxd_len rxd\<rparr>"

definition sring_rxc ::
  "(bpfhv_rx_context \<Rightarrow> int \<times> bpfhv_rx_context) \<Rightarrow> bpfhv_rx_context \<Rightarrow> sring_rx_context
    \<Rightarrow> int \<times> bpfhv_rx_context \<times> sring_rx_context" where
  "sring_rxc rx_pkt_alloc ctx priv =
    (if clear priv = cons priv then (0, ctx, priv)
     else
       let rxd = slot priv (clear priv);
           ctx = ctx\<lparr>bufs := (bufs ctx)[0 := rx_buf_of rxd (bufs ctx ! 0)]\<rparr>;
           priv = ring_pop priv;
           ctx = ctx\<lparr>num_bufs := 1\<rparr>;
           (ret, ctx) = rx_pkt_alloc ctx
       in if ret < 0 then (ret, ctx, priv)
          else (1, ctx\<lparr>oflags := 0\<rparr>, priv))"

text \<open>The loop of \<open>sring_rxr\<close> with the local copy of \<open>clear\<close>.\<close>

fun sring_rxr_loop ::
  "nat \<Rightarrow> sring_rx_context \<Rightarrow> u32 \<Rightarrow> nat \<Rightarrow> bpfhv_buf list \<Rightarrow> u32 \<times> nat \<times> bpfhv_buf list" where
  "sring_rxr_loop 0 priv clr i bs = (clr, i, bs)"
| "sring_rxr_loop (Suc n) priv clr i bs =
    (if clr \<noteq> prod priv
     then sring_rxr_loop n priv (clr + 1) (i + 1) (bs[i := rx_buf_of (slot priv clr) (bs ! i)])
     else (clr, i, bs))"

definition sring_rxr ::
  "bpfhv_rx_context \<Rightarrow> sring_rx_context \<Rightarrow> int \<times> bpfhv_rx_context \<times> sring_rx_context" where
  "sring_rxr ctx priv =
    (if clear priv = prod priv then (0, ctx, priv)
     else
       let (clr, i, bs) =
             sring_rxr_loop (unat BPFHV_MAX_RX_BUFS) priv (clear priv) 0 (bufs ctx);
           priv = (if clear_met_cons clr (cons priv) (clear priv)
                   then priv\<lparr>cons := clr\<rparr> else priv);
           priv = priv\<lparr>clear := clr\<rparr>;
           ctx = ctx\<lparr>bufs := bs, num_bufs := of_nat i, oflags := 0\<rparr>
       in (1, ctx, priv))"

definition sring_rxi ::
  "('d rx_ring \<Rightarrow> 'd rx_ring) \<Rightarrow> bpfhv_rx_context \<Rightarrow> 'd rx_ring \<Rightarrow> int \<times> 'd rx_ring" where
  "sring_rxi hv ctx priv =
    (let cons0 = cons priv;
         ncompl = cons0 - clear priv in
     if ncompl \<ge> min_completed_bufs ctx then (1, priv\<lparr>intr_enabled := 0\<rparr>)
     else
       let priv = hv (priv\<lparr>intr_enabled := 1\<rparr>);
           ncompl = ncompl + (cons priv - cons0) in
       if ncompl \<ge> min_completed_bufs ctx then (1, priv\<lparr>intr_enabled := 0\<rparr>)
       else (0, priv))"

section \<open>Initial contexts\<close>

lemma pow2_check_power: "pow2_check (2 ^ k)"
  unfolding pow2_check_def mask_eq_exp_minus_1 [symmetric]
  by (rule bit_word_eqI) (auto simp: bit_simps)

text \<open>Ring sizes as the control plane admits them: powers of two below \<open>2 ^ 32\<close>.\<close>

lemma ucast_pred_mask: "k < 32 \<Longrightarrow> (ucast (2 ^ k - 1 :: u64) :: u32) = mask k"
  by (rule bit_word_eqI)
    (auto simp: bit_simps mask_eq_exp_minus_1 [symmetric])

lemma unat_power_u64: "k < 64 \<Longrightarrow> unat (2 ^ k :: u64) = 2 ^ k"
  using unat_of_nat [of "2 ^ k", where 'a = 64] power_strict_increasing [of k 64 "2::nat"]
  by simp

lemma sring_tx_ctx_init_inv:
  assumes "k < 32"
  obtains priv where "sring_tx_ctx_init (2 ^ k) = Some priv" "ring_inv k priv"
    "completed priv = []" "pending priv = []" "kick_enabled priv = 1" "clear priv = prod priv"
  using assms pow2_check_power [of k] ucast_pred_mask [OF assms] unat_power_u64 [of k]
  by (auto simp: sring_tx_ctx_init_def ring_inv_def)

lemma sring_rx_ctx_init_inv:
  assumes "k < 32"
  obtains priv where "sring_rx_ctx_init (2 ^ k) = Some priv" "ring_inv k priv"
    "completed priv = []" "pending priv = []" "kick_enabled priv = 1" "clear priv = prod priv"
  using assms pow2_check_power [of k] ucast_pred_mask [OF assms] unat_power_u64 [of k]
  by (auto simp: sring_rx_ctx_init_def ring_inv_def)

section \<open>Transmit programs on the abstract queues\<close>

definition txd_key :: "sring_tx_desc \<Rightarrow> u64 \<times> u64 \<times> u32" where
  "txd_key d = (txd_cookie d, txd_paddr d, txd_len d)"

definition buf_key :: "bpfhv_buf \<Rightarrow> u64 \<times> u64 \<times> u32" where
  "buf_key b = (buf_cookie b, buf_paddr b, buf_len b)"

lemma kick_oflags_push [simp]: "kick_oflags (ring_push d r) = kick_oflags r"
  by (simp add: kick_oflags_def)

lemma sring_txp_ok:
  assumes "num_bufs ctx = 1" "sring_mark_packet pkt n = Some m"
  shows "sring_txp pkt n ctx priv =
    Some (0, ctx\<lparr>oflags := kick_oflags priv\<rparr>,
      ring_push \<lparr>txd_cookie = buf_cookie (bufs ctx ! 0), txd_paddr = buf_paddr (bufs ctx ! 0),
        txd_len = buf_len (bufs ctx ! 0), txd_mark = m\<rparr> priv)"
  using assms by (simp add: sring_txp_def Let_def)

lemma sring_tx_get_one_simp:
  "sring_tx_get_one ctx priv =
    (ctx\<lparr>bufs := (bufs ctx)[0 := tx_buf_of (slot priv (clear priv)) (bufs ctx ! 0)], num_bufs := 1\<rparr>,
     ring_pop priv)"
  by (simp add: sring_tx_get_one_def Let_def)

lemma buf_key_tx_buf_of [simp]: "buf_key (tx_buf_of d b) = txd_key d"
  by (simp add: buf_key_def tx_buf_of_def txd_key_def)

text \<open>Completion takes back the oldest completed entry.\<close>

lemma sring_txc_empty: "completed priv = [] \<Longrightarrow> sring_txc ctx priv = (0, ctx, priv)"
  by (simp add: sring_txc_def)

lemma sring_txc_step:
  assumes "ring_inv k priv" "completed priv = d # ds" "0 < length (bufs ctx)"
    and "sring_txc ctx priv = (ret, ctx', priv')"
  shows "ret = 1" "ring_inv k priv'" "completed priv' = ds" "pending priv' = pending priv"
    "num_bufs ctx' = 1" "oflags ctx' = 0" "buf_key (bufs ctx' ! 0) = txd_key d"
    "prod priv' = prod priv" "dist (clear priv) (prod priv) = Suc (dist (clear priv') (prod priv'))"
proof -
  have ne: "clear priv \<noteq> cons priv" using assms(2) completed_empty [of priv] by auto
  have np: "clear priv \<noteq> prod priv" using ne assms(1) by (auto simp: ring_inv_def)
  have q: "slot priv (clear priv) = d" "completed (ring_pop priv) = ds"
    using ring_pop_queues(1) [OF assms(1) ne] assms(2) by simp_all
  have r: "priv' = ring_pop priv" "ret = 1"
    "ctx' = ctx\<lparr>bufs := (bufs ctx)[0 := tx_buf_of d (bufs ctx ! 0)], num_bufs := 1, oflags := 0\<rparr>"
    using assms(4) ne q by (auto simp: sring_txc_def sring_tx_get_one_simp)
  show "ret = 1" "ring_inv k priv'" "completed priv' = ds" "pending priv' = pending priv"
    "num_bufs ctx' = 1" "oflags ctx' = 0" "buf_key (bufs ctx' ! 0) = txd_key d"
    using r q ring_pop_inv [OF assms(1) ne] ring_pop_queues(2) [OF assms(1) ne] assms(3)
    by simp_all
  show "prod priv' = prod priv" using r by (simp add: ring_pop_def)
  show "dist (clear priv) (prod priv) = Suc (dist (clear priv') (prod priv'))"
    using r dist_suc_left [OF np] dist_pos [OF np] by (simp add: ring_pop_def)
qed

lemma sring_txr_step:
  assumes "ring_inv k priv" "clear priv \<noteq> prod priv" "0 < length (bufs ctx)"
    and "sring_txr ctx priv = (ret, ctx', priv')"
  shows "ret = 1" "ring_inv k priv'" "clear priv' = clear priv + 1" "prod priv' = prod priv"
    "buf_key (bufs ctx' ! 0) = txd_key (hd (outstanding priv))" "num_bufs ctx' = 1"
    "outstanding priv' = tl (outstanding priv)"
proof -
  let ?cons = "if clear priv = cons priv then clear priv + 1 else cons priv"
  have r: "ret = 1" "priv' = priv\<lparr>clear := clear priv + of_nat 1, cons := ?cons\<rparr>"
    "ctx' = ctx\<lparr>bufs := (bufs ctx)[0 := tx_buf_of (slot priv (clear priv)) (bufs ctx ! 0)],
       num_bufs := 1, oflags := 0\<rparr>"
    using assms(2,4)
    by (auto simp: sring_txr_def sring_tx_get_one_simp ring_pop_def Let_def split: if_splits)
  have "dist (clear priv) (cons priv) < 1 \<longleftrightarrow> clear priv = cons priv" by simp
  then have "ring_inv k priv'"
    using r(2) ring_reclaim_inv [OF assms(1), of 1] dist_pos [OF assms(2)]
    by (cases "clear priv = cons priv") (simp_all add: Suc_leI)
  then show "ret = 1" "ring_inv k priv'" "clear priv' = clear priv + 1" "prod priv' = prod priv"
    using r by simp_all
  show "buf_key (bufs ctx' ! 0) = txd_key (hd (outstanding priv))" "num_bufs ctx' = 1"
    using r assms(3) outstanding_pop [OF assms(2)] by simp_all
  show "outstanding priv' = tl (outstanding priv)"
    using r outstanding_pop [OF assms(2)] by (simp add: outstanding_def ring_pop_def)
qed

section \<open>Receive programs on the abstract queues\<close>

definition rxd_key :: "sring_rx_desc \<Rightarrow> u64 \<times> u64" where
  "rxd_key d = (rxd_cookie d, rxd_paddr d)"

definition rxbuf_key :: "bpfhv_buf \<Rightarrow> u64 \<times> u64" where
  "rxbuf_key b = (buf_cookie b, buf_paddr b)"

lemma rxbuf_key_rx_buf_of [simp]: "rxbuf_key (rx_buf_of d b) = rxd_key d"
  by (simp add: rxbuf_key_def rx_buf_of_def rxd_key_def)

lemma rxd_key_rx_desc_of [simp]: "rxd_key (rx_desc_of b) = rxbuf_key b"
  by (simp add: rxbuf_key_def rx_desc_of_def rxd_key_def)

lemma sring_rxp_ok:
  assumes "ring_inv k priv" "ctx_wf ctx"
    and "dist (clear priv) (prod priv) + unat (num_bufs ctx) \<le> 2 ^ k"
    and "sring_rxp ctx priv = (ret, ctx', priv')"
  shows "ret = 0" "ring_inv k priv'" "completed priv' = completed priv"
    "pending priv' = pending priv @ map rx_desc_of (ctx_bufs ctx)"
    "oflags ctx' = kick_oflags priv"
    "dist (clear priv') (prod priv') = dist (clear priv) (prod priv) + unat (num_bufs ctx)"
proof -
  let ?ds = "map rx_desc_of (ctx_bufs ctx)"
  have n: "\<not> num_bufs ctx > BPFHV_MAX_RX_BUFS"
    using assms(2) by (simp add: ctx_wf_def BPFHV_MAX_RX_BUFS_def word_less_nat_alt)
  have r: "ret = 0" "priv' = fold ring_push ?ds priv" "ctx' = ctx\<lparr>oflags := kick_oflags priv'\<rparr>"
    using assms(4) n by (auto simp: sring_rxp_def Let_def fold_map comp_def)
  have len: "dist (clear priv) (prod priv) + length ?ds \<le> 2 ^ k"
    using assms(3) length_ctx_bufs [OF assms(2)] by simp
  note push = ring_push_fold [OF assms(1) len]
  show "ret = 0" "ring_inv k priv'" "completed priv' = completed priv"
    "pending priv' = pending priv @ ?ds"
    using r push by simp_all
  show "oflags ctx' = kick_oflags priv"
    "dist (clear priv') (prod priv') = dist (clear priv) (prod priv) + unat (num_bufs ctx)"
    using r push length_ctx_bufs [OF assms(2)] by (simp_all add: kick_oflags_def)
qed

lemma sring_rxc_step:
  assumes "ring_inv k priv" "completed priv = d # ds" "0 < length (bufs ctx)"
    and "sring_rxc alloc ctx priv = (ret, ctx', priv')"
  shows "ring_inv k priv'" "completed priv' = ds" "pending priv' = pending priv"
    "ret = 1 \<or> ret < 0"
    "dist (clear priv) (prod priv) = Suc (dist (clear priv') (prod priv'))"
    "\<exists>ctx1. (ret < 0 \<longrightarrow> alloc ctx1 = (ret, ctx')) \<and> num_bufs ctx1 = 1 \<and>
      bufs ctx1 = (bufs ctx)[0 := rx_buf_of d (bufs ctx ! 0)]"
proof -
  have ne: "clear priv \<noteq> cons priv" using assms(2) completed_empty [of priv] by auto
  have np: "clear priv \<noteq> prod priv" using ne assms(1) by (auto simp: ring_inv_def)
  have q: "slot priv (clear priv) = d" "completed (ring_pop priv) = ds"
    using ring_pop_queues(1) [OF assms(1) ne] assms(2) by simp_all
  let ?ctx1 = "ctx\<lparr>bufs := (bufs ctx)[0 := rx_buf_of d (bufs ctx ! 0)], num_bufs := 1\<rparr>"
  have r: "priv' = ring_pop priv" "ret = 1 \<or> ret < 0" "ret < 0 \<longrightarrow> alloc ?ctx1 = (ret, ctx')"
    using assms(4) ne q
    by (auto simp: sring_rxc_def Let_def split: prod.splits if_splits)
  show "ring_inv k priv'" "completed priv' = ds" "pending priv' = pending priv"
    "ret = 1 \<or> ret < 0"
    using r q ring_pop_inv [OF assms(1) ne] ring_pop_queues(2) [OF assms(1) ne] by simp_all
  show "dist (clear priv) (prod priv) = Suc (dist (clear priv') (prod priv'))"
    using r dist_suc_left [OF np] dist_pos [OF np] by (simp add: ring_pop_def)
  show "\<exists>ctx1. (ret < 0 \<longrightarrow> alloc ctx1 = (ret, ctx')) \<and> num_bufs ctx1 = 1 \<and>
      bufs ctx1 = (bufs ctx)[0 := rx_buf_of d (bufs ctx ! 0)]"
    using r by (intro exI [of _ ?ctx1]) simp
qed

text \<open>\<open>clear_met_cons\<close> decides whether \<open>cons\<close> has been overtaken when it is given the
  old and the new position in this order; with the two swapped it decides the
  opposite.\<close>

lemma clear_met_cons_iff:
  "clear_met_cons old c new \<longleftrightarrow> dist old c < dist old new"
  unfolding clear_met_cons_def by (rule event_crossed_iff)

lemma clear_met_cons_swapped:
  fixes old :: u32
  assumes "0 < n" "n < 2 ^ 32"
  shows "clear_met_cons (old + of_nat n) c old \<longleftrightarrow> n \<le> dist old c"
proof -
  let ?new = "old + of_nat n"
  have dn: "dist old ?new = n" using assms by (intro dist_of_nat) simp
  have ne: "old \<noteq> ?new" using assms dn by (metis dist_eq_0 less_irrefl)
  have wrap: "dist ?new old = 2 ^ 32 - n" using dist_swap [OF ne] dn by simp
  show ?thesis
  proof (cases "n \<le> dist old c")
    case True
    then have "dist ?new c = dist old c - n" using dist_trans [of old ?new c] dn by simp
    then show ?thesis
      using True wrap dist_bound [of old c] by (simp add: clear_met_cons_iff)
  next
    case False
    then have "dist c ?new = n - dist old c" using dist_trans [of old c ?new] dn by simp
    moreover from this have "c \<noteq> ?new" using False by (metis dist_eq_0 diff_is_0_eq)
    ultimately have "dist ?new c = 2 ^ 32 - (n - dist old c)" using dist_swap [of c ?new] by simp
    then show ?thesis using False wrap assms by (simp add: clear_met_cons_iff)
  qed
qed

lemma sring_rxr_loop_spec:
  assumes "m = min n (dist clr (prod priv))" "i + m \<le> length bs"
    and "sring_rxr_loop n priv clr i bs = (clr', i', bs')"
  shows "clr' = clr + of_nat m \<and> i' = i + m \<and> length bs' = length bs \<and>
    take i bs' = take i bs \<and>
    map rxbuf_key (take m (drop i bs'))
      = map rxd_key (ring_slice (desc priv) (qmask priv) clr m)"
  using assms
proof (induction n arbitrary: clr i bs m)
  case 0
  then show ?case by simp
next
  case (Suc n)
  show ?case
  proof (cases "clr = prod priv")
    case True
    then show ?thesis using Suc.prems by simp
  next
    case False
    define m' where "m' = min n (dist (clr + 1) (prod priv))"
    have m: "m = Suc m'"
      using Suc.prems(1) dist_suc_left [OF False] dist_pos [OF False] by (simp add: m'_def)
    define bs1 where "bs1 = bs[i := rx_buf_of (slot priv clr) (bs ! i)]"
    have il: "i < length bs" using Suc.prems(2) m by simp
    have IH: "clr' = clr + 1 + of_nat m' \<and> i' = i + 1 + m' \<and> length bs' = length bs1 \<and>
        take (i + 1) bs' = take (i + 1) bs1 \<and>
        map rxbuf_key (take m' (drop (i + 1) bs'))
          = map rxd_key (ring_slice (desc priv) (qmask priv) (clr + 1) m')"
      using Suc.prems False m il by (intro Suc.IH) (simp_all add: m'_def bs1_def)
    have hd: "bs' ! i = rx_buf_of (slot priv clr) (bs ! i)"
      using IH il by (metis bs1_def less_add_one nth_list_update_eq nth_take)
    have "take i bs' = take i (take (i + 1) bs')" by (simp add: min_def)
    also have "\<dots> = take i bs" using IH by (simp add: bs1_def min_def)
    finally have tk: "take i bs' = take i bs" .
    have len': "length bs' = length bs" using IH by (simp add: bs1_def)
    have "drop i bs' = bs' ! i # drop (i + 1) bs'"
      using il len' Cons_nth_drop_Suc [of i bs'] by simp
    then show ?thesis
      using IH hd m tk len' by (simp add: ring_slice_Cons slot_def add.assoc)
  qed
qed

text \<open>What reclaiming returns and what it does to the counters.\<close>

lemma sring_rxr_step:
  assumes "ring_inv k priv" "clear priv \<noteq> prod priv" "length (bufs ctx) = 64"
    and "n = min 64 (dist (clear priv) (prod priv))"
    and "sring_rxr ctx priv = (ret, ctx', priv')"
  shows "ret = 1 \<and> clear priv' = clear priv + of_nat n \<and> prod priv' = prod priv \<and>
    map rxbuf_key (ctx_bufs ctx') = map rxd_key (take n (outstanding priv)) \<and>
    cons priv' = (if n \<le> dist (clear priv) (cons priv) then clear priv + of_nat n
                  else cons priv)"
proof -
  obtain clr i bs where loop: "sring_rxr_loop 64 priv (clear priv) 0 (bufs ctx) = (clr, i, bs)"
    by (metis prod_cases3)
  have sp: "clr = clear priv + of_nat n" "i = n"
    "map rxbuf_key (take n bs) = map rxd_key (ring_slice (desc priv) (qmask priv) (clear priv) n)"
    using sring_rxr_loop_spec [OF assms(4) _ loop] assms(3,4) by simp_all
  have n: "0 < n" "n \<le> 64" "n \<le> dist (clear priv) (prod priv)"
    using assms(4) dist_pos [OF assms(2)] by simp_all
  have met: "clear_met_cons clr (cons priv) (clear priv) \<longleftrightarrow> n \<le> dist (clear priv) (cons priv)"
    unfolding sp(1) using n by (intro clear_met_cons_swapped) simp_all
  have out: "ring_slice (desc priv) (qmask priv) (clear priv) n = take n (outstanding priv)"
    using n(3) ring_slice_add [of "desc priv" "qmask priv" "clear priv" n
        "dist (clear priv) (prod priv) - n"]
    by (simp add: outstanding_def)
  show ?thesis
    using assms(2,5) loop sp met n out
    by (auto simp: sring_rxr_def Let_def BPFHV_MAX_RX_BUFS_def ctx_bufs_def unat_of_nat
        split: if_splits)
qed

end
