(* ===== verification/Handoff.thy ===== *)
theory Handoff
  imports Main
begin

text \<open>
  The contract between the guest driver and a queue implementation: buffers are
  published, the hypervisor completes a prefix of what is pending, and the guest
  takes completed buffers back one at a time.  The locale states what each of the
  three operations does to the two abstract queues; its lemma says that over any
  interleaving of whole operations buffers come back exactly once and in order.
  Every ring device interprets it with its own operations.
\<close>

section \<open>Runs\<close>

text \<open>A run from \<open>s0\<close>: the state reached, the inputs published so far and the
  outputs of the completions so far.\<close>

inductive handoff_run ::
  "('s \<Rightarrow> bool) \<Rightarrow> ('i \<Rightarrow> bool) \<Rightarrow> ('i \<Rightarrow> 's \<Rightarrow> 's) \<Rightarrow> ('s \<Rightarrow> 's \<Rightarrow> bool) \<Rightarrow> ('s \<Rightarrow> bool)
    \<Rightarrow> ('s \<Rightarrow> 'o \<times> 's) \<Rightarrow> 's \<Rightarrow> 's \<Rightarrow> 'i list \<Rightarrow> 'o list \<Rightarrow> bool"
  for can_publish okin publish hv can_reap reap s0
where
  run_init: "handoff_run can_publish okin publish hv can_reap reap s0 s0 [] []"
| run_publish: "handoff_run can_publish okin publish hv can_reap reap s0 s ins outs \<Longrightarrow>
    can_publish s \<Longrightarrow> okin i \<Longrightarrow>
    handoff_run can_publish okin publish hv can_reap reap s0 (publish i s) (ins @ [i]) outs"
| run_hv: "handoff_run can_publish okin publish hv can_reap reap s0 s ins outs \<Longrightarrow> hv s s' \<Longrightarrow>
    handoff_run can_publish okin publish hv can_reap reap s0 s' ins outs"
| run_reap: "handoff_run can_publish okin publish hv can_reap reap s0 s ins outs \<Longrightarrow>
    can_reap s \<Longrightarrow> reap s = (out, s') \<Longrightarrow>
    handoff_run can_publish okin publish hv can_reap reap s0 s' ins (outs @ [out])"

section \<open>The contract\<close>

locale handoff =
  fixes inv :: "'s \<Rightarrow> bool"
    and pend :: "'s \<Rightarrow> 'k list"
    and compl :: "'s \<Rightarrow> 'k list"
    and room :: "'s \<Rightarrow> nat"
    and okin :: "'i \<Rightarrow> bool"
    and key_in :: "'i \<Rightarrow> 'k"
    and publish :: "'i \<Rightarrow> 's \<Rightarrow> 's"
    and hv :: "'s \<Rightarrow> 's \<Rightarrow> bool"
    and reap :: "'s \<Rightarrow> 'o \<times> 's"
    and key_out :: "'o \<Rightarrow> 'k"
  assumes publish_inv: "inv s \<Longrightarrow> 0 < room s \<Longrightarrow> okin i \<Longrightarrow> inv (publish i s)"
    and publish_pend: "inv s \<Longrightarrow> 0 < room s \<Longrightarrow> okin i \<Longrightarrow> pend (publish i s) = pend s @ [key_in i]"
    and publish_compl: "inv s \<Longrightarrow> 0 < room s \<Longrightarrow> okin i \<Longrightarrow> compl (publish i s) = compl s"
    and publish_room: "inv s \<Longrightarrow> 0 < room s \<Longrightarrow> okin i \<Longrightarrow> Suc (room (publish i s)) = room s"
    and hv_inv: "inv s \<Longrightarrow> hv s s' \<Longrightarrow> inv s'"
    and hv_queues: "inv s \<Longrightarrow> hv s s' \<Longrightarrow>
      \<exists>n \<le> length (pend s). compl s' = compl s @ take n (pend s) \<and> pend s' = drop n (pend s)"
    and hv_room: "inv s \<Longrightarrow> hv s s' \<Longrightarrow> room s' = room s"
    and reap_inv: "inv s \<Longrightarrow> compl s \<noteq> [] \<Longrightarrow> reap s = (out, s') \<Longrightarrow> inv s'"
    and reap_compl: "inv s \<Longrightarrow> compl s \<noteq> [] \<Longrightarrow> reap s = (out, s') \<Longrightarrow>
      compl s = key_out out # compl s'"
    and reap_pend: "inv s \<Longrightarrow> compl s \<noteq> [] \<Longrightarrow> reap s = (out, s') \<Longrightarrow> pend s' = pend s"
    and reap_room: "inv s \<Longrightarrow> compl s \<noteq> [] \<Longrightarrow> reap s = (out, s') \<Longrightarrow> room s' = Suc (room s)"
begin

lemma run_fifo:
  assumes "handoff_run (\<lambda>s. 0 < room s) okin publish hv (\<lambda>s. compl s \<noteq> []) reap s0 s ins outs"
    and "inv s0"
  shows "inv s \<and> map key_out outs @ compl s @ pend s = compl s0 @ pend s0 @ map key_in ins \<and>
    room s + length (compl s) + length (pend s) = room s0 + length (compl s0) + length (pend s0)"
  using assms
proof (induction rule: handoff_run.induct)
  case run_init
  then show ?case by simp
next
  case (run_publish s ins outs i)
  then show ?case
    using publish_inv [of s i] publish_pend [of s i] publish_compl [of s i] publish_room [of s i]
    by (metis (no_types, lifting) add_Suc append_assoc length_append_singleton list.simps(8,9)
        map_append add_Suc_right)
next
  case (run_hv s ins outs s')
  then have inv: "inv s" by blast
  obtain n where n: "n \<le> length (pend s)" "compl s' = compl s @ take n (pend s)"
    "pend s' = drop n (pend s)"
    using hv_queues [OF inv run_hv.hyps(2)] by blast
  then have "compl s' @ pend s' = compl s @ pend s" by simp
  moreover from this have "length (compl s') + length (pend s') = length (compl s) + length (pend s)"
    by (metis length_append)
  ultimately show ?case
    using run_hv hv_inv [OF inv run_hv.hyps(2)] hv_room [OF inv run_hv.hyps(2)] by simp
next
  case (run_reap s ins outs out s')
  then have inv: "inv s" by blast
  note law = inv run_reap.hyps(2,3)
  show ?case
    using run_reap reap_inv [OF law] reap_compl [OF law] reap_pend [OF law] reap_room [OF law]
    by simp
qed

text \<open>What has come back is a prefix of what has been published.\<close>

lemma run_prefix:
  assumes "handoff_run (\<lambda>s. 0 < room s) okin publish hv (\<lambda>s. compl s \<noteq> []) reap s0 s ins outs"
    and "inv s0" "compl s0 = []" "pend s0 = []"
  shows "map key_out outs = take (length outs) (map key_in ins) \<and> length outs \<le> length ins"
proof -
  have eq: "map key_out outs @ compl s @ pend s = map key_in ins"
    using run_fifo [OF assms(1,2)] assms(3,4) by simp
  then have "length outs \<le> length ins"
    by (metis length_append length_map le_add1)
  moreover have "map key_out outs = take (length outs) (map key_in ins)"
    using eq by (metis append_eq_conv_conj length_map)
  ultimately show ?thesis by blast
qed

end

end
