(* ===== verification/Sring_Backend.thy ===== *)
theory Sring_Backend
  imports Sring Guest_Memory Handoff
begin

text \<open>
  The hypervisor side of the \<open>sring\<close> device (\<open>proxy/sring.c\<close>): draining the
  transmit ring into the network back end and filling receive buffers from it.

  The guest runs concurrently.  The backend looks at its side of the shared
  context only when it loads \<open>prod\<close> again (and once more when it loads the interrupt
  field), so the guest's activity is a list of context updates \<open>ql_guest\<close>, one of
  which takes effect at each of these loads; after the list has run out the guest
  is quiet.  The back end's \<open>send\<close> and \<open>recv\<close> are arguments: functions of the
  scatter-gather list and a world that return the C result, whether \<open>errno\<close> is
  \<open>EAGAIN\<close>, and the new world.
\<close>

section \<open>Loop states\<close>

type_synonym 'w io_fun = "iovec list \<Rightarrow> 'w \<Rightarrow> int \<times> bool \<times> 'w"

record ('c, 'w) qloop =
  ql_guest :: "('c \<Rightarrow> 'c) list"
  ql_priv :: 'c
  ql_be :: be_mem
  ql_world :: 'w
  ql_queue :: BpfhvBackendQueue
  ql_prod :: u32
  ql_cons :: u32
  ql_count :: nat
  ql_can :: bool

definition guest_step :: "('c, 'w, 'z) qloop_scheme \<Rightarrow> ('c, 'w, 'z) qloop_scheme" where
  "guest_step l = (case ql_guest l of [] \<Rightarrow> l
     | g # gs \<Rightarrow> l\<lparr>ql_guest := gs, ql_priv := g (ql_priv l)\<rparr>)"

definition load_prod ::
  "(('d, 'a) ring_scheme, 'w, 'z) qloop_scheme \<Rightarrow> (('d, 'a) ring_scheme, 'w, 'z) qloop_scheme" where
  "load_prod l = (let l = guest_step l in l\<lparr>ql_prod := prod (ql_priv l)\<rparr>)"

definition set_kick ::
  "bool \<Rightarrow> (('d, 'a) ring_scheme, 'w, 'z) qloop_scheme \<Rightarrow> (('d, 'a) ring_scheme, 'w, 'z) qloop_scheme" where
  "set_kick enable l = l\<lparr>ql_priv := (ql_priv l)\<lparr>kick_enabled := bool_to_u32 enable\<rparr>\<rparr>"

definition add_stats_bufs :: "u64 \<Rightarrow> BpfhvBackendQueue \<Rightarrow> BpfhvBackendQueue" where
  "add_stats_bufs n q = q\<lparr>q_stats := (q_stats q)\<lparr>st_bufs := st_bufs (q_stats q) + n\<rparr>\<rparr>"

definition add_stats_batch :: "nat \<Rightarrow> BpfhvBackendQueue \<Rightarrow> BpfhvBackendQueue" where
  "add_stats_batch n q = q\<lparr>q_stats := (q_stats q)\<lparr>
     st_pkts := st_pkts (q_stats q) + of_nat n,
     st_batches := st_batches (q_stats q) + 1\<rparr>\<rparr>"

text \<open>\<open>sring_rxq_notification\<close> and \<open>sring_txq_notification\<close>.\<close>

definition sring_notification :: "('d, 'a) ring_scheme \<Rightarrow> bool \<Rightarrow> ('d, 'a) ring_scheme" where
  "sring_notification priv enable = priv\<lparr>kick_enabled := bool_to_u32 enable\<rparr>"

section \<open>Draining the transmit ring\<close>

text \<open>The test at the top of the loop: \<open>Inl\<close> leaves the loop, \<open>Inr\<close> goes on with at
  least one descriptor available.  In busy-wait mode (\<open>can_send\<close> is \<open>NULL\<close>) kicks are
  not touched.\<close>

definition sring_tx_more ::
  "bool \<Rightarrow> (('d, 'a) ring_scheme, 'w, 'z) qloop_scheme
    \<Rightarrow> (('d, 'a) ring_scheme, 'w, 'z) qloop_scheme + (('d, 'a) ring_scheme, 'w, 'z) qloop_scheme" where
  "sring_tx_more blocking l =
    (if ql_cons l = ql_prod l then
       let l = load_prod l in
       if ql_cons l = ql_prod l then
         if \<not> blocking then Inl l
         else
           let l = load_prod (set_kick True l) in
           if ql_cons l = ql_prod l then Inl l
           else Inr (set_kick False l)
       else Inr l
     else Inr l)"

definition sring_txq_drain_iter ::
  "'w io_fun \<Rightarrow> bool \<Rightarrow> (sring_tx_context, 'w) qloop \<Rightarrow> bool \<times> (sring_tx_context, 'w) qloop" where
  "sring_txq_drain_iter send blocking l =
    (case sring_tx_more blocking l of
       Inl l \<Rightarrow> (False, l)
     | Inr l \<Rightarrow>
         if ql_count l \<ge> BPFHV_BE_TX_BUDGET then (False, l)
         else
           let txd = slot (ql_priv l) (ql_cons l);
               (base, be) = translate_addr (ql_be l) (txd_paddr txd) (ucast (txd_len txd));
               l = l\<lparr>ql_be := be\<rparr> in
           if base = 0 then (True, l\<lparr>ql_cons := ql_cons l + 1\<rparr>)
           else
             let (ret, eagain, w) =
                   send [\<lparr>iov_base = base, iov_len = ucast (txd_len txd)\<rparr>] (ql_world l);
                 l = l\<lparr>ql_world := w\<rparr> in
             if ret \<le> 0 then
               (False, l\<lparr>ql_can := (if ret < 0 \<and> blocking \<and> eagain then False else ql_can l)\<rparr>)
             else
               (True, l\<lparr>ql_queue := add_stats_bufs 1 (ql_queue l),
                        ql_count := ql_count l + 1, ql_cons := ql_cons l + 1\<rparr>))"

text \<open>Every iteration that continues consumes guest activity, or freshens a stale
  copy of \<open>prod\<close>, or moves \<open>cons\<close> towards \<open>prod\<close>.\<close>

definition drain_measure :: "(('d, 'a) ring_scheme, 'w, 'z) qloop_scheme \<Rightarrow> nat \<times> nat \<times> nat" where
  "drain_measure l = (length (ql_guest l),
     if ql_prod l = prod (ql_priv l) then 0 else 1, dist (ql_cons l) (ql_prod l))"

function sring_txq_drain_loop ::
  "'w io_fun \<Rightarrow> bool \<Rightarrow> (sring_tx_context, 'w) qloop \<Rightarrow> (sring_tx_context, 'w) qloop" where
  "sring_txq_drain_loop send blocking l =
    (case sring_txq_drain_iter send blocking l of
       (continue, l') \<Rightarrow> if continue then sring_txq_drain_loop send blocking l' else l')"
  by pat_completeness auto

section \<open>Both loops end\<close>

abbreviation drain_order :: "((nat \<times> nat \<times> nat) \<times> (nat \<times> nat \<times> nat)) set" where
  "drain_order \<equiv> less_than <*lex*> less_than <*lex*> less_than"

lemma load_prod_fields [simp]:
  "ql_cons (load_prod l) = ql_cons l" "ql_count (load_prod l) = ql_count l"
  "ql_be (load_prod l) = ql_be l" "ql_world (load_prod l) = ql_world l"
  "ql_queue (load_prod l) = ql_queue l" "ql_can (load_prod l) = ql_can l"
  "ql_prod (load_prod l) = prod (ql_priv (load_prod l))"
  by (simp_all add: load_prod_def guest_step_def Let_def split: list.split)

lemma set_kick_fields [simp]:
  "ql_cons (set_kick b l) = ql_cons l" "ql_count (set_kick b l) = ql_count l"
  "ql_be (set_kick b l) = ql_be l" "ql_world (set_kick b l) = ql_world l"
  "ql_queue (set_kick b l) = ql_queue l" "ql_can (set_kick b l) = ql_can l"
  "ql_prod (set_kick b l) = ql_prod l" "ql_guest (set_kick b l) = ql_guest l"
  "prod (ql_priv (set_kick b l)) = prod (ql_priv l)"
  by (simp_all add: set_kick_def)

lemma load_prod_guest: "ql_guest (load_prod l) = tl (ql_guest l)"
  by (simp add: load_prod_def guest_step_def Let_def split: list.split)

lemma load_prod_quiet: "ql_guest l = [] \<Longrightarrow> load_prod l = l\<lparr>ql_prod := prod (ql_priv l)\<rparr>"
  by (simp add: load_prod_def guest_step_def Let_def)

text \<open>A load that finds new descriptors decreases the first two components.\<close>

lemma load_prod_measure:
  assumes "ql_cons l = ql_prod l" "ql_cons (load_prod l) \<noteq> ql_prod (load_prod l)"
  shows "length (ql_guest (load_prod l)) < length (ql_guest l) \<or>
    length (ql_guest (load_prod l)) = length (ql_guest l) \<and> ql_prod l \<noteq> prod (ql_priv l)"
  using assms by (cases "ql_guest l") (auto simp: load_prod_guest load_prod_quiet)

text \<open>Going on, with the state at the descriptor.\<close>

lemma sring_tx_more_measure:
  assumes "sring_tx_more blocking l = Inr l1"
  shows "ql_cons l1 \<noteq> ql_prod l1 \<and>
    (l1 = l \<or> ((drain_measure (l1\<lparr>ql_cons := c\<rparr>), drain_measure l) \<in> drain_order))"
proof (cases "ql_cons l = ql_prod l")
  case False
  then show ?thesis using assms by (simp add: sring_tx_more_def)
next
  case eq: True
  show ?thesis
  proof (cases "ql_cons (load_prod l) = ql_prod (load_prod l)")
    case False
    then have "l1 = load_prod l" using assms eq by (simp add: sring_tx_more_def Let_def)
    then show ?thesis
      using False load_prod_measure [OF eq False] by (auto simp: drain_measure_def)
  next
    case eq1: True
    let ?l = "set_kick True (load_prod l)"
    have l1: "l1 = set_kick False (load_prod ?l)" "ql_cons (load_prod ?l) \<noteq> ql_prod (load_prod ?l)"
      using assms eq eq1 by (auto simp: sring_tx_more_def Let_def split: if_splits)
    have "ql_cons ?l = ql_prod ?l" using eq1 by simp
    then have "length (ql_guest (load_prod ?l)) < length (ql_guest ?l)"
      using load_prod_measure [OF _ l1(2)] by simp
    moreover have "length (ql_guest ?l) \<le> length (ql_guest l)"
      by (simp add: load_prod_guest)
    ultimately show ?thesis using l1 by (auto simp: drain_measure_def)
  qed
qed

lemma cons_step_measure:
  assumes "ql_cons l \<noteq> ql_prod l"
    and "ql_guest l' = ql_guest l" "ql_prod l' = ql_prod l" "prod (ql_priv l') = prod (ql_priv l)"
    and "ql_cons l' = ql_cons l + 1"
  shows "(drain_measure l', drain_measure l) \<in> drain_order"
  using assms dist_suc_left [OF assms(1)] dist_pos [OF assms(1)] by (simp add: drain_measure_def)

lemma drain_order_trans:
  "(a, b) \<in> drain_order \<Longrightarrow> (b, c) \<in> drain_order \<Longrightarrow> (a, c) \<in> drain_order"
  by (meson trans_less_than trans_lex_prod transD)

lemma sring_txq_drain_iter_cases:
  assumes "sring_txq_drain_iter send blocking l = (True, l')"
  obtains l1 where "sring_tx_more blocking l = Inr l1" "ql_cons l' = ql_cons l1 + 1"
    "ql_guest l' = ql_guest l1" "ql_prod l' = ql_prod l1" "ql_priv l' = ql_priv l1"
  using assms
  by (auto simp: sring_txq_drain_iter_def Let_def split: sum.splits if_splits prod.splits)

lemma sring_txq_drain_iter_measure:
  assumes "sring_txq_drain_iter send blocking l = (True, l')"
  shows "(drain_measure l', drain_measure l) \<in> drain_order"
  using assms
proof (cases rule: sring_txq_drain_iter_cases)
  case (1 l1)
  have m: "ql_cons l1 \<noteq> ql_prod l1"
    "l1 = l \<or> ((drain_measure (l1\<lparr>ql_cons := ql_cons l1\<rparr>), drain_measure l) \<in> drain_order)"
    using sring_tx_more_measure [OF 1(1)] by blast+
  have "(drain_measure l', drain_measure l1) \<in> drain_order"
    using 1 m(1) by (intro cons_step_measure) simp_all
  then show ?thesis using m(2) drain_order_trans by fastforce
qed

termination sring_txq_drain_loop
proof (relation "inv_image drain_order (\<lambda>(send, blocking, l). drain_measure l)", goal_cases)
  case 1
  show ?case by (intro wf_inv_image wf_lex_prod wf_less_than)
next
  case (2 send blocking l x l')
  then show ?case using sring_txq_drain_iter_measure [of send blocking l l'] by simp
qed

section \<open>Filling receive buffers\<close>

definition sring_rx_more ::
  "bool \<Rightarrow> (('d, 'a) ring_scheme, 'w, 'z) qloop_scheme
    \<Rightarrow> (('d, 'a) ring_scheme, 'w, 'z) qloop_scheme + (('d, 'a) ring_scheme, 'w, 'z) qloop_scheme" where
  "sring_rx_more blocking l =
    (if ql_cons l = ql_prod l then
       if \<not> blocking then Inl l
       else
         let l = load_prod (set_kick True l) in
         if ql_cons l = ql_prod l then Inl (l\<lparr>ql_can := False\<rparr>)
         else Inr (set_kick False l)
     else Inr l)"

definition set_rx_len :: "u32 \<Rightarrow> u32 \<Rightarrow> sring_rx_context \<Rightarrow> sring_rx_context" where
  "set_rx_len i len priv = set_slot i ((slot priv i)\<lparr>rxd_len := len\<rparr>) priv"

definition sring_rxq_push_iter ::
  "'w io_fun \<Rightarrow> bool \<Rightarrow> (sring_rx_context, 'w) qloop \<Rightarrow> bool \<times> (sring_rx_context, 'w) qloop" where
  "sring_rxq_push_iter recv blocking l =
    (case sring_rx_more blocking l of
       Inl l \<Rightarrow> (False, l)
     | Inr l \<Rightarrow>
         if ql_count l \<ge> BPFHV_BE_RX_BUDGET then (False, l)
         else
           let rxd = slot (ql_priv l) (ql_cons l);
               (base, be) = translate_addr (ql_be l) (rxd_paddr rxd) (ucast (rxd_len rxd));
               l = l\<lparr>ql_be := be\<rparr> in
           if base = 0 then
             (True, l\<lparr>ql_priv := set_rx_len (ql_cons l) 0 (ql_priv l), ql_cons := ql_cons l + 1\<rparr>)
           else
             let (pktsize, eagain, w) =
                   recv [\<lparr>iov_base = base, iov_len = ucast (rxd_len rxd)\<rparr>] (ql_world l);
                 l = l\<lparr>ql_world := w\<rparr> in
             if pktsize \<le> 0 then (False, l)
             else
               (True, l\<lparr>ql_priv := set_rx_len (ql_cons l) (of_int pktsize) (ql_priv l),
                        ql_queue := add_stats_bufs 1 (ql_queue l),
                        ql_cons := ql_cons l + 1, ql_count := ql_count l + 1\<rparr>))"

function sring_rxq_push_loop ::
  "'w io_fun \<Rightarrow> bool \<Rightarrow> (sring_rx_context, 'w) qloop \<Rightarrow> (sring_rx_context, 'w) qloop" where
  "sring_rxq_push_loop recv blocking l =
    (case sring_rxq_push_iter recv blocking l of
       (continue, l') \<Rightarrow> if continue then sring_rxq_push_loop recv blocking l' else l')"
  by pat_completeness auto

lemma sring_rx_more_measure:
  assumes "sring_rx_more blocking l = Inr l1"
  shows "ql_cons l1 \<noteq> ql_prod l1 \<and>
    (l1 = l \<or> ((drain_measure l1, drain_measure l) \<in> drain_order))"
proof (cases "ql_cons l = ql_prod l")
  case False
  then show ?thesis using assms by (simp add: sring_rx_more_def)
next
  case eq: True
  let ?l = "set_kick True l"
  have l1: "l1 = set_kick False (load_prod ?l)" "ql_cons (load_prod ?l) \<noteq> ql_prod (load_prod ?l)"
    using assms eq by (auto simp: sring_rx_more_def Let_def split: if_splits)
  have "ql_cons ?l = ql_prod ?l" using eq by simp
  then show ?thesis
    using load_prod_measure [OF _ l1(2)] l1 by (auto simp: drain_measure_def)
qed

lemma set_rx_len_fields [simp]:
  "prod (set_rx_len i n priv) = prod priv" "cons (set_rx_len i n priv) = cons priv"
  "clear (set_rx_len i n priv) = clear priv" "qmask (set_rx_len i n priv) = qmask priv"
  "kick_enabled (set_rx_len i n priv) = kick_enabled priv"
  "length (desc (set_rx_len i n priv)) = length (desc priv)"
  "intr_enabled (set_rx_len i n priv) = intr_enabled priv"
  by (simp_all add: set_rx_len_def set_slot_def)

lemma sring_rxq_push_iter_cases:
  assumes "sring_rxq_push_iter recv blocking l = (True, l')"
  obtains l1 n where "sring_rx_more blocking l = Inr l1" "ql_cons l' = ql_cons l1 + 1"
    "ql_guest l' = ql_guest l1" "ql_prod l' = ql_prod l1"
    "ql_priv l' = set_rx_len (ql_cons l1) n (ql_priv l1)"
  using assms
  by (auto simp: sring_rxq_push_iter_def Let_def split: sum.splits if_splits prod.splits)

lemma sring_rxq_push_iter_measure:
  assumes "sring_rxq_push_iter recv blocking l = (True, l')"
  shows "(drain_measure l', drain_measure l) \<in> drain_order"
  using assms
proof (cases rule: sring_rxq_push_iter_cases)
  case (1 l1 n)
  have m: "ql_cons l1 \<noteq> ql_prod l1" "l1 = l \<or> ((drain_measure l1, drain_measure l) \<in> drain_order)"
    using sring_rx_more_measure [OF 1(1)] by blast+
  have "(drain_measure l', drain_measure l1) \<in> drain_order"
    using 1 m(1) by (intro cons_step_measure) simp_all
  then show ?thesis using m(2) drain_order_trans by fastforce
qed

termination sring_rxq_push_loop
proof (relation "inv_image drain_order (\<lambda>(recv, blocking, l). drain_measure l)", goal_cases)
  case 1
  show ?case by (intro wf_inv_image wf_lex_prod wf_less_than)
next
  case (2 recv blocking l x l')
  then show ?case using sring_rxq_push_iter_measure [of recv blocking l l'] by simp
qed

declare sring_txq_drain_loop.simps [simp del] sring_rxq_push_loop.simps [simp del]

section \<open>The whole routines\<close>

text \<open>\<open>can_send\<close> and \<open>can_receive\<close> are pointers: \<open>None\<close> is \<open>NULL\<close> (busy-wait mode) and
  \<open>Some b\<close> a flag with the value \<open>b\<close>.  The result is the final loop state, whose
  \<open>ql_count\<close> is the C return value.\<close>

definition flag_value :: "bool option \<Rightarrow> bool" where
  "flag_value can = (case can of None \<Rightarrow> False | Some b \<Rightarrow> b)"

definition queue_start ::
  "bool option \<Rightarrow> ('c \<Rightarrow> 'c) list \<Rightarrow> be_mem \<Rightarrow> 'w \<Rightarrow> BpfhvBackendQueue \<Rightarrow> u32 \<Rightarrow> u32 \<Rightarrow> 'c
    \<Rightarrow> ('c, 'w) qloop" where
  "queue_start can guest be w q prod0 cons0 priv =
     \<lparr>ql_guest = guest, ql_priv = priv, ql_be = be, ql_world = w,
      ql_queue = q\<lparr>q_notify := False\<rparr>, ql_prod = prod0, ql_cons = cons0, ql_count = 0,
      ql_can = flag_value can\<rparr>"

text \<open>After the loop: publish \<open>cons\<close> when something was sent, then decide from the
  interrupt index whether to notify the guest.\<close>

definition sring_txq_finish ::
  "('d tx_ring, 'w, 'z) qloop_scheme \<Rightarrow> ('d tx_ring, 'w, 'z) qloop_scheme" where
  "sring_txq_finish l =
    (if ql_count l > 0 then
       let old_cons = cons (ql_priv l);
           l = guest_step (l\<lparr>ql_priv := (ql_priv l)\<lparr>cons := ql_cons l\<rparr>\<rparr>);
           notify = (ql_cons l - intr_at (ql_priv l) - 1 < ql_cons l - old_cons)
       in l\<lparr>ql_queue := add_stats_batch (ql_count l) ((ql_queue l)\<lparr>q_notify := notify\<rparr>)\<rparr>
     else l)"

definition sring_txq_drain ::
  "'w io_fun \<Rightarrow> bool option \<Rightarrow> (sring_tx_context \<Rightarrow> sring_tx_context) list \<Rightarrow> be_mem \<Rightarrow> 'w
    \<Rightarrow> BpfhvBackendQueue \<Rightarrow> sring_tx_context \<Rightarrow> (sring_tx_context, 'w) qloop" where
  "sring_txq_drain send can_send guest be w txq priv =
    (let priv = (if can_send \<noteq> None then sring_notification priv False else priv);
         l = queue_start can_send guest be w txq (prod priv) (cons priv) priv
     in sring_txq_finish (sring_txq_drain_loop send (can_send \<noteq> None) l))"

definition sring_rxq_finish ::
  "('d rx_ring, 'w, 'z) qloop_scheme \<Rightarrow> ('d rx_ring, 'w, 'z) qloop_scheme" where
  "sring_rxq_finish l =
    (if ql_count l > 0 then
       let l = guest_step (l\<lparr>ql_priv := (ql_priv l)\<lparr>cons := ql_cons l\<rparr>\<rparr>);
           notify = (intr_enabled (ql_priv l) \<noteq> 0)
       in l\<lparr>ql_queue := add_stats_batch (ql_count l) ((ql_queue l)\<lparr>q_notify := notify\<rparr>)\<rparr>
     else l)"

definition sring_rxq_push ::
  "'w io_fun \<Rightarrow> bool option \<Rightarrow> (sring_rx_context \<Rightarrow> sring_rx_context) list \<Rightarrow> be_mem \<Rightarrow> 'w
    \<Rightarrow> BpfhvBackendQueue \<Rightarrow> sring_rx_context \<Rightarrow> (sring_rx_context, 'w) qloop" where
  "sring_rxq_push recv can_receive guest be w rxq priv =
    (let priv = (if kick_enabled priv \<noteq> 0 then sring_notification priv False else priv);
         l = queue_start can_receive guest be w rxq (prod priv) (cons priv) priv
     in sring_rxq_finish (sring_rxq_push_loop recv (can_receive \<noteq> None) l))"

section \<open>Invariants under guest activity\<close>

text \<open>What the backend relies on: the guest keeps the ring well formed, leaves the
  fields of the hypervisor alone, and only appends to the pending entries.\<close>

definition guest_ok :: "nat \<Rightarrow> (('d, 'a) ring_scheme \<Rightarrow> ('d, 'a) ring_scheme) \<Rightarrow> bool" where
  "guest_ok k g \<longleftrightarrow> (\<forall>r. ring_inv k r \<longrightarrow> ring_inv k (g r) \<and> cons (g r) = cons r \<and>
     kick_enabled (g r) = kick_enabled r \<and> (\<exists>ds. pending (g r) = pending r @ ds))"

definition loop_inv :: "nat \<Rightarrow> (('d, 'a) ring_scheme, 'w, 'z) qloop_scheme \<Rightarrow> bool" where
  "loop_inv k l \<longleftrightarrow> ring_inv k (ql_priv l) \<and> ql_prod l = prod (ql_priv l) \<and>
     dist (cons (ql_priv l)) (ql_cons l) \<le> dist (cons (ql_priv l)) (prod (ql_priv l)) \<and>
     ql_count l \<le> dist (cons (ql_priv l)) (ql_cons l) \<and> ql_count l \<le> 128 \<and>
     (\<forall>g \<in> set (ql_guest l). guest_ok k g)"

lemma guest_okD:
  assumes "guest_ok k g" "ring_inv k r"
  shows "ring_inv k (g r)" "cons (g r) = cons r" "kick_enabled (g r) = kick_enabled r"
    "dist (cons r) (prod r) \<le> dist (cons r) (prod (g r))"
proof -
  show "ring_inv k (g r)" "cons (g r) = cons r" "kick_enabled (g r) = kick_enabled r"
    using assms by (auto simp: guest_ok_def)
  obtain ds where "pending (g r) = pending r @ ds"
    using assms by (auto simp: guest_ok_def)
  then have "length (pending r) \<le> length (pending (g r))" by simp
  then show "dist (cons r) (prod r) \<le> dist (cons r) (prod (g r))"
    using assms by (simp add: guest_ok_def)
qed

lemma load_prod_inv [inv_intros]: "loop_inv k l \<Longrightarrow> loop_inv k (load_prod l)"
  using guest_okD [of k "hd (ql_guest l)" "ql_priv l"]
  by (cases "ql_guest l")
    (auto simp: loop_inv_def load_prod_def guest_step_def Let_def)

lemma set_kick_inv [simp]: "loop_inv k (set_kick b l) \<longleftrightarrow> loop_inv k l"
  by (simp add: loop_inv_def set_kick_def)

lemma loop_inv_can [simp]: "loop_inv k (l\<lparr>ql_can := b\<rparr>) \<longleftrightarrow> loop_inv k l"
  by (simp add: loop_inv_def)

lemma sring_tx_more_inv:
  assumes "loop_inv k l"
  shows "sring_tx_more blocking l = Inl l' \<Longrightarrow> loop_inv k l'"
    and "sring_tx_more blocking l = Inr l' \<Longrightarrow> loop_inv k l' \<and> ql_cons l' \<noteq> ql_prod l'"
  using assms load_prod_inv [OF assms] load_prod_inv [of k "set_kick True (load_prod l)"]
  by (auto simp: sring_tx_more_def Let_def split: if_splits)

lemma sring_rx_more_inv:
  assumes "loop_inv k l"
  shows "sring_rx_more blocking l = Inl l' \<Longrightarrow> loop_inv k l'"
    and "sring_rx_more blocking l = Inr l' \<Longrightarrow> loop_inv k l' \<and> ql_cons l' \<noteq> ql_prod l'"
  using assms load_prod_inv [of k "set_kick True l"]
  by (auto simp: sring_rx_more_def Let_def split: if_splits)

text \<open>Stepping over a descriptor that is there.\<close>

lemma cons_step_inv:
  assumes "loop_inv k l" "ql_cons l \<noteq> ql_prod l"
  shows "dist (cons (ql_priv l)) (ql_cons l + 1) = Suc (dist (cons (ql_priv l)) (ql_cons l))"
    and "dist (cons (ql_priv l)) (ql_cons l) < dist (cons (ql_priv l)) (prod (ql_priv l))"
proof -
  show lt: "dist (cons (ql_priv l)) (ql_cons l) < dist (cons (ql_priv l)) (prod (ql_priv l))"
    using assms by (metis add_dist le_neq_implies_less loop_inv_def)
  then have "Suc (dist (cons (ql_priv l)) (ql_cons l)) < 2 ^ LENGTH(32)"
    using dist_bound [of "cons (ql_priv l)" "prod (ql_priv l)"] by linarith
  then show "dist (cons (ql_priv l)) (ql_cons l + 1) = Suc (dist (cons (ql_priv l)) (ql_cons l))"
    by (rule dist_suc_right)
qed

lemma sring_txq_drain_iter_inv:
  assumes "loop_inv k l" "sring_txq_drain_iter send blocking l = (c, l')"
  shows "loop_inv k l'"
proof (cases "sring_tx_more blocking l")
  case (Inl l1)
  then show ?thesis
    using assms sring_tx_more_inv(1) [OF assms(1) Inl] by (simp add: sring_txq_drain_iter_def)
next
  case (Inr l1)
  have i: "loop_inv k l1" "ql_cons l1 \<noteq> ql_prod l1"
    using sring_tx_more_inv(2) [OF assms(1) Inr] by blast+
  show ?thesis
    using assms(2) Inr i cons_step_inv [OF i]
    by (auto simp: sring_txq_drain_iter_def Let_def loop_inv_def BPFHV_BE_TX_BUDGET_def
        split: prod.splits if_splits)
qed

lemma sring_txq_drain_loop_inv:
  "loop_inv k l \<Longrightarrow> loop_inv k (sring_txq_drain_loop send blocking l)"
proof (induction send blocking l rule: sring_txq_drain_loop.induct)
  case (1 send blocking l)
  obtain c l' where it: "sring_txq_drain_iter send blocking l = (c, l')" by fastforce
  have "loop_inv k l'" using sring_txq_drain_iter_inv [OF "1.prems" it] .
  then show ?case
    using "1.IH" [OF it [symmetric]] it by (subst sring_txq_drain_loop.simps) simp
qed

lemma loop_inv_rx_len [simp]:
  "loop_inv k (l\<lparr>ql_priv := set_rx_len i n (ql_priv l)\<rparr>) \<longleftrightarrow> loop_inv k l"
  by (simp add: loop_inv_def ring_inv_def)

lemma sring_rxq_push_iter_inv:
  assumes "loop_inv k l" "sring_rxq_push_iter recv blocking l = (c, l')"
  shows "loop_inv k l'"
proof (cases "sring_rx_more blocking l")
  case (Inl l1)
  then show ?thesis
    using assms sring_rx_more_inv(1) [OF assms(1) Inl] by (simp add: sring_rxq_push_iter_def)
next
  case (Inr l1)
  have i: "loop_inv k l1" "ql_cons l1 \<noteq> ql_prod l1"
    using sring_rx_more_inv(2) [OF assms(1) Inr] by blast+
  show ?thesis
    using assms(2) Inr i cons_step_inv [OF i]
    by (auto simp: sring_rxq_push_iter_def Let_def loop_inv_def BPFHV_BE_RX_BUDGET_def ring_inv_def
        split: prod.splits if_splits)
qed

lemma sring_rxq_push_loop_inv:
  "loop_inv k l \<Longrightarrow> loop_inv k (sring_rxq_push_loop recv blocking l)"
proof (induction recv blocking l rule: sring_rxq_push_loop.induct)
  case (1 recv blocking l)
  obtain c l' where it: "sring_rxq_push_iter recv blocking l = (c, l')" by fastforce
  have "loop_inv k l'" using sring_rxq_push_iter_inv [OF "1.prems" it] .
  then show ?case
    using "1.IH" [OF it [symmetric]] it by (subst sring_rxq_push_loop.simps) simp
qed

text \<open>Publishing the consumed entries, and the guest's step before the interrupt field
  is read.\<close>

lemma loop_inv_publish:
  assumes "loop_inv k l"
  shows "ring_inv k ((ql_priv l)\<lparr>cons := ql_cons l\<rparr>)"
    and "completed ((ql_priv l)\<lparr>cons := ql_cons l\<rparr>) = completed (ql_priv l)
      @ take (dist (cons (ql_priv l)) (ql_cons l)) (pending (ql_priv l))"
    and "pending ((ql_priv l)\<lparr>cons := ql_cons l\<rparr>)
      = drop (dist (cons (ql_priv l)) (ql_cons l)) (pending (ql_priv l))"
proof -
  let ?n = "dist (cons (ql_priv l)) (ql_cons l)"
  have "(ql_priv l)\<lparr>cons := ql_cons l\<rparr> = ring_consume ?n (ql_priv l)"
    by (simp add: ring_consume_def)
  moreover have inv: "ring_inv k (ql_priv l)" and n: "?n \<le> dist (cons (ql_priv l)) (prod (ql_priv l))"
    using assms by (simp_all add: loop_inv_def)
  ultimately show "ring_inv k ((ql_priv l)\<lparr>cons := ql_cons l\<rparr>)"
    "completed ((ql_priv l)\<lparr>cons := ql_cons l\<rparr>) = completed (ql_priv l) @ take ?n (pending (ql_priv l))"
    "pending ((ql_priv l)\<lparr>cons := ql_cons l\<rparr>) = drop ?n (pending (ql_priv l))"
    using ring_consume_inv [OF inv n] ring_consume_queues [OF inv n] by simp_all
qed

lemma guest_step_ring_inv:
  assumes "ring_inv k (ql_priv l)" "\<forall>g \<in> set (ql_guest l). guest_ok k g"
  shows "ring_inv k (ql_priv (guest_step l))"
  using assms guest_okD(1) by (auto simp: guest_step_def split: list.split)

lemma sring_notification_inv [simp]: "ring_inv k (sring_notification r b) \<longleftrightarrow> ring_inv k r"
  by (simp add: sring_notification_def)

lemma queue_start_inv:
  assumes "ring_inv k priv" "\<forall>g \<in> set guest. guest_ok k g"
  shows "loop_inv k (queue_start can guest be w q (prod priv) (cons priv) priv)"
  using assms by (simp add: loop_inv_def queue_start_def)

lemma sring_notification_fields [simp]:
  "prod (sring_notification r b) = prod r" "cons (sring_notification r b) = cons r"
  "clear (sring_notification r b) = clear r" "desc (sring_notification r b) = desc r"
  "qmask (sring_notification r b) = qmask r" "ring.more (sring_notification r b) = ring.more r"
  by (simp_all add: sring_notification_def)

lemma sring_txq_finish_inv: "loop_inv k l \<Longrightarrow> ring_inv k (ql_priv (sring_txq_finish l))"
  using guest_step_ring_inv [of k "l\<lparr>ql_priv := (ql_priv l)\<lparr>cons := ql_cons l\<rparr>\<rparr>"]
    loop_inv_publish(1) [of k l]
  by (simp add: sring_txq_finish_def Let_def loop_inv_def)

lemma sring_rxq_finish_inv: "loop_inv k l \<Longrightarrow> ring_inv k (ql_priv (sring_rxq_finish l))"
  using guest_step_ring_inv [of k "l\<lparr>ql_priv := (ql_priv l)\<lparr>cons := ql_cons l\<rparr>\<rparr>"]
    loop_inv_publish(1) [of k l]
  by (simp add: sring_rxq_finish_def Let_def loop_inv_def)

section \<open>The drain as a function of the pending list\<close>

text \<open>The reference: the pending descriptors are handled from the front; invalid ones
  are skipped, valid ones are handed to \<open>send\<close>, until a send fails or the budget is
  used up.  The result is the number of descriptors consumed, the number of packets
  sent, and the new memory map and world.\<close>

fun drain_spec ::
  "'w io_fun \<Rightarrow> be_mem \<Rightarrow> 'w \<Rightarrow> nat \<Rightarrow> sring_tx_desc list \<Rightarrow> nat \<times> nat \<times> be_mem \<times> 'w" where
  "drain_spec send be w c [] = (0, c, be, w)"
| "drain_spec send be w c (d # ds) =
    (if c \<ge> 128 then (0, c, be, w)
     else
       let (base, be') = translate_addr be (txd_paddr d) (ucast (txd_len d)) in
       if base = 0 then
         let (n, c', be'', w') = drain_spec send be' w c ds in (Suc n, c', be'', w')
       else
         let (ret, eagain, w1) = send [\<lparr>iov_base = base, iov_len = ucast (txd_len d)\<rparr>] w in
         if ret \<le> 0 then (0, c, be', w1)
         else
           let (n, c', be'', w') = drain_spec send be' w1 (Suc c) ds in (Suc n, c', be'', w'))"

definition remaining :: "(('d, 'a) ring_scheme, 'w, 'z) qloop_scheme \<Rightarrow> 'd list" where
  "remaining l = ring_slice (desc (ql_priv l)) (qmask (ql_priv l)) (ql_cons l)
     (dist (ql_cons l) (prod (ql_priv l)))"

lemma remaining_Nil: "remaining l = [] \<longleftrightarrow> ql_cons l = prod (ql_priv l)"
  by (simp add: remaining_def ring_slice_def)

lemma remaining_Cons:
  assumes "ql_cons l \<noteq> prod (ql_priv l)"
  shows "remaining l = slot (ql_priv l) (ql_cons l) #
    ring_slice (desc (ql_priv l)) (qmask (ql_priv l)) (ql_cons l + 1)
      (dist (ql_cons l + 1) (prod (ql_priv l)))"
proof -
  obtain n where "dist (ql_cons l) (prod (ql_priv l)) = Suc n"
    using dist_pos [OF assms] gr0_implies_Suc by blast
  then show ?thesis
    using dist_suc_left [OF assms] by (simp add: remaining_def ring_slice_Cons slot_def)
qed

lemma sring_tx_more_quiet:
  assumes "ql_guest l = []" "ql_prod l = prod (ql_priv l)"
  shows "sring_tx_more blocking l =
    (if ql_cons l = ql_prod l then Inl (if blocking then set_kick True l else l) else Inr l)"
proof -
  have "load_prod l = l" "load_prod (set_kick True l) = set_kick True l"
    using assms by (simp_all add: load_prod_quiet set_kick_def)
  then show ?thesis by (simp add: sring_tx_more_def)
qed

text \<open>With a quiet guest the loop computes the reference and touches nothing but
  \<open>kick_enabled\<close>.\<close>

lemma sring_txq_drain_loop_spec:
  assumes "ql_guest l = []" "ql_prod l = prod (ql_priv l)"
    and "drain_spec send (ql_be l) (ql_world l) (ql_count l) (remaining l) = (n, c, be, w)"
    and "l' = sring_txq_drain_loop send blocking l"
  shows "ql_cons l' = ql_cons l + of_nat n \<and> ql_count l' = c \<and> ql_be l' = be \<and> ql_world l' = w \<and>
    ql_guest l' = [] \<and> n \<le> length (remaining l) \<and> ql_count l \<le> c \<and>
    (\<exists>v. ql_priv l' = (ql_priv l)\<lparr>kick_enabled := v\<rparr>)"
  using assms
proof (induction send blocking l arbitrary: n rule: sring_txq_drain_loop.induct)
  case (1 send blocking l)
  have upd: "\<exists>v. ql_priv l = (ql_priv l)\<lparr>kick_enabled := v\<rparr>"
    by (intro exI [of _ "kick_enabled (ql_priv l)"]) simp
  show ?case
  proof (cases "ql_cons l = prod (ql_priv l)")
    case True
    then have "sring_txq_drain_iter send blocking l
        = (False, if blocking then set_kick True l else l)"
      using "1.prems" by (simp add: sring_txq_drain_iter_def sring_tx_more_quiet)
    moreover have "remaining l = []" using True by (simp add: remaining_Nil)
    ultimately show ?thesis
      using "1.prems" upd by (simp add: sring_txq_drain_loop.simps set_kick_def) blast
  next
    case False
    let ?d = "slot (ql_priv l) (ql_cons l)"
    define ds where "ds = ring_slice (desc (ql_priv l)) (qmask (ql_priv l)) (ql_cons l + 1)
      (dist (ql_cons l + 1) (prod (ql_priv l)))"
    have rem: "remaining l = ?d # ds" using remaining_Cons [OF False] by (simp add: ds_def)
    obtain base be1 where tr: "translate_addr (ql_be l) (txd_paddr ?d) (ucast (txd_len ?d)) = (base, be1)"
      by fastforce
    note step = sring_txq_drain_iter_def sring_tx_more_quiet [OF "1.prems"(1,2)] False
      "1.prems"(2) BPFHV_BE_TX_BUDGET_def Let_def tr
    have more: ?thesis if it: "sring_txq_drain_iter send blocking l = (True, l1)"
      and l1: "ql_guest l1 = []" "ql_prod l1 = ql_prod l" "ql_priv l1 = ql_priv l"
        "ql_cons l1 = ql_cons l + 1" "ql_count l \<le> ql_count l1"
      and sp: "drain_spec send (ql_be l1) (ql_world l1) (ql_count l1) ds = (n', c, be, w)"
        "n = Suc n'" for l1 n'
    proof -
      have "remaining l1 = ds" using l1 by (simp add: remaining_def ds_def)
      moreover have "l' = sring_txq_drain_loop send blocking l1"
        using "1.prems"(4) it by (simp add: sring_txq_drain_loop.simps [of send blocking l])
      ultimately show ?thesis
        using "1.IH" [OF it [symmetric], of n'] l1 sp "1.prems"(2) rem by (simp add: add.assoc)
    qed
    have stop: ?thesis if it: "sring_txq_drain_iter send blocking l = (False, l1)"
      and l1: "ql_priv l1 = ql_priv l" "ql_cons l1 = ql_cons l" "ql_guest l1 = []"
        "ql_count l1 = ql_count l" "ql_be l1 = be" "ql_world l1 = w" "n = 0" "c = ql_count l" for l1
    proof -
      have "l' = l1"
        using "1.prems"(4) it by (simp add: sring_txq_drain_loop.simps [of send blocking l])
      then show ?thesis using l1 upd by simp
    qed
    consider (budget) "128 \<le> ql_count l" | (bad) "ql_count l < 128" "base = 0"
      | (ok) "ql_count l < 128" "base \<noteq> 0" by linarith
    then show ?thesis
    proof cases
      case budget
      then show ?thesis using "1.prems"(1,3) rem by (intro stop [of l]) (simp_all add: step)
    next
      case bad
      obtain n' where n': "drain_spec send be1 (ql_world l) (ql_count l) ds = (n', c, be, w)" "n = Suc n'"
        using "1.prems"(3) rem bad tr by (auto simp: Let_def split: prod.splits)
      show ?thesis
        using bad n' "1.prems"(1)
        by (intro more [of "l\<lparr>ql_be := be1, ql_cons := ql_cons l + 1\<rparr>" n']) (simp_all add: step)
    next
      case ok
      obtain ret ea w1 where sn:
        "send [\<lparr>iov_base = base, iov_len = ucast (txd_len ?d)\<rparr>] (ql_world l) = (ret, ea, w1)"
        by (metis prod_cases3)
      show ?thesis
      proof (cases "ret \<le> 0")
        case True
        then show ?thesis
          using ok sn "1.prems"(1,3) rem tr
          by (intro stop [of "l\<lparr>ql_be := be1, ql_world := w1,
                ql_can := (if ret < 0 \<and> blocking \<and> ea then False else ql_can l)\<rparr>"])
            (simp_all add: step)
      next
        case False
        obtain n' where n': "drain_spec send be1 w1 (Suc (ql_count l)) ds = (n', c, be, w)" "n = Suc n'"
          using "1.prems"(3) rem ok sn tr False by (auto simp: Let_def split: prod.splits)
        show ?thesis
          using ok sn n' False "1.prems"(1)
          by (intro more [of "l\<lparr>ql_be := be1, ql_world := w1,
                ql_queue := add_stats_bufs 1 (ql_queue l), ql_count := ql_count l + 1,
                ql_cons := ql_cons l + 1\<rparr>" n']) (simp_all add: step)
      qed
    qed
  qed
qed

lemma q_notify_stats [simp]:
  "q_notify (add_stats_batch n q) = q_notify q" "q_notify (add_stats_bufs m q) = q_notify q"
  by (simp_all add: add_stats_batch_def add_stats_bufs_def)

lemma more_queue:
  "sring_tx_more blocking l = Inl l' \<Longrightarrow> ql_queue l' = ql_queue l"
  "sring_tx_more blocking l = Inr l' \<Longrightarrow> ql_queue l' = ql_queue l"
  "sring_rx_more blocking r = Inl r' \<Longrightarrow> ql_queue r' = ql_queue r"
  "sring_rx_more blocking r = Inr r' \<Longrightarrow> ql_queue r' = ql_queue r"
  by (auto simp: sring_tx_more_def sring_rx_more_def Let_def split: if_splits)

lemma sring_txq_drain_loop_notify [simp]:
  "q_notify (ql_queue (sring_txq_drain_loop send blocking l)) = q_notify (ql_queue l)"
proof (induction send blocking l rule: sring_txq_drain_loop.induct)
  case (1 send blocking l)
  obtain c l' where it: "sring_txq_drain_iter send blocking l = (c, l')" by fastforce
  then have "q_notify (ql_queue l') = q_notify (ql_queue l)"
    using more_queue(1,2) [of blocking l]
    by (auto simp: sring_txq_drain_iter_def Let_def split: sum.splits prod.splits if_splits)
  then show ?case
    using "1.IH" [OF it [symmetric]] it by (subst sring_txq_drain_loop.simps) simp
qed

lemma sring_txq_finish_quiet:
  assumes "ql_guest l = []" "0 < ql_count l" "n < 2 ^ 32"
    and "ql_cons l = cons (ql_priv l) + of_nat n"
  shows "ql_priv (sring_txq_finish l) = ring_consume n (ql_priv l)"
    and "q_notify (ql_queue (sring_txq_finish l))
      \<longleftrightarrow> dist (cons (ql_priv l)) (intr_at (ql_priv l)) < n"
proof -
  have dn: "dist (cons (ql_priv l)) (ql_cons l) = n"
    using assms dist_of_nat [of n "cons (ql_priv l)"] by simp
  show "ql_priv (sring_txq_finish l) = ring_consume n (ql_priv l)"
    using assms by (simp add: sring_txq_finish_def Let_def guest_step_def ring_consume_def)
  show "q_notify (ql_queue (sring_txq_finish l))
      \<longleftrightarrow> dist (cons (ql_priv l)) (intr_at (ql_priv l)) < n"
    using assms(1,2) dn event_crossed_iff [of "ql_cons l" "intr_at (ql_priv l)" "cons (ql_priv l)"]
    by (simp add: sring_txq_finish_def Let_def guest_step_def)
qed

lemma sring_txq_finish_fields [simp]:
  "ql_count (sring_txq_finish l) = ql_count l" "ql_be (sring_txq_finish l) = ql_be l"
  "ql_world (sring_txq_finish l) = ql_world l" "ql_can (sring_txq_finish l) = ql_can l"
  by (simp_all add: sring_txq_finish_def Let_def guest_step_def split: list.split)

lemma ring_consume_kick:
  "ring_consume n (r\<lparr>kick_enabled := v\<rparr>) = (ring_consume n r)\<lparr>kick_enabled := v\<rparr>"
  by (simp add: ring_consume_def)

lemma sring_txq_drain_quiet:
  assumes inv: "ring_inv k priv"
    and spec: "drain_spec send be w 0 (pending priv) = (n, c, be', w')"
    and l: "l = sring_txq_drain send can [] be w txq priv"
  shows "ql_count l = c \<and> ql_be l = be' \<and> ql_world l = w' \<and> n \<le> length (pending priv) \<and>
    (\<exists>v. ql_priv l = (if 0 < c then ring_consume n priv else priv)\<lparr>kick_enabled := v\<rparr>) \<and>
    (q_notify (ql_queue l) \<longleftrightarrow> 0 < c \<and> dist (cons priv) (intr_at priv) < n)"
proof -
  define p0 where "p0 = (if can \<noteq> None then sring_notification priv False else priv)"
  define l0 where "l0 = queue_start can [] be w txq (prod p0) (cons p0) p0"
  define l1 where "l1 = sring_txq_drain_loop send (can \<noteq> None) l0"
  have l1: "l = sring_txq_finish l1"
    by (simp only: l sring_txq_drain_def Let_def l1_def l0_def p0_def)
  obtain v0 where p0: "p0 = priv\<lparr>kick_enabled := v0\<rparr>"
  proof (cases can)
    case None
    then show ?thesis by (intro that [of "kick_enabled priv"]) (simp add: p0_def)
  qed (use that in \<open>simp add: p0_def sring_notification_def\<close>)
  have l0: "ql_guest l0 = []" "ql_prod l0 = prod (ql_priv l0)" "remaining l0 = pending priv"
    "ql_be l0 = be" "ql_world l0 = w" "ql_count l0 = 0" "ql_cons l0 = cons priv" "ql_priv l0 = p0"
    by (simp_all add: l0_def p0 queue_start_def remaining_def pending_def)
  obtain v where sp: "ql_cons l1 = cons priv + of_nat n" "ql_count l1 = c" "ql_be l1 = be'"
    "ql_world l1 = w'" "ql_guest l1 = []" "n \<le> length (pending priv)"
    "ql_priv l1 = priv\<lparr>kick_enabled := v\<rparr>"
    using sring_txq_drain_loop_spec [OF l0(1,2) _ l1_def] spec l0 p0 by auto
  have n: "n < 2 ^ 32" using sp(6) dist_bound [of "cons priv" "prod priv"] by simp
  show ?thesis
  proof (cases "0 < c")
    case True
    then show ?thesis
      using sp sring_txq_finish_quiet [of l1 n] n
      by (auto simp: l1 ring_consume_kick)
  next
    case False
    then have "l = l1" using l1 sp(2) by (simp add: sring_txq_finish_def)
    then show ?thesis using sp False by (auto simp: l1_def l0_def queue_start_def)
  qed
qed

section \<open>Receiving with a quiet guest\<close>

text \<open>Filling buffers changes nothing but the lengths in the descriptors, \<open>cons\<close> and
  \<open>kick_enabled\<close>.\<close>

definition rx_frame :: "sring_rx_context \<Rightarrow> sring_rx_context \<Rightarrow> bool" where
  "rx_frame r r' \<longleftrightarrow> prod r' = prod r \<and> cons r' = cons r \<and> clear r' = clear r \<and>
     qmask r' = qmask r \<and> intr_enabled r' = intr_enabled r \<and>
     map rxd_key (desc r') = map rxd_key (desc r)"

lemma rx_frame_refl [simp]: "rx_frame r r"
  by (simp add: rx_frame_def)

lemma rx_frame_trans: "rx_frame a b \<Longrightarrow> rx_frame b c \<Longrightarrow> rx_frame a c"
  by (simp add: rx_frame_def)

lemma rx_frame_kick [simp]: "rx_frame r (r\<lparr>kick_enabled := v\<rparr>)"
  by (simp add: rx_frame_def)

lemma rx_frame_rx_len [simp]: "rx_frame r (set_rx_len i n r)"
proof -
  have "map rxd_key ((desc r)[j := (desc r ! j)\<lparr>rxd_len := n\<rparr>]) = map rxd_key (desc r)" for j
    by (cases "j < length (desc r)")
      (simp_all add: map_update rxd_key_def list_update_beyond map_update [symmetric]
        list_update_same_conv)
  then show ?thesis
    by (simp add: rx_frame_def) (simp add: set_rx_len_def set_slot_def slot_def)
qed

lemma sring_rx_more_quiet:
  assumes "ql_guest l = []" "ql_prod l = prod (ql_priv l)"
  shows "sring_rx_more blocking l =
    (if ql_cons l = ql_prod l then
       Inl (if blocking then (set_kick True l)\<lparr>ql_can := False\<rparr> else l)
     else Inr l)"
proof -
  have "load_prod (set_kick True l) = set_kick True l"
    using assms by (simp add: load_prod_quiet set_kick_def)
  then show ?thesis by (simp add: sring_rx_more_def)
qed

lemma sring_rxq_push_loop_quiet:
  assumes "ql_guest l = []" "ql_prod l = prod (ql_priv l)"
  shows "rx_frame (ql_priv l) (ql_priv (sring_rxq_push_loop recv blocking l)) \<and>
    ql_guest (sring_rxq_push_loop recv blocking l) = []"
  using assms
proof (induction recv blocking l rule: sring_rxq_push_loop.induct)
  case (1 recv blocking l)
  obtain c l' where it: "sring_rxq_push_iter recv blocking l = (c, l')" by fastforce
  have l': "rx_frame (ql_priv l) (ql_priv l')" "ql_guest l' = []" "ql_prod l' = prod (ql_priv l')"
    using it "1.prems"
    by (auto simp: sring_rxq_push_iter_def sring_rx_more_quiet Let_def set_kick_def
        split: prod.splits if_splits)
  show ?case
  proof (cases c)
    case True
    then show ?thesis
      using "1.IH" [OF it [symmetric] True l'(2,3)] it rx_frame_trans [OF l'(1)]
      by (subst (1 2) sring_rxq_push_loop.simps) simp
  next
    case False
    then show ?thesis using it l' by (subst (1 2) sring_rxq_push_loop.simps) simp
  qed
qed

lemma sring_rxq_finish_quiet:
  assumes "ql_guest l = []"
  shows "ql_priv (sring_rxq_finish l)
    = (if 0 < ql_count l then (ql_priv l)\<lparr>cons := ql_cons l\<rparr> else ql_priv l)"
    and "q_notify (ql_queue (sring_rxq_finish l))
      \<longleftrightarrow> (if 0 < ql_count l then intr_enabled (ql_priv l) \<noteq> 0 else q_notify (ql_queue l))"
  using assms by (simp_all add: sring_rxq_finish_def Let_def guest_step_def)

text \<open>The receive queue after a call: a prefix of the pending buffers has moved to the
  completed ones.\<close>

lemma map_ring_slice:
  "length d = 2 ^ k \<Longrightarrow> map f (ring_slice d (mask k) a n) = ring_slice (map f d) (mask k) a n"
  by (simp add: ring_slice_def ring_idx_less)

lemma rx_frame_keys:
  assumes "rx_frame r r'" "ring_inv k r"
  shows "ring_inv k r'" "map rxd_key (completed r') = map rxd_key (completed r)"
    "map rxd_key (pending r') = map rxd_key (pending r)"
proof -
  have "length (desc r') = length (desc r)"
    using assms(1) by (metis rx_frame_def length_map)
  then show inv: "ring_inv k r'" using assms by (simp add: rx_frame_def ring_inv_def)
  show "map rxd_key (completed r') = map rxd_key (completed r)"
    "map rxd_key (pending r') = map rxd_key (pending r)"
    using assms inv
    by (simp_all add: completed_def pending_def ring_inv_def map_ring_slice rx_frame_def)
qed

lemma sring_rxq_push_quiet:
  assumes inv: "ring_inv k priv"
    and l: "l = sring_rxq_push recv can [] be w rxq priv"
  shows "ring_inv k (ql_priv l) \<and> clear (ql_priv l) = clear priv \<and> prod (ql_priv l) = prod priv \<and>
    (0 < ql_count l \<longrightarrow> (q_notify (ql_queue l) \<longleftrightarrow> intr_enabled priv \<noteq> 0)) \<and>
    (\<exists>n \<le> length (pending priv).
      map rxd_key (completed (ql_priv l))
        = map rxd_key (completed priv) @ take n (map rxd_key (pending priv)) \<and>
      map rxd_key (pending (ql_priv l)) = drop n (map rxd_key (pending priv)))"
proof -
  define p0 where "p0 = (if kick_enabled priv \<noteq> 0 then sring_notification priv False else priv)"
  define l0 where "l0 = queue_start can [] be w rxq (prod p0) (cons p0) p0"
  define l1 where "l1 = sring_rxq_push_loop recv (can \<noteq> None) l0"
  have l1: "l = sring_rxq_finish l1"
    by (simp only: l sring_rxq_push_def Let_def l1_def l0_def p0_def)
  have p0: "rx_frame priv p0" "ring_inv k p0"
    using inv by (simp_all add: p0_def rx_frame_def sring_notification_def)
  have "rx_frame p0 (ql_priv l1)" and guest: "ql_guest l1 = []"
    using sring_rxq_push_loop_quiet [of l0 recv "can \<noteq> None"]
    by (simp_all add: l1_def l0_def queue_start_def)
  then have fr: "rx_frame priv (ql_priv l1)" using p0 rx_frame_trans by blast
  have li: "loop_inv k l1"
    unfolding l1_def l0_def using p0(2) by (intro sring_rxq_push_loop_inv queue_start_inv) simp_all
  note keys = rx_frame_keys [OF fr inv]
  have cnt: "ql_count l = ql_count l1"
    by (simp add: l1 sring_rxq_finish_def Let_def guest_step_def split: list.split)
  show ?thesis
  proof (cases "0 < ql_count l1")
    case True
    have p: "ql_priv l = (ql_priv l1)\<lparr>cons := ql_cons l1\<rparr>"
      using True sring_rxq_finish_quiet(1) [OF guest] by (simp add: l1)
    let ?n = "dist (cons (ql_priv l1)) (ql_cons l1)"
    have n: "?n \<le> length (pending priv)"
      using li fr by (simp add: loop_inv_def rx_frame_def)
    have "q_notify (ql_queue l) \<longleftrightarrow> intr_enabled priv \<noteq> 0"
      using True fr sring_rxq_finish_quiet(2) [OF guest] by (simp add: l1 rx_frame_def)
    then show ?thesis
      using loop_inv_publish [OF li] keys fr p n
      by (auto simp: rx_frame_def take_map [symmetric] drop_map [symmetric] intro!: exI [of _ ?n])
  next
    case False
    have p: "ql_priv l = ql_priv l1"
      using False sring_rxq_finish_quiet(1) [OF guest] by (simp add: l1)
    show ?thesis
      using keys fr p cnt False by (auto simp: rx_frame_def intro!: exI [of _ 0])
  qed
qed

end
