(* ===== verification/Sring_Contract.thy ===== *)
theory Sring_Contract
  imports Sring_Backend
begin

text \<open>
  What the \<open>sring\<close> device promises: both of its queues satisfy the hand-off
  contract, draining refines the list-level reference, interrupts fire exactly when
  the requested number of completions is reached, and the context stays well formed
  whatever a well-behaved guest does in the meantime.
\<close>

section \<open>The operations of the contract\<close>

definition tx_publish :: "u8 list \<times> bpfhv_tx_context \<Rightarrow> sring_tx_context \<Rightarrow> sring_tx_context" where
  "tx_publish i r =
    (case sring_txp (fst i) (of_nat (length (fst i))) (snd i) r of
       None \<Rightarrow> r | Some (_, _, r') \<Rightarrow> r')"

definition tx_ok :: "u8 list \<times> bpfhv_tx_context \<Rightarrow> bool" where
  "tx_ok i \<longleftrightarrow> num_bufs (snd i) = 1"

definition tx_reap :: "sring_tx_context \<Rightarrow> bpfhv_tx_context \<times> sring_tx_context" where
  "tx_reap r = (case sring_txc zero_ctx r of (_, ctx, r') \<Rightarrow> (ctx, r'))"

definition tx_hv :: "'w io_fun \<Rightarrow> sring_tx_context \<Rightarrow> sring_tx_context \<Rightarrow> bool" where
  "tx_hv send r r' \<longleftrightarrow> (\<exists>can be w txq. r' = ql_priv (sring_txq_drain send can [] be w txq r))"

definition ring_room :: "nat \<Rightarrow> ('d, 'a) ring_scheme \<Rightarrow> nat" where
  "ring_room k r = 2 ^ k - dist (clear r) (prod r)"

definition rx_publish :: "bpfhv_buf \<Rightarrow> sring_rx_context \<Rightarrow> sring_rx_context" where
  "rx_publish b r = snd (snd (sring_rxp (zero_ctx\<lparr>num_bufs := 1, bufs := b # replicate 63 zero_buf\<rparr>) r))"

text \<open>The packet allocator of the driver, when it succeeds, leaves the buffer list
  alone.\<close>

definition rx_reap :: "sring_rx_context \<Rightarrow> bpfhv_rx_context \<times> sring_rx_context" where
  "rx_reap r = (case sring_rxc (\<lambda>ctx. (0, ctx)) zero_ctx r of (_, ctx, r') \<Rightarrow> (ctx, r'))"

definition rx_hv :: "'w io_fun \<Rightarrow> sring_rx_context \<Rightarrow> sring_rx_context \<Rightarrow> bool" where
  "rx_hv recv r r' \<longleftrightarrow> (\<exists>can be w rxq. r' = ql_priv (sring_rxq_push recv can [] be w rxq r))"

abbreviation sring_tx_run ::
  "nat \<Rightarrow> 'w io_fun \<Rightarrow> sring_tx_context \<Rightarrow> sring_tx_context \<Rightarrow> (u8 list \<times> bpfhv_tx_context) list
    \<Rightarrow> bpfhv_tx_context list \<Rightarrow> bool" where
  "sring_tx_run k send \<equiv> handoff_run (\<lambda>r. 0 < ring_room k r) tx_ok tx_publish (tx_hv send)
     (\<lambda>r. completed r \<noteq> []) tx_reap"

abbreviation sring_rx_run ::
  "nat \<Rightarrow> 'w io_fun \<Rightarrow> sring_rx_context \<Rightarrow> sring_rx_context \<Rightarrow> bpfhv_buf list
    \<Rightarrow> bpfhv_rx_context list \<Rightarrow> bool" where
  "sring_rx_run k recv \<equiv> handoff_run (\<lambda>r. 0 < ring_room k r) (\<lambda>_. True) rx_publish (rx_hv recv)
     (\<lambda>r. completed r \<noteq> []) rx_reap"

section \<open>Transmit: the laws\<close>

lemma tx_publish_push:
  assumes "tx_ok i"
  obtains d where "tx_publish i r = ring_push d r" "txd_key d = buf_key (bufs (snd i) ! 0)"
proof -
  have "unat (of_nat (length (fst i)) :: u32) \<le> length (fst i)"
    by (simp add: unat_of_nat)
  then obtain m where m: "sring_mark_packet (fst i) (of_nat (length (fst i))) = Some m"
    using mark_packet_fun_le by (fastforce simp: sring_mark_packet_def)
  let ?b = "bufs (snd i) ! 0"
  show ?thesis
  proof (rule that)
    show "tx_publish i r = ring_push \<lparr>txd_cookie = buf_cookie ?b, txd_paddr = buf_paddr ?b,
        txd_len = buf_len ?b, txd_mark = m\<rparr> r"
      using sring_txp_ok [OF _ m, of "snd i" r] assms by (simp add: tx_publish_def tx_ok_def)
    show "txd_key \<lparr>txd_cookie = buf_cookie ?b, txd_paddr = buf_paddr ?b,
        txd_len = buf_len ?b, txd_mark = m\<rparr> = buf_key ?b"
      by (simp add: txd_key_def buf_key_def)
  qed
qed

lemma ring_room_pos: "0 < ring_room k r \<longleftrightarrow> dist (clear r) (prod r) < 2 ^ k"
  by (simp add: ring_room_def)

lemma ring_room_push:
  "ring_inv k r \<Longrightarrow> 0 < ring_room k r \<Longrightarrow> Suc (ring_room k (ring_push d r)) = ring_room k r"
  by (simp add: ring_room_def push_dist)

lemma tx_hv_shape:
  assumes "ring_inv k r" "tx_hv send r r'"
  shows "\<exists>n v. n \<le> length (pending r) \<and> r' = (ring_consume n r)\<lparr>kick_enabled := v\<rparr>"
proof -
  obtain can be w txq where r': "r' = ql_priv (sring_txq_drain send can [] be w txq r)"
    using assms(2) by (auto simp: tx_hv_def)
  obtain n c be' w' where sp: "drain_spec send be w 0 (pending r) = (n, c, be', w')"
    by (metis prod_cases4)
  have q: "n \<le> length (pending r)"
    "\<exists>v. r' = (if 0 < c then ring_consume n r else r)\<lparr>kick_enabled := v\<rparr>"
    using sring_txq_drain_quiet [OF assms(1) sp refl] r' by blast+
  moreover have "r = ring_consume 0 r" by (simp add: ring_consume_def)
  ultimately show ?thesis by (metis le0)
qed

lemma tx_hv_queues:
  assumes "ring_inv k r" "tx_hv send r r'"
  shows "ring_inv k r'" "ring_room k r' = ring_room k r"
    "\<exists>n \<le> length (pending r). completed r' = completed r @ take n (pending r) \<and>
      pending r' = drop n (pending r)"
proof -
  obtain n v where n: "n \<le> dist (cons r) (prod r)" "r' = (ring_consume n r)\<lparr>kick_enabled := v\<rparr>"
    using tx_hv_shape [OF assms] by auto
  show "ring_inv k r'" using ring_consume_inv [OF assms(1) n(1)] n(2) by simp
  show "ring_room k r' = ring_room k r" using n(2) by (simp add: ring_room_def ring_consume_def)
  show "\<exists>n \<le> length (pending r). completed r' = completed r @ take n (pending r) \<and>
      pending r' = drop n (pending r)"
    using ring_consume_queues [OF assms(1) n(1)] n by auto
qed

lemma tx_reap_laws:
  assumes "ring_inv k r" "completed r \<noteq> []" "tx_reap r = (ctx, r')"
  shows "ring_inv k r'" "map txd_key (completed r) = buf_key (bufs ctx ! 0) # map txd_key (completed r')"
    "pending r' = pending r" "ring_room k r' = Suc (ring_room k r)"
proof -
  obtain d ds where d: "completed r = d # ds" using assms(2) by (cases "completed r") auto
  obtain ret where t: "sring_txc zero_ctx r = (ret, ctx, r')"
    using assms(3) by (auto simp: tx_reap_def split: prod.splits)
  note st = sring_txc_step [OF assms(1) d _ t]
  show "ring_inv k r'" "map txd_key (completed r) = buf_key (bufs ctx ! 0) # map txd_key (completed r')"
    "pending r' = pending r"
    using st d by simp_all
  have "dist (clear r) (prod r) \<le> 2 ^ k" using assms(1) by (simp add: ring_inv_def)
  then show "ring_room k r' = Suc (ring_room k r)" using st(9) by (simp add: ring_room_def)
qed

interpretation sring_tx: handoff
  "ring_inv k" "\<lambda>r. map txd_key (pending r)" "\<lambda>r. map txd_key (completed r)" "ring_room k"
  tx_ok "\<lambda>i. buf_key (bufs (snd i) ! 0)" tx_publish "tx_hv send" tx_reap
  "\<lambda>ctx. buf_key (bufs ctx ! 0)"
  for k :: nat and send :: "'w io_fun"
proof (unfold_locales, goal_cases)
  case (1 s i)
  then show ?case by (metis ring_push_inv ring_room_pos tx_publish_push)
next
  case (2 s i)
  obtain d where "tx_publish i s = ring_push d s" "txd_key d = buf_key (bufs (snd i) ! 0)"
    using tx_publish_push [OF 2(3)] .
  then show ?case using 2 ring_push_queues(2) [of k s d] by (simp add: ring_room_pos)
next
  case (3 s i)
  obtain d where "tx_publish i s = ring_push d s" using tx_publish_push [OF 3(3)] .
  then show ?case using 3 ring_push_queues(1) [of k s d] by (simp add: ring_room_pos)
next
  case (4 s i)
  then show ?case by (metis ring_room_push tx_publish_push)
next
  case (5 s s')
  then show ?case by (rule tx_hv_queues)
next
  case (6 s s')
  then show ?case using tx_hv_queues(3) [OF 6] by (auto simp: take_map drop_map)
next
  case (7 s s')
  then show ?case by (rule tx_hv_queues)
next
  case (8 s out s')
  then show ?case using tx_reap_laws(1) [of k s out s'] by simp
next
  case (9 s out s')
  then show ?case using tx_reap_laws(2) [of k s out s'] by simp
next
  case (10 s out s')
  then show ?case using tx_reap_laws(3) [of k s out s'] by simp
next
  case (11 s out s')
  then show ?case using tx_reap_laws(4) [of k s out s'] by simp
qed

section \<open>Receive: the laws\<close>

lemma rx_publish_push: "rx_publish b r = ring_push (rx_desc_of b) r"
  by (simp add: rx_publish_def sring_rxp_def ctx_bufs_def BPFHV_MAX_RX_BUFS_def Let_def)

lemma rx_hv_queues:
  assumes "ring_inv k r" "rx_hv recv r r'"
  shows "ring_inv k r'" "ring_room k r' = ring_room k r"
    "\<exists>n \<le> length (map rxd_key (pending r)).
      map rxd_key (completed r') = map rxd_key (completed r) @ take n (map rxd_key (pending r)) \<and>
      map rxd_key (pending r') = drop n (map rxd_key (pending r))"
proof -
  obtain can be w rxq where r': "r' = ql_priv (sring_rxq_push recv can [] be w rxq r)"
    using assms(2) by (auto simp: rx_hv_def)
  note q = sring_rxq_push_quiet [OF assms(1) refl, of recv can be w rxq, folded r']
  show "ring_inv k r'" "ring_room k r' = ring_room k r" using q by (simp_all add: ring_room_def)
  show "\<exists>n \<le> length (map rxd_key (pending r)).
      map rxd_key (completed r') = map rxd_key (completed r) @ take n (map rxd_key (pending r)) \<and>
      map rxd_key (pending r') = drop n (map rxd_key (pending r))"
    using q by simp
qed

lemma rx_reap_laws:
  assumes "ring_inv k r" "completed r \<noteq> []" "rx_reap r = (ctx, r')"
  shows "ring_inv k r'"
    "map rxd_key (completed r) = rxbuf_key (bufs ctx ! 0) # map rxd_key (completed r')"
    "pending r' = pending r" "ring_room k r' = Suc (ring_room k r)"
proof -
  obtain d ds where d: "completed r = d # ds" using assms(2) by (cases "completed r") auto
  obtain ret where t: "sring_rxc (\<lambda>ctx. (0, ctx)) zero_ctx r = (ret, ctx, r')"
    using assms(3) by (auto simp: rx_reap_def split: prod.splits)
  note st = sring_rxc_step [OF assms(1) d _ t]
  have ne: "clear r \<noteq> cons r" using assms(2) by simp
  have "slot r (clear r) = d" using ring_pop_queues(1) [OF assms(1) ne] d by simp
  then have "rxbuf_key (bufs ctx ! 0) = rxd_key d"
    using t ne by (auto simp: sring_rxc_def Let_def)
  then show "ring_inv k r'" "pending r' = pending r"
    "map rxd_key (completed r) = rxbuf_key (bufs ctx ! 0) # map rxd_key (completed r')"
    using st d by simp_all
  have "dist (clear r) (prod r) \<le> 2 ^ k" using assms(1) by (simp add: ring_inv_def)
  then show "ring_room k r' = Suc (ring_room k r)" using st(5) by (simp add: ring_room_def)
qed

interpretation sring_rx: handoff
  "ring_inv k" "\<lambda>r. map rxd_key (pending r)" "\<lambda>r. map rxd_key (completed r)" "ring_room k"
  "\<lambda>_. True" rxbuf_key rx_publish "rx_hv recv" rx_reap "\<lambda>ctx. rxbuf_key (bufs ctx ! 0)"
  for k :: nat and recv :: "'w io_fun"
proof (unfold_locales, goal_cases)
  case (1 s i)
  then show ?case by (simp add: rx_publish_push ring_push_inv ring_room_pos)
next
  case (2 s i)
  then show ?case by (simp add: rx_publish_push ring_push_queues(2) ring_room_pos)
next
  case (3 s i)
  then show ?case by (simp add: rx_publish_push ring_push_queues(1) ring_room_pos)
next
  case (4 s i)
  then show ?case by (simp add: rx_publish_push ring_room_push)
next
  case (5 s s')
  then show ?case by (rule rx_hv_queues)
next
  case (6 s s')
  then show ?case by (rule rx_hv_queues)
next
  case (7 s s')
  then show ?case by (rule rx_hv_queues)
next
  case (8 s out s')
  then show ?case using rx_reap_laws(1) [of k s out s'] by simp
next
  case (9 s out s')
  then show ?case using rx_reap_laws(2) [of k s out s'] by simp
next
  case (10 s out s')
  then show ?case using rx_reap_laws(3) [of k s out s'] by simp
next
  case (11 s out s')
  then show ?case using rx_reap_laws(4) [of k s out s'] by simp
qed

section \<open>Interrupt requests\<close>

text \<open>What \<open>sring_txi\<close> leaves behind when it asks for an interrupt.\<close>

lemma sring_txi_armed:
  assumes "sring_txi (\<lambda>r. r) ctx priv = (0, priv')" "min_completed_bufs ctx \<noteq> 0"
  shows "priv' = priv\<lparr>intr_at := clear priv + min_completed_bufs ctx - 1\<rparr>"
    and "dist (clear priv) (cons priv) < unat (min_completed_bufs ctx)"
  using assms
  by (auto simp: sring_txi_def Let_def dist_def word_le_nat_alt split: if_splits)

lemma dist_intr_at:
  fixes clr c m :: u32
  assumes "m \<noteq> 0" "dist clr c < unat m"
  shows "dist c (clr + m - 1) = unat m - 1 - dist clr c"
proof -
  have m: "1 \<le> m" using assms(1) by (simp add: word_le_nat_alt unat_gt_0 Suc_le_eq)
  have "dist clr (clr + m - 1) = unat m - 1"
    using m by (simp add: dist_def unat_sub)
  moreover have "dist clr c \<le> unat m - 1" using assms(2) by linarith
  ultimately show ?thesis using dist_trans [of clr c "clr + m - 1"] by simp
qed

lemma completed_consume_length:
  "ring_inv k r \<Longrightarrow> n \<le> length (pending r) \<Longrightarrow>
    length (completed ((ring_consume n r)\<lparr>kick_enabled := v\<rparr>)) = dist (clear r) (cons r) + n"
  using ring_consume_queues(1) [of k r n] by simp

section \<open>Properties\<close>

text \<open>A ring of two slots with one pending descriptor, for the witnesses.\<close>

definition tx_sample :: sring_tx_context where
  "tx_sample = \<lparr>prod = 1, cons = 0, kick_enabled = 1, qmask = 1, clear = 0,
     desc = [\<lparr>txd_cookie = 7, txd_paddr = 0x1800, txd_len = 64, txd_mark = 13\<rparr>,
             \<lparr>txd_cookie = 0, txd_paddr = 0, txd_len = 0, txd_mark = 0\<rparr>], intr_at = 5\<rparr>"

definition send_all :: "unit io_fun" where "send_all iov w = (64, False, w)"

lemma tx_sample_inv: "ring_inv 1 tx_sample"
  by (simp add: ring_inv_def tx_sample_def dist_def)

lemma tx_sample_pending:
  "pending tx_sample = [\<lparr>txd_cookie = 7, txd_paddr = 0x1800, txd_len = 64, txd_mark = 13\<rparr>]"
  by (simp add: pending_def tx_sample_def dist_def ring_slice_def ring_idx_def)

lemma tx_sample_spec:
  "drain_spec send_all mem_sample () 0 (pending tx_sample)
    = (1, 1, snd (translate_addr mem_sample 0x1800 64), ())"
  by (simp add: tx_sample_pending send_all_def translate_addr_def mem_sample_def
      region_sample_def region_match_def upt_rec Let_def)

text \<open>C3: with a quiet guest, draining computes what the list-level
  reference computes on the pending descriptors, and when at least one packet was
  sent the descriptors the reference consumed move, in order, from the pending to
  the completed queue; when none was sent (all consumed ones were invalid) the
  queues do not change.\<close>

theorem sring_txq_drain_refines:
  assumes "ring_inv k priv" "drain_spec send be w 0 (pending priv) = (n, c, be', w')"
    and "l = sring_txq_drain send can [] be w txq priv"
  shows "ql_count l = c \<and> ql_be l = be' \<and> ql_world l = w' \<and> ring_inv k (ql_priv l) \<and>
    completed (ql_priv l) = completed priv @ take (if 0 < c then n else 0) (pending priv) \<and>
    pending (ql_priv l) = drop (if 0 < c then n else 0) (pending priv)"
proof -
  obtain v where q: "ql_count l = c" "ql_be l = be'" "ql_world l = w'"
    "n \<le> dist (cons priv) (prod priv)"
    "ql_priv l = (if 0 < c then ring_consume n priv else priv)\<lparr>kick_enabled := v\<rparr>"
    using sring_txq_drain_quiet [OF assms] by auto
  then show ?thesis
    using assms(1) ring_consume_inv [OF assms(1) q(4)] ring_consume_queues [OF assms(1) q(4)]
    by simp
qed

text \<open>Witness of C3.\<close>

theorem sring_txq_drain_refines_witness:
  "length (completed (ql_priv
      (sring_txq_drain send_all (Some True) [] mem_sample () queue_sample tx_sample))) = 1"
  using sring_txq_drain_refines [OF tx_sample_inv tx_sample_spec refl, of "Some True" queue_sample]
  by (auto simp: tx_sample_pending tx_sample_def dist_def)

text \<open>C4: after \<open>sring_txi\<close> has asked for an interrupt at a number of completed
  buffers that is not reached yet, a drain that completes something notifies the
  guest exactly when that number is reached.\<close>

theorem sring_tx_interrupt:
  assumes "ring_inv k priv" "min_completed_bufs ctx \<noteq> 0"
    and "sring_txi (\<lambda>r. r) ctx priv = (0, priv')"
    and "l = sring_txq_drain send can [] be w txq priv'" "0 < ql_count l"
  shows "q_notify (ql_queue l)
    \<longleftrightarrow> unat (min_completed_bufs ctx) \<le> length (completed (ql_priv l))"
proof -
  let ?m = "min_completed_bufs ctx"
  have p: "priv' = priv\<lparr>intr_at := clear priv + ?m - 1\<rparr>" "dist (clear priv) (cons priv) < unat ?m"
    using sring_txi_armed [OF assms(3,2)] .
  have inv: "ring_inv k priv'" using assms(1) p by (simp add: ring_inv_def)
  obtain n c be' w' where sp: "drain_spec send be w 0 (pending priv') = (n, c, be', w')"
    by (metis prod_cases4)
  obtain v where q: "ql_count l = c" "n \<le> length (pending priv')"
    "ql_priv l = (if 0 < c then ring_consume n priv' else priv')\<lparr>kick_enabled := v\<rparr>"
    "q_notify (ql_queue l) \<longleftrightarrow> 0 < c \<and> dist (cons priv') (intr_at priv') < n"
    using sring_txq_drain_quiet [OF inv sp assms(4)] by auto
  have "length (completed (ql_priv l)) = dist (clear priv) (cons priv) + n"
    using q assms(5) completed_consume_length [OF inv q(2), of v] p by simp
  moreover have "dist (cons priv') (intr_at priv') = unat ?m - 1 - dist (clear priv) (cons priv)"
    using dist_intr_at [OF assms(2) p(2)] p(1) by simp
  ultimately show ?thesis using q p(2) assms(5) by auto
qed

text \<open>Witness of C4: an interrupt is requested for the first completion.\<close>

theorem sring_tx_interrupt_witness:
  "q_notify (ql_queue (sring_txq_drain send_all None [] mem_sample () queue_sample
      (tx_sample\<lparr>intr_at := 0\<rparr>)))
    \<longleftrightarrow> unat (min_completed_bufs (zero_ctx\<lparr>min_completed_bufs := 1\<rparr>))
      \<le> length (completed (ql_priv (sring_txq_drain send_all None [] mem_sample () queue_sample
          (tx_sample\<lparr>intr_at := 0\<rparr>))))"
proof (rule sring_tx_interrupt [OF tx_sample_inv _ _ refl])
  show "sring_txi (\<lambda>r. r) (zero_ctx\<lparr>min_completed_bufs := 1\<rparr>) tx_sample
      = (0, tx_sample\<lparr>intr_at := 0\<rparr>)"
    by (simp add: sring_txi_def tx_sample_def)
  have "pending (tx_sample\<lparr>intr_at := 0\<rparr>) = pending tx_sample" by (simp add: pending_def)
  moreover have "ring_inv 1 (tx_sample\<lparr>intr_at := 0\<rparr>)"
    using tx_sample_inv by (simp add: ring_inv_def)
  ultimately show "0 < ql_count (sring_txq_drain send_all None [] mem_sample () queue_sample
      (tx_sample\<lparr>intr_at := 0\<rparr>))"
    using sring_txq_drain_quiet [OF _ _ refl, of 1 "tx_sample\<lparr>intr_at := 0\<rparr>" send_all mem_sample "()"]
      tx_sample_spec by simp
qed simp

text \<open>C5: whatever a well-behaved guest does while the backend drains the
  transmit ring, the routine returns, the ring stays well formed, and at most 128
  packets are sent.\<close>

theorem sring_txq_drain_inv:
  assumes "ring_inv k priv" "\<forall>g \<in> set guest. guest_ok k g"
  shows "ring_inv k (ql_priv (sring_txq_drain send can guest be w txq priv)) \<and>
    ql_count (sring_txq_drain send can guest be w txq priv) \<le> 128"
proof -
  define p0 where "p0 = (if can \<noteq> None then sring_notification priv False else priv)"
  let ?l = "sring_txq_drain_loop send (can \<noteq> None)
    (queue_start can guest be w txq (prod p0) (cons p0) p0)"
  have "ring_inv k p0" using assms(1) by (simp add: p0_def)
  then have l: "loop_inv k ?l"
    using assms(2) by (intro sring_txq_drain_loop_inv queue_start_inv)
  have "sring_txq_drain send can guest be w txq priv = sring_txq_finish ?l"
    by (simp only: sring_txq_drain_def Let_def p0_def)
  then show ?thesis using sring_txq_finish_inv [OF l] l by (simp add: loop_inv_def)
qed

text \<open>A guest that publishes when there is room, and one that takes completed buffers
  back, are well behaved.\<close>

lemma guest_ok_push: "guest_ok k (\<lambda>r. if 0 < ring_room k r then ring_push d r else r)"
  unfolding guest_ok_def
proof (intro allI impI)
  fix r :: "('a, 'b) ring_scheme"
  assume inv: "ring_inv k r"
  let ?g = "if 0 < ring_room k r then ring_push d r else r"
  have "pending ?g = pending r @ (if 0 < ring_room k r then [d] else [])"
    using inv ring_push_queues(2) [OF inv, of d] by (simp add: ring_room_pos)
  then show "ring_inv k ?g \<and> cons ?g = cons r \<and> kick_enabled ?g = kick_enabled r \<and>
      (\<exists>ds. pending ?g = pending r @ ds)"
    using inv ring_push_inv [OF inv] by (auto simp: ring_room_pos)
qed

lemma guest_ok_reap: "guest_ok k (\<lambda>r. if clear r \<noteq> cons r then ring_pop r else r)"
  unfolding guest_ok_def
proof (intro allI impI)
  fix r :: "('a, 'b) ring_scheme"
  assume inv: "ring_inv k r"
  let ?g = "if clear r \<noteq> cons r then ring_pop r else r"
  have "pending ?g = pending r @ []"
    using ring_pop_queues(2) [OF inv] by simp
  then show "ring_inv k ?g \<and> cons ?g = cons r \<and> kick_enabled ?g = kick_enabled r \<and>
      (\<exists>ds. pending ?g = pending r @ ds)"
    using inv ring_pop_inv [OF inv] by (auto simp: ring_pop_def)
qed

text \<open>Witness of C5: the guest publishes one more buffer during the drain.\<close>

theorem sring_txq_drain_inv_witness:
  "ring_inv 1 (ql_priv (sring_txq_drain send_all (Some True)
      [\<lambda>r. if 0 < ring_room 1 r then ring_push (desc tx_sample ! 0) r else r] mem_sample ()
      queue_sample tx_sample)) \<and>
    ql_count (sring_txq_drain send_all (Some True)
      [\<lambda>r. if 0 < ring_room 1 r then ring_push (desc tx_sample ! 0) r else r] mem_sample ()
      queue_sample tx_sample) \<le> 128"
  by (rule sring_txq_drain_inv [OF tx_sample_inv]) (simp add: guest_ok_push)

text \<open>C7: \<open>sring_rxi\<close> either finds enough completed buffers or asks for an
  interrupt, and a later call that fills at least one buffer notifies the guest
  exactly in the second case.\<close>

theorem sring_rx_interrupt:
  assumes "ring_inv k priv" "sring_rxi (\<lambda>r. r) ctx priv = (ret, priv')"
    and "l = sring_rxq_push recv can [] be w rxq priv'" "0 < ql_count l"
  shows "(q_notify (ql_queue l) \<longleftrightarrow> ret = 0) \<and>
    (ret = 1 \<longleftrightarrow> unat (min_completed_bufs ctx) \<le> length (completed priv))"
proof -
  have p: "ret = (if unat (min_completed_bufs ctx) \<le> dist (clear priv) (cons priv) then 1 else 0)"
    "priv' = priv\<lparr>intr_enabled := (if ret = 1 then 0 else 1)\<rparr>"
    using assms(2)
    by (auto simp: sring_rxi_def Let_def dist_def word_le_nat_alt split: if_splits)
  then have inv: "ring_inv k priv'" using assms(1) by (simp add: ring_inv_def)
  have "q_notify (ql_queue l) \<longleftrightarrow> intr_enabled priv' \<noteq> 0"
    using sring_rxq_push_quiet [OF inv assms(3)] assms(4) by blast
  then show ?thesis using p by auto
qed

text \<open>A receive ring with one posted buffer.\<close>

definition rx_sample :: sring_rx_context where
  "rx_sample = \<lparr>prod = 1, cons = 0, kick_enabled = 0, qmask = 1, clear = 0,
     desc = [\<lparr>rxd_cookie = 7, rxd_paddr = 0x1800, rxd_len = 64\<rparr>,
             \<lparr>rxd_cookie = 0, rxd_paddr = 0, rxd_len = 0\<rparr>], intr_enabled = 0\<rparr>"

lemma rx_sample_inv: "ring_inv 1 rx_sample"
  by (simp add: ring_inv_def rx_sample_def dist_def)

text \<open>One packet of 60 bytes arrives, then none.\<close>

definition recv_one :: "bool io_fun" where
  "recv_one iov w = (if w then (60, False, False) else (-1, True, False))"

lemma rx_sample_push:
  "ql_count (sring_rxq_push recv_one None [] mem_sample True queue_sample
      (rx_sample\<lparr>intr_enabled := 1\<rparr>)) = 1"
  by (simp add: sring_rxq_push_def queue_start_def rx_sample_def sring_rxq_push_loop.simps
      sring_rxq_push_iter_def sring_rx_more_def BPFHV_BE_RX_BUDGET_def Let_def slot_def ring_idx_def
      translate_addr_def mem_sample_def region_sample_def region_match_def upt_rec recv_one_def
      set_rx_len_def set_slot_def sring_rxq_finish_def guest_step_def)

text \<open>Witness of C7.\<close>

theorem sring_rx_interrupt_witness:
  "(q_notify (ql_queue (sring_rxq_push recv_one None [] mem_sample True queue_sample
        (rx_sample\<lparr>intr_enabled := 1\<rparr>))) \<longleftrightarrow> (0::int) = 0) \<and>
    ((0::int) = 1 \<longleftrightarrow> unat (min_completed_bufs (zero_ctx\<lparr>min_completed_bufs := 1\<rparr>))
      \<le> length (completed rx_sample))"
proof (rule sring_rx_interrupt [OF rx_sample_inv _ refl])
  show "sring_rxi (\<lambda>r. r) (zero_ctx\<lparr>min_completed_bufs := 1\<rparr>) rx_sample
      = (0, rx_sample\<lparr>intr_enabled := 1\<rparr>)"
    by (simp add: sring_rxi_def rx_sample_def)
qed (simp add: rx_sample_push)



text \<open>C1: over any sequence of publications into free slots, drains and completion
  calls that starts from a freshly initialised transmit context, the buffers come back
  exactly once, in the order in which they were published, with the cookie, address
  and length they were published with, and the context stays well formed.\<close>

theorem sring_tx_fifo:
  assumes "k < 32" "sring_tx_ctx_init (2 ^ k) = Some r0"
    and "sring_tx_run k send r0 r ins outs"
  shows "map (\<lambda>ctx. buf_key (bufs ctx ! 0)) outs
      = take (length outs) (map (\<lambda>i. buf_key (bufs (snd i) ! 0)) ins) \<and>
    length outs \<le> length ins \<and> ring_inv k r \<and>
    length ins = length outs + length (completed r) + length (pending r)"
proof -
  have r0: "ring_inv k r0" "completed r0 = []" "pending r0 = []"
    using sring_tx_ctx_init_inv [OF assms(1)] assms(2) by force+
  have run: "handoff_run (\<lambda>r. 0 < ring_room k r) tx_ok tx_publish (tx_hv send)
      (\<lambda>r. map txd_key (completed r) \<noteq> []) tx_reap r0 r ins outs"
    using assms(3) by simp
  have f: "ring_inv k r" "map (\<lambda>ctx. buf_key (bufs ctx ! 0)) outs @ map txd_key (completed r)
      @ map txd_key (pending r) = map (\<lambda>i. buf_key (bufs (snd i) ! 0)) ins"
    using sring_tx.run_fifo [OF run r0(1)] r0 by simp_all
  have "length ins = length outs + length (completed r) + length (pending r)"
    using arg_cong [OF f(2), of length] by simp
  then show ?thesis using sring_tx.run_prefix [OF run r0(1)] r0 f(1) by simp
qed

text \<open>One buffer on its way through a ring of two slots.\<close>

definition tx_input :: "u8 list \<times> bpfhv_tx_context" where
  "tx_input = ([], zero_ctx\<lparr>num_bufs := 1, bufs := (bufs zero_ctx)[0 :=
     \<lparr>buf_cookie = 7, buf_paddr = 0x1800, buf_vaddr = 0, buf_len = 64\<rparr>]\<rparr>)"

lemma tx_run_sample:
  assumes "sring_tx_ctx_init (2 ^ 1) = Some r0"
  shows "\<exists>r ctx. sring_tx_run 1 send_all r0 r [tx_input] [ctx]"
proof -
  have r0: "ring_inv 1 r0" "completed r0 = []" "pending r0 = []" "clear r0 = prod r0"
    using sring_tx_ctx_init_inv [of 1] assms by force+
  then have room: "0 < ring_room 1 r0" by (simp add: ring_room_def)
  have ok: "tx_ok tx_input" by (simp add: tx_ok_def tx_input_def)
  obtain d where d: "tx_publish tx_input r0 = ring_push d r0"
      "txd_key d = buf_key (bufs (snd tx_input) ! 0)"
    using tx_publish_push [OF ok] .
  have dk: "txd_paddr d = 0x1800" "txd_len d = 64"
    using d(2) by (simp_all add: txd_key_def buf_key_def tx_input_def zero_ctx_def)
  have p1: "ring_inv 1 (ring_push d r0)" "pending (ring_push d r0) = [d]"
    using ring_push_inv [OF r0(1)] ring_push_queues [OF r0(1)] r0(3) room
    by (simp_all add: ring_room_pos)
  have sp: "drain_spec send_all mem_sample () 0 (pending (ring_push d r0))
      = (1, 1, snd (translate_addr mem_sample 0x1800 64), ())"
    using dk by (simp add: p1(2) send_all_def translate_addr_def mem_sample_def
      region_sample_def region_match_def upt_rec Let_def)
  define r2 where "r2 = ql_priv (sring_txq_drain send_all None [] mem_sample () queue_sample (ring_push d r0))"
  obtain v where "r2 = (ring_consume 1 (ring_push d r0))\<lparr>kick_enabled := v\<rparr>"
    using sring_txq_drain_quiet [OF p1(1) sp refl, of None queue_sample] by (auto simp: r2_def)
  then have c2: "completed r2 \<noteq> []"
    using ring_consume_queues(1) [OF p1(1), of 1] p1(2) length_pending [of "ring_push d r0"]
    by (simp del: completed_empty length_pending)
  have s1: "sring_tx_run 1 send_all r0 (tx_publish tx_input r0) ([] @ [tx_input]) []"
    by (rule run_publish [OF run_init]) (use room ok in simp_all)
  have "tx_hv send_all (tx_publish tx_input r0) r2"
    unfolding tx_hv_def r2_def d(1) by blast
  with s1 have s2: "sring_tx_run 1 send_all r0 r2 ([] @ [tx_input]) []" by (rule run_hv)
  obtain ctx r3 where "tx_reap r2 = (ctx, r3)" by fastforce
  with s2 c2 have "sring_tx_run 1 send_all r0 r3 ([] @ [tx_input]) ([] @ [ctx])"
    by (rule run_reap)
  then show ?thesis by auto
qed

text \<open>Witness of C1.\<close>

theorem sring_tx_fifo_witness:
  "\<exists>ctx :: bpfhv_tx_context. map (\<lambda>ctx. buf_key (bufs ctx ! 0)) [ctx]
    = take (length [ctx]) (map (\<lambda>i. buf_key (bufs (snd i) ! 0)) [tx_input])"
proof -
  obtain r0 where r0: "sring_tx_ctx_init (2 ^ 1) = Some r0"
    by (auto simp: sring_tx_ctx_init_def pow2_check_def)
  obtain r ctx where run: "sring_tx_run 1 send_all r0 r [tx_input] [ctx]"
    using tx_run_sample [OF r0] by blast
  have "map (\<lambda>ctx. buf_key (bufs ctx ! 0)) [ctx]
      = take (length [ctx]) (map (\<lambda>i. buf_key (bufs (snd i) ! 0)) [tx_input])"
    using sring_tx_fifo [OF _ r0 run] by simp
  then show ?thesis by blast
qed



end
