(* ===== verification/Sring_Kick.thy ===== *)
theory Sring_Kick
  imports Prelude
begin

text \<open>
  Guest-to-host notifications of the transmit ring at the granularity of single
  shared-memory accesses.  The guest stores \<open>prod\<close> and then loads \<open>kick_enabled\<close>
  (\<open>sring_txp\<close>); the backend sets \<open>kick_enabled\<close> and then loads \<open>prod\<close> again before it
  goes to sleep in \<open>poll\<close> (\<open>sring_txq_drain\<close>, \<open>process_packets_poll\<close>).  Both sides have
  a full barrier between the two accesses, so the steps interleave on a sequentially
  consistent memory.

  A kick is a write to the queue's event file descriptor; it stays readable until
  the backend drains it after \<open>poll\<close> returns.
\<close>

section \<open>States\<close>

text \<open>The guest is outside \<open>sring_txp\<close>, or has stored \<open>prod\<close> and has not yet loaded
  \<open>kick_enabled\<close>.\<close>

datatype guest_pc = GIdle | GPublished

text \<open>The backend: blocked in \<open>poll\<close>; woken, with the kick drained; inside the drain
  routine after the first load of \<open>prod\<close>; in its loop; about to enable kicks; about to
  load \<open>prod\<close> after that; about to disable kicks again; out of budget, about to call
  \<open>poll\<close> with a zero timeout; waiting for the network device to become writable.\<close>

datatype host_pc =
  HSleep | HWoken | HLoaded | HRun | HEnable | HRecheck | HRedisable | HAgain | HBlocked

record kick_state =
  k_prod :: u32
  k_cons :: u32
  k_kick :: bool
  k_fd :: bool
  k_gpc :: guest_pc
  k_hpc :: host_pc
  k_hprod :: u32
  k_hcons :: u32

section \<open>Steps\<close>

inductive guest_kick_step :: "kick_state \<Rightarrow> kick_state \<Rightarrow> bool" where
  g_publish: "k_gpc s = GIdle \<Longrightarrow>
    guest_kick_step s (s\<lparr>k_prod := k_prod s + 1, k_gpc := GPublished\<rparr>)"
| g_kick: "k_gpc s = GPublished \<Longrightarrow> k_kick s \<Longrightarrow>
    guest_kick_step s (s\<lparr>k_fd := True, k_gpc := GIdle\<rparr>)"
| g_nokick: "k_gpc s = GPublished \<Longrightarrow> \<not> k_kick s \<Longrightarrow>
    guest_kick_step s (s\<lparr>k_gpc := GIdle\<rparr>)"

inductive host_kick_step :: "kick_state \<Rightarrow> kick_state \<Rightarrow> bool" where
  h_wake: "k_hpc s \<in> {HSleep, HAgain, HBlocked} \<Longrightarrow>
    host_kick_step s (s\<lparr>k_fd := False, k_hpc := HWoken\<rparr>)"
| h_load: "k_hpc s = HWoken \<Longrightarrow>
    host_kick_step s (s\<lparr>k_hprod := k_prod s, k_hcons := k_cons s, k_hpc := HLoaded\<rparr>)"
| h_disable: "k_hpc s = HLoaded \<Longrightarrow>
    host_kick_step s (s\<lparr>k_kick := False, k_hpc := HRun\<rparr>)"
| h_consume: "k_hpc s = HRun \<Longrightarrow> k_hcons s \<noteq> k_hprod s \<Longrightarrow>
    host_kick_step s (s\<lparr>k_hcons := k_hcons s + 1\<rparr>)"
| h_budget: "k_hpc s = HRun \<Longrightarrow> k_hcons s \<noteq> k_hprod s \<Longrightarrow>
    host_kick_step s (s\<lparr>k_cons := k_hcons s, k_hpc := HAgain\<rparr>)"
| h_block: "k_hpc s = HRun \<Longrightarrow> k_hcons s \<noteq> k_hprod s \<Longrightarrow>
    host_kick_step s (s\<lparr>k_cons := k_hcons s, k_hpc := HBlocked\<rparr>)"
| h_more: "k_hpc s = HRun \<Longrightarrow> k_hcons s = k_hprod s \<Longrightarrow> k_prod s \<noteq> k_hcons s \<Longrightarrow>
    host_kick_step s (s\<lparr>k_hprod := k_prod s\<rparr>)"
| h_nomore: "k_hpc s = HRun \<Longrightarrow> k_hcons s = k_hprod s \<Longrightarrow> k_prod s = k_hcons s \<Longrightarrow>
    host_kick_step s (s\<lparr>k_hpc := HEnable\<rparr>)"
| h_enable: "k_hpc s = HEnable \<Longrightarrow>
    host_kick_step s (s\<lparr>k_kick := True, k_hpc := HRecheck\<rparr>)"
| h_found: "k_hpc s = HRecheck \<Longrightarrow> k_prod s \<noteq> k_hcons s \<Longrightarrow>
    host_kick_step s (s\<lparr>k_hprod := k_prod s, k_hpc := HRedisable\<rparr>)"
| h_redisable: "k_hpc s = HRedisable \<Longrightarrow>
    host_kick_step s (s\<lparr>k_kick := False, k_hpc := HRun\<rparr>)"
| h_sleep: "k_hpc s = HRecheck \<Longrightarrow> k_prod s = k_hcons s \<Longrightarrow>
    host_kick_step s (s\<lparr>k_cons := k_hcons s, k_hpc := HSleep\<rparr>)"

text \<open>The processing thread starts with kicks enabled and goes to \<open>poll\<close> first.\<close>

definition kick_init :: "kick_state \<Rightarrow> bool" where
  "kick_init s \<longleftrightarrow> k_prod s = 0 \<and> k_cons s = 0 \<and> k_hcons s = 0 \<and> k_hprod s = 0 \<and>
     k_kick s \<and> \<not> k_fd s \<and> k_gpc s = GIdle \<and> k_hpc s = HSleep"

inductive kick_reach :: "kick_state \<Rightarrow> bool" where
  kick_reach_init: "kick_init s \<Longrightarrow> kick_reach s"
| kick_reach_guest: "kick_reach s \<Longrightarrow> guest_kick_step s s' \<Longrightarrow> kick_reach s'"
| kick_reach_host: "kick_reach s \<Longrightarrow> host_kick_step s s' \<Longrightarrow> kick_reach s'"

inductive_cases guest_kick_stepE: "guest_kick_step s s'"
inductive_cases host_kick_stepE: "host_kick_step s s'"

section \<open>Invariant\<close>

definition kick_inv :: "kick_state \<Rightarrow> bool" where
  "kick_inv s \<longleftrightarrow>
     (k_hpc s \<in> {HSleep, HRecheck, HRedisable} \<longrightarrow> k_kick s) \<and>
     (k_hpc s = HSleep \<longrightarrow> k_prod s \<noteq> k_hcons s \<longrightarrow> k_fd s \<or> k_gpc s = GPublished)"

lemma kick_inv_guest: "kick_inv s \<Longrightarrow> guest_kick_step s s' \<Longrightarrow> kick_inv s'"
  by (erule guest_kick_stepE) (auto simp: kick_inv_def)

lemma kick_inv_host: "kick_inv s \<Longrightarrow> host_kick_step s s' \<Longrightarrow> kick_inv s'"
  by (erule host_kick_stepE) (auto simp: kick_inv_def)

lemma kick_reach_inv: "kick_reach s \<Longrightarrow> kick_inv s"
proof (induction rule: kick_reach.induct)
  case (kick_reach_init s)
  then show ?case by (simp add: kick_init_def kick_inv_def)
qed (blast intro: kick_inv_guest kick_inv_host)+

section \<open>Properties\<close>


definition kick_start :: kick_state where
  "kick_start = \<lparr>k_prod = 0, k_cons = 0, k_kick = True, k_fd = False, k_gpc = GIdle,
    k_hpc = HSleep, k_hprod = 0, k_hcons = 0\<rparr>"

lemma kick_start_init: "kick_init kick_start"
  by (simp add: kick_init_def kick_start_def)


end
