(* ===== verification/Sring_Gso.thy ===== *)
theory Sring_Gso
  imports Sring_Backend
begin

text \<open>
  The \<open>sring_gso\<close> device: the split ring of \<open>sring\<close> with multi-descriptor packets,
  checksum and segmentation offloads.  Guest programs from
  \<open>proxy/sring_gso_progs.c\<close> (built with \<open>WITH_GSO\<close>), backend from
  \<open>proxy/sring_gso.c\<close>.

  A packet is a chain of descriptors that ends at the one with the EOP flag.  The
  backend collects a chain in an array of 65 scatter-gather entries on its stack; an
  access beyond the array is \<open>None\<close>.
\<close>

section \<open>Descriptors and contexts\<close>

definition SRING_DESC_F_EOP :: u16 where "SRING_DESC_F_EOP = 1"
definition SRING_DESC_F_NEEDS_CSUM :: u16 where "SRING_DESC_F_NEEDS_CSUM = 2"
definition VIRTIO_NET_HDR_F_NEEDS_CSUM :: u8 where "VIRTIO_NET_HDR_F_NEEDS_CSUM = 1"

text \<open>The transmit and the receive descriptor have the same fields.\<close>

record sring_gso_desc =
  gd_cookie :: u64
  gd_paddr :: u64
  gd_len :: u16
  gd_flags :: u16
  gd_csum_start :: u16
  gd_csum_offset :: u16
  gd_hdr_len :: u16
  gd_gso_size :: u16
  gd_gso_type :: u16

type_synonym sring_gso_tx_context = "sring_gso_desc tx_ring"
type_synonym sring_gso_rx_context = "sring_gso_desc rx_ring"

record virtio_net_hdr =
  vh_flags :: u8
  vh_gso_type :: u8
  vh_hdr_len :: u16
  vh_gso_size :: u16
  vh_csum_start :: u16
  vh_csum_offset :: u16

definition zero_gso_desc :: sring_gso_desc where
  "zero_gso_desc = \<lparr>gd_cookie = 0, gd_paddr = 0, gd_len = 0, gd_flags = 0, gd_csum_start = 0,
     gd_csum_offset = 0, gd_hdr_len = 0, gd_gso_size = 0, gd_gso_type = 0\<rparr>"

text \<open>A descriptor takes 32 bytes, the private part of a context 512.\<close>

definition sring_gso_rx_ctx_size :: "nat \<Rightarrow> nat" where
  "sring_gso_rx_ctx_size num_rx_bufs = sizeof_bpfhv_context + 512 + num_rx_bufs * 32"

definition sring_gso_tx_ctx_size :: "nat \<Rightarrow> nat" where
  "sring_gso_tx_ctx_size num_tx_bufs = sizeof_bpfhv_context + 512 + num_tx_bufs * 32"

definition sring_gso_rx_ctx_init :: "u64 \<Rightarrow> sring_gso_rx_context option" where
  "sring_gso_rx_ctx_init num_rx_bufs =
    (if pow2_check num_rx_bufs then
       Some \<lparr>prod = 0, cons = 0, kick_enabled = 1, qmask = ucast (num_rx_bufs - 1), clear = 0,
         desc = replicate (unat num_rx_bufs) zero_gso_desc, intr_enabled = 1\<rparr>
     else None)"

definition sring_gso_tx_ctx_init :: "u64 \<Rightarrow> sring_gso_tx_context option" where
  "sring_gso_tx_ctx_init num_tx_bufs =
    (if pow2_check num_tx_bufs then
       Some \<lparr>prod = 0, cons = 0, kick_enabled = 1, qmask = ucast (num_tx_bufs - 1), clear = 0,
         desc = replicate (unat num_tx_bufs) zero_gso_desc, intr_at = 0\<rparr>
     else None)"

definition is_eop :: "sring_gso_desc \<Rightarrow> bool" where
  "is_eop d \<longleftrightarrow> gd_flags d AND SRING_DESC_F_EOP \<noteq> 0"

section \<open>Transmit programs\<close>

text \<open>Publication overwrites cookie, address, length and flags of a slot; the length
  is truncated to 16 bits.  The offload fields are only written in the last
  descriptor.\<close>

definition gso_fill :: "bpfhv_buf \<Rightarrow> sring_gso_desc \<Rightarrow> sring_gso_desc" where
  "gso_fill b d = d\<lparr>gd_cookie := buf_cookie b, gd_paddr := buf_paddr b,
     gd_len := ucast (buf_len b), gd_flags := 0\<rparr>"

definition gso_push ::
  "bpfhv_buf \<Rightarrow> (sring_gso_desc, 'a) ring_scheme \<Rightarrow> (sring_gso_desc, 'a) ring_scheme" where
  "gso_push b r = ring_push (gso_fill b (slot r (prod r))) r"

definition gso_set_hdr :: "virtio_net_hdr \<Rightarrow> sring_gso_desc \<Rightarrow> sring_gso_desc" where
  "gso_set_hdr hdr d = d\<lparr>gd_csum_start := vh_csum_start hdr, gd_csum_offset := vh_csum_offset hdr,
     gd_hdr_len := vh_hdr_len hdr, gd_gso_size := vh_gso_size hdr,
     gd_gso_type := ucast (vh_gso_type hdr),
     gd_flags := (if vh_flags hdr AND VIRTIO_NET_HDR_F_NEEDS_CSUM \<noteq> 0
                  then SRING_DESC_F_EOP OR SRING_DESC_F_NEEDS_CSUM else SRING_DESC_F_EOP)\<rparr>"

text \<open>With \<open>num_bufs\<close> equal to 0 the program writes through an uninitialised
  pointer, which is \<open>None\<close>.  \<open>hdr\<close> is what the helper \<open>pkt_virtio_net_md_get\<close> returns
  for the packet.\<close>

definition sring_gso_txp ::
  "virtio_net_hdr \<Rightarrow> bpfhv_tx_context \<Rightarrow> sring_gso_tx_context
    \<Rightarrow> (int \<times> bpfhv_tx_context \<times> sring_gso_tx_context) option" where
  "sring_gso_txp hdr ctx priv =
    (if num_bufs ctx > BPFHV_MAX_TX_BUFS then Some (-1, ctx, priv)
     else
       let priv = fold gso_push (ctx_bufs ctx) priv in
       if num_bufs ctx = 0 then None
       else
         let last = prod priv - 1;
             priv = set_slot last (gso_set_hdr hdr (slot priv last)) priv;
             ctx = ctx\<lparr>oflags := kick_oflags priv\<rparr>
         in Some (0, ctx, priv))"

definition gso_buf_of :: "sring_gso_desc \<Rightarrow> bpfhv_buf \<Rightarrow> bpfhv_buf" where
  "gso_buf_of d b = b\<lparr>buf_paddr := gd_paddr d, buf_len := ucast (gd_len d), buf_cookie := gd_cookie d\<rparr>"

text \<open>The loop that takes one packet back; it stops after 64 descriptors even when
  no end of packet was seen.\<close>

fun gso_get_loop ::
  "nat \<Rightarrow> (sring_gso_desc, 'a) ring_scheme \<Rightarrow> u32 \<Rightarrow> nat \<Rightarrow> bpfhv_buf list \<Rightarrow> u32 \<times> nat \<times> bpfhv_buf list" where
  "gso_get_loop 0 priv clr i bs = (clr, i, bs)"
| "gso_get_loop (Suc n) priv clr i bs =
    (let d = slot priv clr;
         bs = bs[i := gso_buf_of d (bs ! i)] in
     if is_eop d then (clr + 1, i + 1, bs)
     else gso_get_loop n priv (clr + 1) (i + 1) bs)"

definition sring_gso_tx_get_one ::
  "bpfhv_tx_context \<Rightarrow> sring_gso_tx_context \<Rightarrow> bpfhv_tx_context \<times> sring_gso_tx_context" where
  "sring_gso_tx_get_one ctx priv =
    (let (clr, i, bs) = gso_get_loop (unat BPFHV_MAX_TX_BUFS) priv (clear priv) 0 (bufs ctx)
     in (ctx\<lparr>bufs := bs, num_bufs := of_nat i\<rparr>, priv\<lparr>clear := clr\<rparr>))"

definition sring_gso_txc ::
  "bpfhv_tx_context \<Rightarrow> sring_gso_tx_context \<Rightarrow> int \<times> bpfhv_tx_context \<times> sring_gso_tx_context" where
  "sring_gso_txc ctx priv =
    (if clear priv = cons priv then (0, ctx, priv)
     else let (ctx, priv) = sring_gso_tx_get_one ctx priv
       in (1, ctx\<lparr>oflags := 0\<rparr>, priv))"

definition sring_gso_txr ::
  "bpfhv_tx_context \<Rightarrow> sring_gso_tx_context \<Rightarrow> int \<times> bpfhv_tx_context \<times> sring_gso_tx_context" where
  "sring_gso_txr ctx priv =
    (let cons0 = cons priv; clear0 = clear priv in
     if clear priv = prod priv then (0, ctx, priv)
     else let (ctx, priv) = sring_gso_tx_get_one ctx priv;
              priv = (if clear_met_cons clear0 cons0 (clear priv)
                      then priv\<lparr>cons := clear priv\<rparr> else priv)
       in (1, ctx\<lparr>oflags := 0\<rparr>, priv))"

text \<open>The interrupt programs are the same code as those of \<open>sring\<close>.\<close>

definition sring_gso_txi ::
  "(sring_gso_tx_context \<Rightarrow> sring_gso_tx_context) \<Rightarrow> bpfhv_tx_context \<Rightarrow> sring_gso_tx_context
    \<Rightarrow> int \<times> sring_gso_tx_context" where
  "sring_gso_txi hv ctx priv = sring_txi hv ctx priv"

section \<open>Receive programs\<close>

definition sring_gso_rxp ::
  "bpfhv_rx_context \<Rightarrow> sring_gso_rx_context \<Rightarrow> int \<times> bpfhv_rx_context \<times> sring_gso_rx_context" where
  "sring_gso_rxp ctx priv =
    (if num_bufs ctx > BPFHV_MAX_RX_BUFS then (-1, ctx, priv)
     else
       let priv = fold gso_push (ctx_bufs ctx) priv;
           ctx = ctx\<lparr>oflags := kick_oflags priv\<rparr>
       in (0, ctx, priv))"

text \<open>The collection loop of \<open>sring_gso_rxc\<close> stops at \<open>cons\<close>, at the end of a packet,
  or after 64 descriptors.  It also returns the last descriptor it has seen.\<close>

fun gso_rxc_loop ::
  "nat \<Rightarrow> (sring_gso_desc, 'a) ring_scheme \<Rightarrow> u32 \<Rightarrow> nat \<Rightarrow> bpfhv_buf list \<Rightarrow> sring_gso_desc
    \<Rightarrow> u32 \<times> nat \<times> bpfhv_buf list \<times> sring_gso_desc" where
  "gso_rxc_loop 0 priv clr i bs rxd = (clr, i, bs, rxd)"
| "gso_rxc_loop (Suc n) priv clr i bs rxd =
    (if clr = cons priv then (clr, i, bs, rxd)
     else
       let d = slot priv clr;
           bs = bs[i := gso_buf_of d (bs ! i)] in
       if is_eop d then (clr + 1, i + 1, bs, d)
       else gso_rxc_loop n priv (clr + 1) (i + 1) bs d)"

definition gso_get_hdr :: "sring_gso_desc \<Rightarrow> virtio_net_hdr" where
  "gso_get_hdr d = \<lparr>vh_flags = (if gd_flags d AND SRING_DESC_F_NEEDS_CSUM \<noteq> 0
       then VIRTIO_NET_HDR_F_NEEDS_CSUM else 0),
     vh_gso_type = ucast (gd_gso_type d), vh_hdr_len = gd_hdr_len d, vh_gso_size = gd_gso_size d,
     vh_csum_start = gd_csum_start d, vh_csum_offset = gd_csum_offset d\<rparr>"

definition sring_gso_rxc ::
  "(bpfhv_rx_context \<Rightarrow> int \<times> bpfhv_rx_context) \<Rightarrow> (virtio_net_hdr \<Rightarrow> bpfhv_rx_context \<Rightarrow> bpfhv_rx_context)
    \<Rightarrow> bpfhv_rx_context \<Rightarrow> sring_gso_rx_context
    \<Rightarrow> int \<times> bpfhv_rx_context \<times> sring_gso_rx_context" where
  "sring_gso_rxc rx_pkt_alloc pkt_virtio_net_md_set ctx priv =
    (if clear priv = cons priv then (0, ctx, priv)
     else
       let (clr, i, bs, rxd) = gso_rxc_loop (unat BPFHV_MAX_RX_BUFS) priv (clear priv) 0 (bufs ctx)
             (slot priv (clear priv));
           priv = priv\<lparr>clear := clr\<rparr>;
           ctx = ctx\<lparr>bufs := bs, num_bufs := of_nat i\<rparr>;
           (ret, ctx) = rx_pkt_alloc ctx in
       if ret < 0 then (ret, ctx, priv)
       else (1, (pkt_virtio_net_md_set (gso_get_hdr rxd) ctx)\<lparr>oflags := 0\<rparr>, priv))"

fun gso_rxr_loop ::
  "nat \<Rightarrow> (sring_gso_desc, 'a) ring_scheme \<Rightarrow> u32 \<Rightarrow> nat \<Rightarrow> bpfhv_buf list \<Rightarrow> u32 \<times> nat \<times> bpfhv_buf list" where
  "gso_rxr_loop 0 priv clr i bs = (clr, i, bs)"
| "gso_rxr_loop (Suc n) priv clr i bs =
    (if clr \<noteq> prod priv
     then gso_rxr_loop n priv (clr + 1) (i + 1) (bs[i := gso_buf_of (slot priv clr) (bs ! i)])
     else (clr, i, bs))"

definition sring_gso_rxr ::
  "bpfhv_rx_context \<Rightarrow> sring_gso_rx_context \<Rightarrow> int \<times> bpfhv_rx_context \<times> sring_gso_rx_context" where
  "sring_gso_rxr ctx priv =
    (if clear priv = prod priv then (0, ctx, priv)
     else
       let (clr, i, bs) = gso_rxr_loop (unat BPFHV_MAX_RX_BUFS) priv (clear priv) 0 (bufs ctx);
           priv = (if clear_met_cons clr (cons priv) (clear priv)
                   then priv\<lparr>cons := clr\<rparr> else priv);
           priv = priv\<lparr>clear := clr\<rparr>;
           ctx = ctx\<lparr>bufs := bs, num_bufs := of_nat i, oflags := 0\<rparr>
       in (1, ctx, priv))"

definition sring_gso_rxi ::
  "(sring_gso_rx_context \<Rightarrow> sring_gso_rx_context) \<Rightarrow> bpfhv_rx_context \<Rightarrow> sring_gso_rx_context
    \<Rightarrow> int \<times> sring_gso_rx_context" where
  "sring_gso_rxi hv ctx priv = sring_rxi hv ctx priv"

end
