(* ===== verification/Sring_Gso_Backend.thy ===== *)
theory Sring_Gso_Backend
  imports Sring_Gso
begin

text \<open>
  The hypervisor side of the \<open>sring_gso\<close> device (\<open>proxy/sring_gso.c\<close>): collecting
  descriptor chains for transmission, and spreading received packets over the
  posted buffers.

  With a virtio-net header (\<open>vnet_hdr_len\<close> not zero) the first scatter-gather entry
  is a header on the stack; it is passed to \<open>send\<close> and returned by \<open>recv\<close> as a value.
\<close>

section \<open>Loop states\<close>

type_synonym 'w gso_send = "virtio_net_hdr option \<Rightarrow> iovec list \<Rightarrow> 'w \<Rightarrow> int \<times> bool \<times> 'w"
type_synonym 'w gso_recv = "bool \<Rightarrow> iovec list \<Rightarrow> 'w \<Rightarrow> int \<times> bool \<times> virtio_net_hdr \<times> 'w"

record ('c, 'w) gso_loop = "('c, 'w) qloop" +
  ql_first :: u32
  ql_iov :: "iovec list"

definition iovcnt_start :: "int \<Rightarrow> nat" where
  "iovcnt_start vnet_hdr_len = (if vnet_hdr_len \<noteq> 0 then 1 else 0)"

text \<open>The size of the array on the stack.\<close>

definition gso_iov_size :: nat where "gso_iov_size = 65"

section \<open>Draining the transmit ring\<close>

definition gso_tx_hdr :: "int \<Rightarrow> sring_gso_desc \<Rightarrow> virtio_net_hdr option" where
  "gso_tx_hdr vnet_hdr_len txd = (if vnet_hdr_len \<noteq> 0 then Some (gso_get_hdr txd) else None)"

definition gso_fetch ::
  "int \<Rightarrow> sring_gso_desc \<Rightarrow> ('c, 'w) gso_loop \<Rightarrow> ('c, 'w) gso_loop option" where
  "gso_fetch vnet_hdr_len txd l =
    (if iovcnt_start vnet_hdr_len + length (ql_iov l) \<ge> gso_iov_size then None
     else
       let (base, be) = translate_addr (ql_be l) (gd_paddr txd) (ucast (gd_len txd)) in
       Some (l\<lparr>ql_be := be,
               ql_iov := ql_iov l @
                 (if base = 0 then [] else [\<lparr>iov_base = base, iov_len = ucast (gd_len txd)\<rparr>])\<rparr>))"

definition gso_transmit ::
  "'w gso_send \<Rightarrow> int \<Rightarrow> bool \<Rightarrow> sring_gso_desc \<Rightarrow> ('c, 'w) gso_loop
    \<Rightarrow> bool \<times> ('c, 'w) gso_loop" where
  "gso_transmit send vnet_hdr_len blocking txd l =
    (let (ret, eagain, w) = send (gso_tx_hdr vnet_hdr_len txd) (ql_iov l) (ql_world l);
         l = l\<lparr>ql_world := w\<rparr> in
     if ret \<le> 0 then
       (False, l\<lparr>ql_can := (if ret < 0 \<and> blocking \<and> eagain then False else ql_can l),
                 ql_cons := ql_first l\<rparr>)
     else
       (True, l\<lparr>ql_queue := add_stats_bufs (ucast (ql_cons l - ql_first l)) (ql_queue l),
                ql_count := ql_count l + 1, ql_iov := [], ql_first := ql_cons l\<rparr>))"

definition sring_gso_txq_drain_iter ::
  "'w gso_send \<Rightarrow> int \<Rightarrow> bool \<Rightarrow> (sring_gso_tx_context, 'w) gso_loop
    \<Rightarrow> (bool \<times> (sring_gso_tx_context, 'w) gso_loop) option" where
  "sring_gso_txq_drain_iter send vnet_hdr_len blocking l =
    (case sring_tx_more blocking l of
       Inl l \<Rightarrow> Some (False, l)
     | Inr l \<Rightarrow>
         if ql_count l \<ge> BPFHV_BE_TX_BUDGET then Some (False, l)
         else
           let txd = slot (ql_priv l) (ql_cons l) in
           case gso_fetch vnet_hdr_len txd (l\<lparr>ql_cons := ql_cons l + 1\<rparr>) of
             None \<Rightarrow> None
           | Some l \<Rightarrow>
               Some (if is_eop txd then gso_transmit send vnet_hdr_len blocking txd l
                     else (True, l)))"

lemma gso_fetch_fields:
  assumes "gso_fetch vnet txd l = Some l'"
  shows "ql_cons l' = ql_cons l" "ql_guest l' = ql_guest l" "ql_prod l' = ql_prod l"
    "ql_priv l' = ql_priv l" "ql_first l' = ql_first l" "ql_world l' = ql_world l"
    "ql_count l' = ql_count l" "ql_queue l' = ql_queue l"
  using assms by (auto simp: gso_fetch_def split: if_splits prod.splits)

lemma gso_transmit_fields:
  assumes "gso_transmit send vnet blocking txd l = (True, l')"
  shows "ql_cons l' = ql_cons l" "ql_guest l' = ql_guest l" "ql_prod l' = ql_prod l"
    "ql_priv l' = ql_priv l"
  using assms by (auto simp: gso_transmit_def Let_def split: if_splits prod.splits)

function sring_gso_txq_drain_loop ::
  "'w gso_send \<Rightarrow> int \<Rightarrow> bool \<Rightarrow> (sring_gso_tx_context, 'w) gso_loop
    \<Rightarrow> (sring_gso_tx_context, 'w) gso_loop option" where
  "sring_gso_txq_drain_loop send vnet_hdr_len blocking l =
    (case sring_gso_txq_drain_iter send vnet_hdr_len blocking l of
       None \<Rightarrow> None
     | Some (continue, l') \<Rightarrow>
         if continue then sring_gso_txq_drain_loop send vnet_hdr_len blocking l' else Some l')"
  by pat_completeness auto

lemma sring_gso_txq_drain_iter_cases:
  assumes "sring_gso_txq_drain_iter send vnet blocking l = Some (True, l')"
  obtains l1 where "sring_tx_more blocking l = Inr l1" "ql_cons l' = ql_cons l1 + 1"
    "ql_guest l' = ql_guest l1" "ql_prod l' = ql_prod l1" "ql_priv l' = ql_priv l1"
  using assms
  by (auto simp: sring_gso_txq_drain_iter_def Let_def gso_fetch_fields gso_transmit_fields
      split: sum.splits if_splits option.splits)

lemma sring_gso_txq_drain_iter_measure:
  assumes "sring_gso_txq_drain_iter send vnet blocking l = Some (True, l')"
  shows "(drain_measure l', drain_measure l) \<in> drain_order"
  using assms
proof (cases rule: sring_gso_txq_drain_iter_cases)
  case (1 l1)
  have m: "ql_cons l1 \<noteq> ql_prod l1"
    "l1 = l \<or> ((drain_measure (l1\<lparr>ql_cons := ql_cons l1\<rparr>), drain_measure l) \<in> drain_order)"
    using sring_tx_more_measure [OF 1(1)] by blast+
  have "(drain_measure l', drain_measure l1) \<in> drain_order"
    using 1 m(1) by (intro cons_step_measure) simp_all
  then show ?thesis using m(2) drain_order_trans by fastforce
qed

termination sring_gso_txq_drain_loop
proof (relation "inv_image drain_order (\<lambda>(send, vnet, blocking, l). drain_measure l)", goal_cases)
  case 1
  show ?case by (intro wf_inv_image wf_lex_prod wf_less_than)
next
  case (2 send vnet blocking l x c l')
  then show ?case using sring_gso_txq_drain_iter_measure [of send vnet blocking l l'] by simp
qed

definition gso_start ::
  "bool option \<Rightarrow> ('c \<Rightarrow> 'c) list \<Rightarrow> be_mem \<Rightarrow> 'w \<Rightarrow> BpfhvBackendQueue \<Rightarrow> u32 \<Rightarrow> u32 \<Rightarrow> 'c
    \<Rightarrow> ('c, 'w) gso_loop" where
  "gso_start can guest be w q prod0 cons0 priv =
     \<lparr>ql_guest = guest, ql_priv = priv, ql_be = be, ql_world = w,
      ql_queue = q\<lparr>q_notify := False\<rparr>, ql_prod = prod0, ql_cons = cons0, ql_count = 0,
      ql_can = flag_value can, ql_first = cons0, ql_iov = []\<rparr>"

definition sring_gso_txq_drain ::
  "'w gso_send \<Rightarrow> int \<Rightarrow> bool option \<Rightarrow> (sring_gso_tx_context \<Rightarrow> sring_gso_tx_context) list \<Rightarrow> be_mem
    \<Rightarrow> 'w \<Rightarrow> BpfhvBackendQueue \<Rightarrow> sring_gso_tx_context \<Rightarrow> (sring_gso_tx_context, 'w) gso_loop option" where
  "sring_gso_txq_drain send vnet_hdr_len can_send guest be w txq priv =
    (let priv = (if can_send \<noteq> None then sring_notification priv False else priv);
         l = gso_start can_send guest be w txq (prod priv) (cons priv) priv
     in map_option sring_txq_finish (sring_gso_txq_drain_loop send vnet_hdr_len (can_send \<noteq> None) l))"

section \<open>Filling receive buffers\<close>

text \<open>Collecting descriptors for a packet of maximum size: \<open>Inl\<close> leaves the routine
  after rewinding to the first unused descriptor.\<close>

definition gso_invalidate :: "u32 \<Rightarrow> sring_gso_rx_context \<Rightarrow> sring_gso_rx_context" where
  "gso_invalidate i priv = set_slot i ((slot priv i)\<lparr>gd_len := 0, gd_flags := 0\<rparr>) priv"

definition gso_collect_iter ::
  "bool \<Rightarrow> nat \<Rightarrow> (sring_gso_rx_context, 'w) gso_loop
    \<Rightarrow> (sring_gso_rx_context, 'w) gso_loop + (nat \<times> (sring_gso_rx_context, 'w) gso_loop)" where
  "gso_collect_iter blocking iovsize l =
    (case sring_rx_more blocking l of
       Inl l \<Rightarrow> Inl (l\<lparr>ql_cons := ql_first l\<rparr>)
     | Inr l \<Rightarrow>
         let rxd = slot (ql_priv l) (ql_cons l);
             (base, be) = translate_addr (ql_be l) (gd_paddr rxd) (ucast (gd_len rxd));
             l = l\<lparr>ql_be := be\<rparr> in
         if base = 0 then
           Inr (iovsize, l\<lparr>ql_priv := gso_invalidate (ql_cons l) (ql_priv l),
                          ql_cons := ql_cons l + 1\<rparr>)
         else
           Inr (iovsize + unat (gd_len rxd),
                l\<lparr>ql_iov := ql_iov l @ [\<lparr>iov_base = base, iov_len = ucast (gd_len rxd)\<rparr>],
                  ql_cons := ql_cons l + 1\<rparr>))"

function gso_collect ::
  "int \<Rightarrow> nat \<Rightarrow> bool \<Rightarrow> nat \<Rightarrow> (sring_gso_rx_context, 'w) gso_loop
    \<Rightarrow> (sring_gso_rx_context, 'w) gso_loop + (sring_gso_rx_context, 'w) gso_loop" where
  "gso_collect vnet_hdr_len max_pkt_size blocking iovsize l =
    (case gso_collect_iter blocking iovsize l of
       Inl l' \<Rightarrow> Inl l'
     | Inr (iovsize', l') \<Rightarrow>
         if iovsize' < max_pkt_size \<and>
            iovcnt_start vnet_hdr_len + length (ql_iov l') < unat BPFHV_MAX_RX_BUFS
         then gso_collect vnet_hdr_len max_pkt_size blocking iovsize' l'
         else Inr l')"
  by pat_completeness auto

lemma gso_invalidate_fields [simp]:
  "prod (gso_invalidate i priv) = prod priv" "cons (gso_invalidate i priv) = cons priv"
  "clear (gso_invalidate i priv) = clear priv" "qmask (gso_invalidate i priv) = qmask priv"
  "kick_enabled (gso_invalidate i priv) = kick_enabled priv"
  "length (desc (gso_invalidate i priv)) = length (desc priv)"
  "intr_enabled (gso_invalidate i priv) = intr_enabled priv"
  by (simp_all add: gso_invalidate_def set_slot_def)

lemma gso_collect_iter_measure:
  assumes "gso_collect_iter blocking iovsize l = Inr (n, l')"
  shows "(drain_measure l', drain_measure l) \<in> drain_order"
proof -
  obtain l1 where more: "sring_rx_more blocking l = Inr l1"
    and l1: "ql_cons l' = ql_cons l1 + 1" "ql_guest l' = ql_guest l1" "ql_prod l' = ql_prod l1"
      "prod (ql_priv l') = prod (ql_priv l1)"
    using assms by (auto simp: gso_collect_iter_def Let_def split: sum.splits if_splits prod.splits)
  have m: "ql_cons l1 \<noteq> ql_prod l1" "l1 = l \<or> ((drain_measure l1, drain_measure l) \<in> drain_order)"
    using sring_rx_more_measure [OF more] by blast+
  have "(drain_measure l', drain_measure l1) \<in> drain_order"
    using l1 m(1) by (intro cons_step_measure) simp_all
  then show ?thesis using m(2) drain_order_trans by fastforce
qed

termination gso_collect
proof (relation "inv_image drain_order (\<lambda>(vnet, sz, blocking, n, l). drain_measure l)", goal_cases)
  case 1
  show ?case by (intro wf_inv_image wf_lex_prod wf_less_than)
next
  case (2 vnet sz blocking n l x n' l')
  then show ?case using gso_collect_iter_measure [of blocking n l n' l'] by force
qed

text \<open>Writing the length of a received packet back to the descriptors.  The C loop
  ends when all bytes are accounted for; it has no other bound.  The fuel is the
  number of descriptors that were collected, and \<open>None\<close> means that the loop would run
  past them.  \<open>rx_i\<close> is the index behind the pointer \<open>rxd\<close>.\<close>

fun gso_writeback ::
  "nat \<Rightarrow> int \<Rightarrow> u32 \<Rightarrow> u32 \<Rightarrow> sring_gso_rx_context \<Rightarrow> (u32 \<times> u32 \<times> sring_gso_rx_context) option" where
  "gso_writeback n pktsize c rx_i priv =
    (if pktsize \<le> 0 then Some (c, rx_i, priv)
     else
       case n of 0 \<Rightarrow> None
       | Suc n \<Rightarrow>
           let rxd = slot priv c in
           if gd_len rxd = 0 then gso_writeback n pktsize (c + 1) c priv
           else
             let len = (if int (unat (gd_len rxd)) \<le> pktsize then gd_len rxd else of_int pktsize);
                 priv = set_slot c (rxd\<lparr>gd_flags := 0, gd_len := len\<rparr>) priv
             in gso_writeback n (pktsize - int (unat len)) (c + 1) c priv)"

text \<open>Completing the last descriptor.\<close>

definition gso_complete ::
  "int \<Rightarrow> virtio_net_hdr \<Rightarrow> u32 \<Rightarrow> sring_gso_rx_context \<Rightarrow> sring_gso_rx_context" where
  "gso_complete vnet_hdr_len hdr rx_i priv =
    (let rxd = (slot priv rx_i)\<lparr>gd_flags := SRING_DESC_F_EOP\<rparr> in
     set_slot rx_i (if vnet_hdr_len \<noteq> 0 then gso_set_hdr hdr rxd else rxd) priv)"

definition sring_gso_rxq_push_iter ::
  "'w gso_recv \<Rightarrow> int \<Rightarrow> nat \<Rightarrow> bool \<Rightarrow> (sring_gso_rx_context, 'w) gso_loop
    \<Rightarrow> (bool \<times> (sring_gso_rx_context, 'w) gso_loop) option" where
  "sring_gso_rxq_push_iter recv vnet_hdr_len max_pkt_size blocking l =
    (case gso_collect vnet_hdr_len max_pkt_size blocking 0 (l\<lparr>ql_first := ql_cons l, ql_iov := []\<rparr>) of
       Inl l \<Rightarrow> Some (False, l)
     | Inr l \<Rightarrow>
         if ql_count l \<ge> BPFHV_BE_RX_BUDGET then Some (False, l)
         else
           let (pktsize, eagain, hdr, w) = recv (vnet_hdr_len \<noteq> 0) (ql_iov l) (ql_world l);
               l = l\<lparr>ql_world := w\<rparr> in
           if pktsize \<le> 0 then Some (False, l\<lparr>ql_cons := ql_first l\<rparr>)
           else
             case gso_writeback (dist (ql_first l) (ql_cons l)) (pktsize - vnet_hdr_len)
                    (ql_first l) (ql_cons l - 1) (ql_priv l) of
               None \<Rightarrow> None
             | Some (c, rx_i, priv) \<Rightarrow>
                 Some (True, l\<lparr>ql_priv := gso_complete vnet_hdr_len hdr rx_i priv, ql_cons := c,
                   ql_queue := add_stats_bufs (ucast (c - ql_first l)) (ql_queue l),
                   ql_count := ql_count l + 1\<rparr>))"

function sring_gso_rxq_push_loop ::
  "'w gso_recv \<Rightarrow> int \<Rightarrow> nat \<Rightarrow> bool \<Rightarrow> (sring_gso_rx_context, 'w) gso_loop
    \<Rightarrow> (sring_gso_rx_context, 'w) gso_loop option" where
  "sring_gso_rxq_push_loop recv vnet_hdr_len max_pkt_size blocking l =
    (case sring_gso_rxq_push_iter recv vnet_hdr_len max_pkt_size blocking l of
       None \<Rightarrow> None
     | Some (continue, l') \<Rightarrow>
         if continue then sring_gso_rxq_push_loop recv vnet_hdr_len max_pkt_size blocking l'
         else Some l')"
  by pat_completeness auto

declare gso_collect.simps [simp del] gso_writeback.simps [simp del]

lemma more_count:
  "sring_rx_more blocking l = Inl l' \<Longrightarrow> ql_count l' = ql_count l"
  "sring_rx_more blocking l = Inr l' \<Longrightarrow> ql_count l' = ql_count l"
  by (auto simp: sring_rx_more_def Let_def split: if_splits)

lemma gso_collect_count:
  "gso_collect vnet sz blocking n l = Inr l' \<Longrightarrow> ql_count l' = ql_count l"
proof (induction vnet sz blocking n l rule: gso_collect.induct)
  case (1 vnet sz blocking n l)
  then obtain n1 l1 where it: "gso_collect_iter blocking n l = Inr (n1, l1)"
    by (subst (asm) gso_collect.simps) (auto split: sum.splits prod.splits)
  then have "ql_count l1 = ql_count l"
    using more_count [of blocking l]
    by (auto simp: gso_collect_iter_def Let_def split: sum.splits if_splits prod.splits)
  then show ?case
    using "1.IH" [OF it refl] "1.prems" it
    by (subst (asm) gso_collect.simps) (auto split: if_splits)
qed

termination sring_gso_rxq_push_loop
proof (relation "measure (\<lambda>(recv, vnet, sz, blocking, l). 128 - ql_count l)", goal_cases)
  case (2 recv vnet sz blocking l x c l')
  then have "sring_gso_rxq_push_iter recv vnet sz blocking l = Some (True, l')" by simp
  then have "ql_count l < 128 \<and> ql_count l' = Suc (ql_count l)"
    using gso_collect_count [of vnet sz blocking 0 "l\<lparr>ql_first := ql_cons l, ql_iov := []\<rparr>"]
    by (auto simp: sring_gso_rxq_push_iter_def Let_def BPFHV_BE_RX_BUDGET_def
        split: sum.splits if_splits prod.splits option.splits)
  then show ?case by auto
qed simp

definition sring_gso_rxq_push ::
  "'w gso_recv \<Rightarrow> int \<Rightarrow> nat \<Rightarrow> bool option \<Rightarrow> (sring_gso_rx_context \<Rightarrow> sring_gso_rx_context) list
    \<Rightarrow> be_mem \<Rightarrow> 'w \<Rightarrow> BpfhvBackendQueue \<Rightarrow> sring_gso_rx_context
    \<Rightarrow> (sring_gso_rx_context, 'w) gso_loop option" where
  "sring_gso_rxq_push recv vnet_hdr_len max_pkt_size can_receive guest be w rxq priv =
    (let priv = (if kick_enabled priv \<noteq> 0 then sring_notification priv False else priv);
         l = gso_start can_receive guest be w rxq (prod priv) (cons priv) priv
     in map_option sring_rxq_finish
          (sring_gso_rxq_push_loop recv vnet_hdr_len max_pkt_size (can_receive \<noteq> None) l))"

declare sring_gso_txq_drain_loop.simps [simp del] sring_gso_rxq_push_loop.simps [simp del]

definition sring_gso_features_avail :: u64 where
  "sring_gso_features_avail = BPFHV_F_SG OR BPFHV_F_TX_CSUM OR BPFHV_F_RX_CSUM
     OR BPFHV_F_TSOv4 OR BPFHV_F_TCPv4_LRO OR BPFHV_F_TSOv6 OR BPFHV_F_TCPv6_LRO
     OR BPFHV_F_UFO OR BPFHV_F_UDP_LRO"

end
