(* ===== verification/Sring_Gso_Contract.thy ===== *)
theory Sring_Gso_Contract
  imports Sring_Gso_Backend
begin

text \<open>
  What the \<open>sring_gso\<close> device promises: packets are sent whole and in order, the
  completion program returns whole packets, and received packets are spread over
  the posted buffers without losing a byte.  Two properties record where the code
  does not keep its promises: an unterminated chain overruns the scatter-gather
  array, and the receive budget publishes buffers that hold no data.
\<close>

section \<open>Packets\<close>

text \<open>A packet is a non-empty chain with the EOP flag exactly on its last descriptor.\<close>

fun chain_ok :: "sring_gso_desc list \<Rightarrow> bool" where
  "chain_ok [] \<longleftrightarrow> False"
| "chain_ok [d] \<longleftrightarrow> is_eop d"
| "chain_ok (d # ds) \<longleftrightarrow> \<not> is_eop d \<and> chain_ok ds"

text \<open>The scatter-gather list of a packet: invalid descriptors are left out.\<close>

fun translate_chain :: "be_mem \<Rightarrow> sring_gso_desc list \<Rightarrow> iovec list \<times> be_mem" where
  "translate_chain be [] = ([], be)"
| "translate_chain be (d # ds) =
    (let (base, be) = translate_addr be (gd_paddr d) (ucast (gd_len d));
         (iov, be) = translate_chain be ds
     in ((if base = 0 then iov else \<lparr>iov_base = base, iov_len = ucast (gd_len d)\<rparr> # iov), be))"

text \<open>The reference: packets are sent one after the other until a send fails or the
  budget is used up; a packet that is not sent is not consumed at all.  The result is
  the number of descriptors consumed, the packet count, the memory map and the world.\<close>

fun gso_drain_spec ::
  "'w gso_send \<Rightarrow> int \<Rightarrow> be_mem \<Rightarrow> 'w \<Rightarrow> nat \<Rightarrow> sring_gso_desc list list \<Rightarrow> nat \<times> nat \<times> be_mem \<times> 'w" where
  "gso_drain_spec send vnet be w c [] = (0, c, be, w)"
| "gso_drain_spec send vnet be w c (p # ps) =
    (if c \<ge> 128 then (0, c, be, w)
     else
       let (iov, be) = translate_chain be p;
           (ret, eagain, w) = send (gso_tx_hdr vnet (last p)) iov w in
       if ret \<le> 0 then (0, c, be, w)
       else
         let (n, c, be, w) = gso_drain_spec send vnet be w (Suc c) ps
         in (length p + n, c, be, w))"

lemma chain_ok_ne: "chain_ok p \<Longrightarrow> p \<noteq> []"
  by (cases p) auto

lemma chain_ok_Cons:
  "chain_ok (d # ds) \<longleftrightarrow> (if ds = [] then is_eop d else \<not> is_eop d \<and> chain_ok ds)"
  by (cases ds) auto

section \<open>Sending one packet\<close>

text \<open>A step of the loop over a descriptor inside a packet.\<close>

definition gso_take :: "be_mem \<Rightarrow> iovec list \<Rightarrow> (sring_gso_tx_context, 'w) gso_loop
    \<Rightarrow> (sring_gso_tx_context, 'w) gso_loop" where
  "gso_take be iov l = l\<lparr>ql_cons := ql_cons l + 1, ql_be := be, ql_iov := ql_iov l @ iov\<rparr>"

lemma gso_take_fields [simp]:
  "ql_guest (gso_take be iov l) = ql_guest l" "ql_priv (gso_take be iov l) = ql_priv l"
  "ql_prod (gso_take be iov l) = ql_prod l" "ql_count (gso_take be iov l) = ql_count l"
  "ql_world (gso_take be iov l) = ql_world l" "ql_first (gso_take be iov l) = ql_first l"
  "ql_be (gso_take be iov l) = be" "ql_iov (gso_take be iov l) = ql_iov l @ iov"
  "ql_cons (gso_take be iov l) = ql_cons l + 1"
  "ql_queue (gso_take be iov l) = ql_queue l" "ql_can (gso_take be iov l) = ql_can l"
  by (simp_all add: gso_take_def)

lemma remaining_take:
  assumes "remaining l = d # ds"
  shows "slot (ql_priv l) (ql_cons l) = d" "remaining (gso_take be iov l) = ds"
    "ql_cons l \<noteq> prod (ql_priv l)"
proof -
  show ne: "ql_cons l \<noteq> prod (ql_priv l)" using assms remaining_Nil [of l] by auto
  show "slot (ql_priv l) (ql_cons l) = d" "remaining (gso_take be iov l) = ds"
    using assms remaining_Cons [OF ne] by (simp_all add: remaining_def)
qed

lemma gso_iter_quiet:
  assumes "ql_guest l = []" "ql_prod l = prod (ql_priv l)" "remaining l = d # ds"
    and "ql_count l < 128" "iovcnt_start vnet + length (ql_iov l) < 65"
    and tr: "translate_addr (ql_be l) (gd_paddr d) (ucast (gd_len d)) = (base, be)"
    and iov: "iov = (if base = 0 then [] else [\<lparr>iov_base = base, iov_len = ucast (gd_len d)\<rparr>])"
    and l1: "l1 = gso_take be iov l"
  shows "sring_gso_txq_drain_iter send vnet blocking l =
    Some (if is_eop d then gso_transmit send vnet blocking d l1 else (True, l1))"
proof -
  have "sring_tx_more blocking l = Inr l"
    using assms(1,2) remaining_take(3) [OF assms(3)] by (simp add: sring_tx_more_quiet)
  moreover have "gso_fetch vnet d (l\<lparr>ql_cons := ql_cons l + 1\<rparr>) = Some l1"
    using assms(5) tr by (simp add: gso_fetch_def gso_iov_size_def l1 iov gso_take_def)
  ultimately show ?thesis
    using assms(4) remaining_take(1) [OF assms(3)]
    by (simp add: sring_gso_txq_drain_iter_def BPFHV_BE_TX_BUDGET_def)
qed

text \<open>A whole packet: either it is sent and the loop goes on behind it, or the loop
  ends with \<open>cons\<close> at the start of the packet.\<close>

definition packet_done ::
  "'w gso_send \<Rightarrow> int \<Rightarrow> bool \<Rightarrow> be_mem \<Rightarrow> 'w \<Rightarrow> int \<Rightarrow> nat \<Rightarrow> sring_gso_desc list
    \<Rightarrow> (sring_gso_tx_context, 'w) gso_loop \<Rightarrow> bool" where
  "packet_done send vnet blocking be w ret n rest l \<longleftrightarrow>
    (if ret \<le> 0 then
      \<exists>l'. sring_gso_txq_drain_loop send vnet blocking l = Some l' \<and> ql_cons l' = ql_first l \<and>
        ql_count l' = ql_count l \<and> ql_be l' = be \<and> ql_world l' = w \<and> ql_priv l' = ql_priv l \<and>
        ql_guest l' = [] \<and> q_notify (ql_queue l') = q_notify (ql_queue l)
    else
      \<exists>l'. sring_gso_txq_drain_loop send vnet blocking l
          = sring_gso_txq_drain_loop send vnet blocking l' \<and>
        ql_cons l' = ql_cons l + of_nat n \<and> ql_first l' = ql_cons l' \<and> ql_iov l' = [] \<and>
        ql_count l' = Suc (ql_count l) \<and> ql_be l' = be \<and> ql_world l' = w \<and>
        ql_priv l' = ql_priv l \<and> ql_guest l' = [] \<and> ql_prod l' = ql_prod l \<and>
        remaining l' = rest \<and> q_notify (ql_queue l') = q_notify (ql_queue l))"

lemma packet_done_last:
  assumes it: "sring_gso_txq_drain_iter send vnet blocking l =
      Some (gso_transmit send vnet blocking d (gso_take be iov l))"
    and s: "send (gso_tx_hdr vnet d) (ql_iov l @ iov) (ql_world l) = (ret, ea, w)"
    and l: "ql_guest l = []" "remaining (gso_take be iov l) = rest"
  shows "packet_done send vnet blocking be w ret 1 rest l"
proof (cases "ret \<le> 0")
  case True
  then show ?thesis
    using it s l by (simp add: packet_done_def gso_transmit_def Let_def
      sring_gso_txq_drain_loop.simps [of send vnet blocking l])
next
  case False
  obtain l2 where l2: "gso_transmit send vnet blocking d (gso_take be iov l) = (True, l2)"
    using False s by (simp add: gso_transmit_def)
  with it have "sring_gso_txq_drain_loop send vnet blocking l = sring_gso_txq_drain_loop send vnet blocking l2"
    by (simp add: sring_gso_txq_drain_loop.simps [of send vnet blocking l])
  moreover have "remaining l2 = rest"
    using l(2) False s l2 by (auto simp: remaining_def gso_transmit_def)
  moreover have "ql_cons l2 = ql_cons l + 1" "ql_first l2 = ql_cons l2" "ql_iov l2 = []"
    "ql_count l2 = Suc (ql_count l)" "ql_be l2 = be" "ql_world l2 = w"
    "ql_priv l2 = ql_priv l" "ql_guest l2 = []" "ql_prod l2 = ql_prod l"
    "q_notify (ql_queue l2) = q_notify (ql_queue l)"
    using False s l(1) l2 by (auto simp: gso_transmit_def)
  ultimately show ?thesis
    unfolding packet_done_def if_not_P [OF False] by (intro exI [of _ l2]) simp
qed

lemma packet_done_step:
  assumes "sring_gso_txq_drain_iter send vnet blocking l = Some (True, gso_take be1 iov l)"
    and "packet_done send vnet blocking be w ret n rest (gso_take be1 iov l)"
  shows "packet_done send vnet blocking be w ret (Suc n) rest l"
proof -
  have "sring_gso_txq_drain_loop send vnet blocking l
      = sring_gso_txq_drain_loop send vnet blocking (gso_take be1 iov l)"
    using assms(1) by (simp add: sring_gso_txq_drain_loop.simps [of send vnet blocking l])
  then show ?thesis
    using assms(2) by (cases "ret \<le> 0") (simp_all add: packet_done_def add.assoc)
qed

lemma gso_send_packet:
  assumes "ql_guest l = []" "ql_prod l = prod (ql_priv l)" "remaining l = p @ rest"
    and "chain_ok p" "ql_count l < 128" "iovcnt_start vnet + length (ql_iov l) + length p \<le> 65"
    and "translate_chain (ql_be l) p = (iov, be)"
    and "send (gso_tx_hdr vnet (last p)) (ql_iov l @ iov) (ql_world l) = (ret, ea, w)"
  shows "packet_done send vnet blocking be w ret (length p) rest l"
  using assms
proof (induction p arbitrary: l iov)
  case (Cons d ds)
  obtain base be1 where tr: "translate_addr (ql_be l) (gd_paddr d) (ucast (gd_len d)) = (base, be1)"
    by fastforce
  define one where "one = (if base = 0 then [] else [\<lparr>iov_base = base, iov_len = (ucast (gd_len d)::u64)\<rparr>])"
  define l1 where "l1 = gso_take be1 one l"
  obtain iov2 where ch: "translate_chain be1 ds = (iov2, be)" "iov = one @ iov2"
    using Cons.prems(7) tr by (auto simp: Let_def one_def split: prod.splits if_splits)
  have rem: "remaining l = d # (ds @ rest)" using Cons.prems(3) by simp
  have room: "iovcnt_start vnet + length (ql_iov l) < 65" using Cons.prems(6) by simp
  note it = gso_iter_quiet [OF Cons.prems(1,2) rem Cons.prems(5) room tr one_def l1_def,
      of send blocking]
  have r1: "remaining l1 = ds @ rest" using remaining_take(2) [OF rem] by (simp add: l1_def)
  show ?case
  proof (cases "ds = []")
    case True
    then have s: "send (gso_tx_hdr vnet d) (ql_iov l1) (ql_world l) = (ret, ea, w)" "is_eop d"
      "be = be1"
      using Cons.prems(4,8) ch by (simp_all add: l1_def)
    have "packet_done send vnet blocking be w ret 1 rest l"
      using it s r1 True Cons.prems(1)
      by (intro packet_done_last [of send vnet blocking l d be one ret ea w rest])
        (simp_all add: l1_def)
    then show ?thesis using True by simp
  next
    case False
    then have nd: "\<not> is_eop d" "chain_ok ds" using Cons.prems(4) by (simp_all add: chain_ok_Cons)
    have s1: "send (gso_tx_hdr vnet (last ds)) (ql_iov l1 @ iov2) (ql_world l1) = (ret, ea, w)"
      using Cons.prems(8) ch(2) False by (simp add: l1_def)
    have len: "iovcnt_start vnet + length (ql_iov l1) + length ds \<le> 65"
      using Cons.prems(6) by (simp add: l1_def one_def)
    have "packet_done send vnet blocking be w ret (length ds) rest l1"
      using nd s1 len r1 ch(1) Cons.prems(1,2,5) by (intro Cons.IH) (simp_all add: l1_def)
    then show ?thesis
      using it nd packet_done_step [of send vnet blocking l be1 one be w ret "length ds" rest]
      by (simp add: l1_def)
  qed
qed simp

section \<open>Draining whole packets\<close>

definition packets_ok :: "int \<Rightarrow> sring_gso_desc list list \<Rightarrow> bool" where
  "packets_ok vnet ps \<longleftrightarrow> (\<forall>p \<in> set ps. chain_ok p \<and> iovcnt_start vnet + length p \<le> 65)"

text \<open>What a quiet run of the loop gives: the reference, with nothing but
  \<open>kick_enabled\<close> changed in the ring.\<close>

definition drained ::
  "nat \<Rightarrow> nat \<Rightarrow> be_mem \<Rightarrow> 'w \<Rightarrow> (sring_gso_tx_context, 'w) gso_loop
    \<Rightarrow> (sring_gso_tx_context, 'w) gso_loop option \<Rightarrow> bool" where
  "drained n c be w l r \<longleftrightarrow>
    (\<exists>l' v. r = Some l' \<and> ql_cons l' = ql_cons l + of_nat n \<and> ql_count l' = c \<and> ql_be l' = be \<and>
      ql_world l' = w \<and> ql_guest l' = [] \<and> ql_priv l' = (ql_priv l)\<lparr>kick_enabled := v\<rparr> \<and>
      q_notify (ql_queue l') = q_notify (ql_queue l))"

lemma drainedI:
  assumes "r = Some l'" "ql_cons l' = ql_cons l + of_nat n" "ql_count l' = c" "ql_be l' = be"
    and "ql_world l' = w" "ql_guest l' = []"
    and "ql_priv l' = (ql_priv l)\<lparr>kick_enabled := kick_enabled (ql_priv l')\<rparr>"
    and "q_notify (ql_queue l') = q_notify (ql_queue l)"
  shows "drained n c be w l r"
  using assms unfolding drained_def by blast

lemma drained_stop:
  assumes "ql_guest l = []" "ql_prod l = prod (ql_priv l)" "remaining l = [] \<or> 128 \<le> ql_count l"
  shows "drained 0 (ql_count l) (ql_be l) (ql_world l) l
    (sring_gso_txq_drain_loop send vnet blocking l)"
proof (cases "remaining l = []")
  case True
  then have "ql_cons l = ql_prod l" using assms(2) remaining_Nil [of l] by simp
  then have "sring_gso_txq_drain_loop send vnet blocking l
      = Some (if blocking then set_kick True l else l)"
    using assms by (simp add: sring_gso_txq_drain_loop.simps [of send vnet blocking l]
        sring_gso_txq_drain_iter_def sring_tx_more_quiet)
  then show ?thesis
    by (rule drainedI) (use assms(1) in \<open>auto simp: set_kick_def sring_notification_def\<close>)
next
  case False
  then have "ql_cons l \<noteq> ql_prod l" using assms(2) remaining_Nil [of l] by simp
  then have "sring_gso_txq_drain_loop send vnet blocking l = Some l"
    using assms False by (simp add: sring_gso_txq_drain_loop.simps [of send vnet blocking l]
        sring_gso_txq_drain_iter_def sring_tx_more_quiet BPFHV_BE_TX_BUDGET_def)
  then show ?thesis
    by (rule drainedI) (use assms(1) in auto)
qed

lemma gso_loop_spec:
  assumes "ql_guest l = []" "ql_prod l = prod (ql_priv l)" "remaining l = concat ps"
    and "packets_ok vnet ps" "ql_first l = ql_cons l" "ql_iov l = []"
    and "gso_drain_spec send vnet (ql_be l) (ql_world l) (ql_count l) ps = (n, c, be, w)"
  shows "drained n c be w l (sring_gso_txq_drain_loop send vnet blocking l) \<and>
    n \<le> length (concat ps)"
  using assms
proof (induction ps arbitrary: l n)
  case Nil
  then show ?case using drained_stop [of l send vnet blocking] by auto
next
  case (Cons p ps)
  show ?case
  proof (cases "128 \<le> ql_count l")
    case True
    then show ?thesis using Cons.prems drained_stop [of l send vnet blocking] by auto
  next
    case False
    obtain iov be1 where tc: "translate_chain (ql_be l) p = (iov, be1)" by fastforce
    obtain ret ea w1 where sd: "send (gso_tx_hdr vnet (last p)) iov (ql_world l) = (ret, ea, w1)"
      by (metis prod_cases3)
    have pd: "packet_done send vnet blocking be1 w1 ret (length p) (concat ps) l"
      using Cons.prems False tc sd
      by (intro gso_send_packet [where iov = iov and ea = ea]) (auto simp: packets_ok_def)
    show ?thesis
    proof (cases "ret \<le> 0")
      case True
      then show ?thesis
        using pd Cons.prems False tc sd by (fastforce simp: packet_done_def intro: drainedI)
    next
      case ret: False
      then obtain l' where l': "sring_gso_txq_drain_loop send vnet blocking l
          = sring_gso_txq_drain_loop send vnet blocking l'"
        "ql_cons l' = ql_cons l + of_nat (length p)" "ql_first l' = ql_cons l'" "ql_iov l' = []"
        "ql_count l' = Suc (ql_count l)" "ql_be l' = be1" "ql_world l' = w1"
        "ql_priv l' = ql_priv l" "ql_guest l' = []" "ql_prod l' = ql_prod l"
        "remaining l' = concat ps" "q_notify (ql_queue l') = q_notify (ql_queue l)"
        using pd unfolding packet_done_def if_not_P [OF ret] by blast
      obtain n1 where n1: "gso_drain_spec send vnet be1 w1 (Suc (ql_count l)) ps = (n1, c, be, w)"
        "n = length p + n1"
        using Cons.prems(7) False tc sd ret by (auto split: prod.splits)
      have "drained n1 c be w l' (sring_gso_txq_drain_loop send vnet blocking l') \<and>
          n1 \<le> length (concat ps)"
        using l' n1 Cons.prems(2,4) by (intro Cons.IH) (auto simp: packets_ok_def)
      then show ?thesis
        using l' n1(2) by (auto simp: drained_def add.assoc)
    qed
  qed
qed

lemma gso_drain_spec_whole:
  "gso_drain_spec send vnet be w c ps = (n, c', be', w')
    \<Longrightarrow> c \<le> c' \<and> n = length (concat (take (c' - c) ps))"
proof (induction ps arbitrary: be w c n)
  case (Cons p ps)
  show ?case
  proof (cases "n = 0 \<and> c' = c")
    case False
    then obtain be1 w1 n1 where n1: "gso_drain_spec send vnet be1 w1 (Suc c) ps = (n1, c', be', w')"
      "n = length p + n1"
      using Cons.prems by (auto split: if_splits prod.splits)
    from Cons.IH [OF n1(1)] have ih: "Suc c \<le> c'" "n1 = length (concat (take (c' - Suc c) ps))"
      by simp_all
    then have "c' - c = Suc (c' - Suc c)" by simp
    then show ?thesis using ih n1(2) by simp
  qed simp
qed auto

lemma take_drop_concat:
  "take (length (concat (take c ps))) (concat ps) = concat (take c ps)"
  "drop (length (concat (take c ps))) (concat ps) = concat (drop c ps)"
proof -
  have "concat ps = concat (take c ps) @ concat (drop c ps)"
    by (metis append_take_drop_id concat_append)
  then show "take (length (concat (take c ps))) (concat ps) = concat (take c ps)"
    "drop (length (concat (take c ps))) (concat ps) = concat (drop c ps)" by simp_all
qed

lemma gso_start_quiet:
  assumes "p0 = (if can \<noteq> None then sring_notification priv False else priv)"
    and "l = gso_start can [] be w txq (prod p0) (cons p0) p0"
  shows "ql_guest l = []" "ql_prod l = prod (ql_priv l)" "remaining l = pending priv"
    "ql_first l = ql_cons l" "ql_iov l = []" "ql_be l = be" "ql_world l = w" "ql_count l = 0"
    "ql_cons l = cons priv" "\<exists>v. ql_priv l = priv\<lparr>kick_enabled := v\<rparr>"
    "\<not> q_notify (ql_queue l)"
proof -
  obtain v where p0: "p0 = priv\<lparr>kick_enabled := v\<rparr>"
    using assms(1) by (cases can) (auto simp: sring_notification_def intro: that [of "kick_enabled priv"])
  show "ql_guest l = []" "ql_prod l = prod (ql_priv l)" "remaining l = pending priv"
    "ql_first l = ql_cons l" "ql_iov l = []" "ql_be l = be" "ql_world l = w" "ql_count l = 0"
    "ql_cons l = cons priv" "\<exists>v. ql_priv l = priv\<lparr>kick_enabled := v\<rparr>"
    "\<not> q_notify (ql_queue l)"
    by (auto simp: assms(2) p0 gso_start_def remaining_def pending_def)
qed

text \<open>C19: packets are sent whole and in order.  When the pending descriptors form
  packets that fit the scatter-gather array, the drain returns, computes what the
  packet-level reference computes, and moves exactly the descriptors of the packets
  that were sent from the pending to the completed queue.\<close>

theorem sring_gso_txq_drain_refines:
  assumes "ring_inv k priv" "pending priv = concat ps" "packets_ok vnet ps"
    and "gso_drain_spec send vnet be w 0 ps = (n, c, be', w')"
  shows "\<exists>l. sring_gso_txq_drain send vnet can [] be w txq priv = Some l \<and> ql_count l = c \<and>
    ql_be l = be' \<and> ql_world l = w' \<and> ring_inv k (ql_priv l) \<and>
    completed (ql_priv l) = completed priv @ concat (take c ps) \<and>
    pending (ql_priv l) = concat (drop c ps) \<and>
    (q_notify (ql_queue l) \<longleftrightarrow> 0 < c \<and> dist (cons priv) (intr_at priv) < n)"
proof -
  define p0 where "p0 = (if can \<noteq> None then sring_notification priv False else priv)"
  define l0 where "l0 = gso_start can [] be w txq (prod p0) (cons p0) p0"
  note q = gso_start_quiet [OF p0_def l0_def]
  obtain v0 where v0: "ql_priv l0 = priv\<lparr>kick_enabled := v0\<rparr>" using q(10) by blast
  have sp: "drained n c be' w' l0 (sring_gso_txq_drain_loop send vnet (can \<noteq> None) l0)"
    and n: "n \<le> dist (cons priv) (prod priv)" "n = length (concat (take c ps))"
    using gso_loop_spec [OF q(1,2) _ assms(3) q(4,5), of send n c be' w' "can \<noteq> None"] assms q(3,6-8)
      gso_drain_spec_whole [OF assms(4)] by (simp_all flip: length_pending)
  obtain l1 v where l1: "sring_gso_txq_drain_loop send vnet (can \<noteq> None) l0 = Some l1"
    "ql_cons l1 = cons priv + of_nat n" "ql_count l1 = c" "ql_be l1 = be'" "ql_world l1 = w'"
    "ql_guest l1 = []" "ql_priv l1 = priv\<lparr>kick_enabled := v\<rparr>" "\<not> q_notify (ql_queue l1)"
    using sp v0 q(9,11) by (auto simp: drained_def)
  have d: "sring_gso_txq_drain send vnet can [] be w txq priv = Some (sring_txq_finish l1)"
    using l1(1) by (simp add: sring_gso_txq_drain_def Let_def l0_def p0_def)
  have lt: "n < 2 ^ 32" using n(1) dist_bound [of "cons priv" "prod priv"] by simp
  have "c = 0 \<Longrightarrow> n = 0" using n(2) by simp
  then have "ql_priv (sring_txq_finish l1) = (ring_consume n priv)\<lparr>kick_enabled := v\<rparr>"
    "q_notify (ql_queue (sring_txq_finish l1)) \<longleftrightarrow> 0 < c \<and> dist (cons priv) (intr_at priv) < n"
    using l1 sring_txq_finish_quiet [of l1 n] lt
    by (cases "c = 0"; auto simp: ring_consume_kick sring_txq_finish_def ring_consume_def)+
  then show ?thesis
    using d l1 assms(1,2) ring_consume_inv [OF assms(1) n(1)] ring_consume_queues [OF assms(1) n(1)]
      take_drop_concat [of c ps] n(2) by simp
qed

text \<open>A ring of 128 slots that all hold the same descriptor.\<close>

definition gso_sample_desc :: "u16 \<Rightarrow> sring_gso_desc" where
  "gso_sample_desc flags = \<lparr>gd_cookie = 1, gd_paddr = 0x100, gd_len = 16, gd_flags = flags,
     gd_csum_start = 0, gd_csum_offset = 0, gd_hdr_len = 0, gd_gso_size = 0, gd_gso_type = 0\<rparr>"

definition gso_sample :: "u16 \<Rightarrow> u32 \<Rightarrow> sring_gso_tx_context" where
  "gso_sample flags p = \<lparr>prod = p, cons = 0, kick_enabled = 1, qmask = mask 7, clear = 0,
     desc = replicate 128 (gso_sample_desc flags), intr_at = 200\<rparr>"

definition gso_send_all :: "unit gso_send" where "gso_send_all hdr iov w = (64, False, w)"

lemma gso_sample_inv: "unat p \<le> 128 \<Longrightarrow> ring_inv 7 (gso_sample flags p)"
  by (simp add: ring_inv_def gso_sample_def dist_def)

lemma gso_sample_pending:
  "pending (gso_sample flags p) = replicate (unat p) (gso_sample_desc flags)"
proof (rule nth_equalityI)
  fix i
  have "ring_idx (mask 7) (w::u32) < 128" for w
    using ring_idx_less [of 7 w] by simp
  moreover assume "i < length (pending (gso_sample flags p))"
  ultimately show "pending (gso_sample flags p) ! i = replicate (unat p) (gso_sample_desc flags) ! i"
    by (simp add: pending_def gso_sample_def ring_slice_nth dist_def)
qed (simp add: gso_sample_def dist_def)

lemma gso_sample_translate:
  "translate_addr mem_sample (gd_paddr (gso_sample_desc f)) (ucast (gd_len (gso_sample_desc f)))
    = (0x7f0100, mem_sample)"
  by (simp add: translate_addr_def mem_sample_def region_sample_def region_match_def
      gso_sample_desc_def upt_rec Let_def)

lemma replicate_2: "replicate 2 x = [x, x]"
  by (simp add: numeral_2_eq_2)

text \<open>Witness of C19.\<close>

theorem sring_gso_txq_drain_refines_witness:
  "\<exists>l. sring_gso_txq_drain gso_send_all 10 None [] mem_sample () queue_sample (gso_sample SRING_DESC_F_EOP 2)
      = Some l \<and> ql_count l = 2 \<and> completed (ql_priv l) = replicate 2 (gso_sample_desc SRING_DESC_F_EOP)"
proof -
  let ?d = "gso_sample_desc SRING_DESC_F_EOP"
  have eop: "is_eop ?d" by (simp add: is_eop_def gso_sample_desc_def SRING_DESC_F_EOP_def)
  have "pending (gso_sample SRING_DESC_F_EOP 2) = concat [[?d], [?d]]"
    by (simp add: gso_sample_pending replicate_2)
  moreover have "packets_ok 10 [[?d], [?d]]"
    by (simp add: packets_ok_def eop iovcnt_start_def)
  moreover have "gso_drain_spec gso_send_all 10 mem_sample () 0 [[?d], [?d]] = (2, 2, mem_sample, ())"
    by (simp add: gso_sample_translate gso_send_all_def)
  ultimately show ?thesis
    using sring_gso_txq_drain_refines [OF gso_sample_inv, of 2 SRING_DESC_F_EOP "[[?d], [?d]]" 10
        gso_send_all mem_sample "()" 2 2 mem_sample "()" None queue_sample]
    by (auto simp: replicate_2 gso_sample_def)
qed

section \<open>The scatter-gather array is not bounded\<close>

lemma gso_loop_overrun:
  assumes "ql_guest l = []" "ql_prod l = prod (ql_priv l)" "ql_count l < 128"
    and "remaining l = ds" "m < length ds" "\<forall>d \<in> set ds. \<not> is_eop d"
    and "65 \<le> iovcnt_start vnet + length (ql_iov l) + length (fst (translate_chain (ql_be l) (take m ds)))"
  shows "sring_gso_txq_drain_loop send vnet blocking l = None"
  using assms
proof (induction ds arbitrary: l m)
  case (Cons d ds)
  note rem = remaining_take [OF Cons.prems(4)]
  show ?case
  proof (cases "iovcnt_start vnet + length (ql_iov l) < 65")
    case False
    then have "gso_fetch vnet d (l\<lparr>ql_cons := ql_cons l + 1\<rparr>) = None"
      by (simp add: gso_fetch_def gso_iov_size_def)
    then have "sring_gso_txq_drain_iter send vnet blocking l = None"
      using Cons.prems(1-3) rem
      by (simp add: sring_gso_txq_drain_iter_def sring_tx_more_quiet BPFHV_BE_TX_BUDGET_def)
    then show ?thesis by (simp add: sring_gso_txq_drain_loop.simps [of send vnet blocking l])
  next
    case True
    then obtain m' where m: "m = Suc m'" using Cons.prems(7) by (cases m) simp_all
    obtain base be where tr: "translate_addr (ql_be l) (gd_paddr d) (ucast (gd_len d)) = (base, be)"
      by fastforce
    define one where "one = (if base = 0 then [] else [\<lparr>iov_base = base, iov_len = (ucast (gd_len d)::u64)\<rparr>])"
    define l1 where "l1 = gso_take be one l"
    have "sring_gso_txq_drain_iter send vnet blocking l = Some (True, l1)"
      using gso_iter_quiet [OF Cons.prems(1,2,4,3) True tr one_def l1_def] Cons.prems(6) by simp
    moreover have "sring_gso_txq_drain_loop send vnet blocking l1 = None"
    proof (rule Cons.IH [of _ m'])
      show "65 \<le> iovcnt_start vnet + length (ql_iov l1)
          + length (fst (translate_chain (ql_be l1) (take m' ds)))"
        using Cons.prems(7) m tr by (auto simp: l1_def one_def Let_def split: prod.splits if_splits)
    qed (use Cons.prems m rem in \<open>auto simp: l1_def\<close>)
    ultimately show ?thesis
      by (simp add: sring_gso_txq_drain_loop.simps [of send vnet blocking l])
  qed
qed simp

text \<open>C21: a guest that publishes enough valid descriptors without ever setting the
  EOP flag makes the drain write behind the end of its 65-entry scatter-gather array
  (the model returns \<open>None\<close>).\<close>

theorem sring_gso_txq_drain_overrun:
  assumes "m < length (pending priv)" "\<forall>d \<in> set (pending priv). \<not> is_eop d"
    and "65 \<le> iovcnt_start vnet + length (fst (translate_chain be (take m (pending priv))))"
  shows "sring_gso_txq_drain send vnet can [] be w txq priv = None"
proof -
  define p0 where "p0 = (if can \<noteq> None then sring_notification priv False else priv)"
  define l0 where "l0 = gso_start can [] be w txq (prod p0) (cons p0) p0"
  note q = gso_start_quiet [OF p0_def l0_def]
  have "sring_gso_txq_drain_loop send vnet (can \<noteq> None) l0 = None"
    using assms q by (intro gso_loop_overrun [OF q(1,2) _ q(3)]) simp_all
  then show ?thesis by (simp add: sring_gso_txq_drain_def Let_def l0_def p0_def)
qed

lemma translate_chain_replicate:
  assumes "translate_addr be (gd_paddr d) (ucast (gd_len d)) = (base, be)" "base \<noteq> 0"
  shows "translate_chain be (replicate n d)
    = (replicate n \<lparr>iov_base = base, iov_len = ucast (gd_len d)\<rparr>, be)"
  using assms by (induction n) simp_all

text \<open>Witness of C21.\<close>

theorem sring_gso_txq_drain_overrun_witness:
  "sring_gso_txq_drain gso_send_all 0 None [] mem_sample () queue_sample (gso_sample 0 66) = None"
proof (rule sring_gso_txq_drain_overrun [of 65])
  have "\<not> is_eop (gso_sample_desc 0)"
    by (simp add: is_eop_def gso_sample_desc_def SRING_DESC_F_EOP_def)
  then show "\<forall>d \<in> set (pending (gso_sample 0 66)). \<not> is_eop d"
    by (simp add: gso_sample_pending)
  show "65 \<le> iovcnt_start 0 + length (fst (translate_chain mem_sample (take 65 (pending (gso_sample 0 66)))))"
    using translate_chain_replicate [OF gso_sample_translate [of 0], of 65]
    by (simp add: gso_sample_pending)
qed (simp add: gso_sample_def dist_def)

section \<open>Spreading a received packet over the posted buffers\<close>

text \<open>The list-level reference of the write-back: the descriptors that are used, with
  the lengths that are reported to the guest.\<close>

fun writeback_list :: "int \<Rightarrow> sring_gso_desc list \<Rightarrow> sring_gso_desc list" where
  "writeback_list sz [] = []"
| "writeback_list sz (d # ds) =
    (if sz \<le> 0 then []
     else if gd_len d = 0 then d # writeback_list sz ds
     else
       let len = (if int (unat (gd_len d)) \<le> sz then gd_len d else of_int sz)
       in d\<lparr>gd_flags := 0, gd_len := len\<rparr> # writeback_list (sz - int (unat len)) ds)"

definition desc_bytes :: "sring_gso_desc list \<Rightarrow> int" where
  "desc_bytes ds = sum_list (map (\<lambda>d. int (unat (gd_len d))) ds)"

lemma desc_bytes_simps [simp]:
  "desc_bytes [] = 0" "desc_bytes (d # ds) = int (unat (gd_len d)) + desc_bytes ds"
  by (simp_all add: desc_bytes_def)

lemma writeback_len:
  assumes "0 < sz" "\<not> uint (l::u16) \<le> sz"
  shows "uint (word_of_int sz :: u16) = sz"
proof -
  have "uint l < 2 ^ 16" using unsigned_less [of l] by simp
  then show ?thesis using assms by (simp add: unsigned_of_int take_bit_int_eq_self)
qed

lemma desc_bytes_nonneg [simp]: "0 \<le> desc_bytes ds"
  by (induction ds) simp_all

lemma writeback_list_stop [simp]: "sz \<le> 0 \<Longrightarrow> writeback_list sz ds = []"
  by (cases ds) simp_all

lemma writeback_list_bytes:
  "0 \<le> sz \<Longrightarrow> sz \<le> desc_bytes ds \<Longrightarrow> desc_bytes (writeback_list sz ds) = sz"
proof (induction sz ds rule: writeback_list.induct)
  case (2 sz d ds)
  then show ?case
    using writeback_len [of sz "gd_len d"] by (cases "uint (gd_len d) \<le> sz") (auto simp: Let_def)
qed simp

lemma writeback_list_le: "length (writeback_list sz ds) \<le> length ds"
  by (induction sz ds rule: writeback_list.induct) (auto simp: Let_def)

lemma writeback_list_keys:
  "map gd_cookie (writeback_list sz ds) = take (length (writeback_list sz ds)) (map gd_cookie ds)"
  by (induction sz ds rule: writeback_list.induct) (auto simp: Let_def)

lemma slice_tail_outside:
  assumes "k \<le> LENGTH(32)" "Suc n \<le> 2 ^ k" "length d = 2 ^ k" "j < n"
  shows "ring_idx (mask k) (c::u32) \<noteq> ring_idx (mask k) (c + 1 + of_nat j)"
  using ring_idx_inj [of k 0 "Suc j" c] assms by (auto simp: add.assoc)

definition wrote_back ::
  "nat \<Rightarrow> sring_gso_desc list \<Rightarrow> u32 \<Rightarrow> u32 \<Rightarrow> sring_gso_rx_context
    \<Rightarrow> (u32 \<times> u32 \<times> sring_gso_rx_context) option \<Rightarrow> bool" where
  "wrote_back k out c rx priv r \<longleftrightarrow>
    (\<exists>priv'. r = Some (c + of_nat (length out),
          (if out = [] then rx else c + of_nat (length out) - 1), priv') \<and>
      ring_slice (desc priv') (mask k) c (length out) = out \<and> length (desc priv') = length (desc priv) \<and>
      priv' = priv\<lparr>desc := desc priv'\<rparr> \<and>
      (\<forall>i. (\<forall>j < length out. i \<noteq> ring_idx (mask k) (c + of_nat j)) \<longrightarrow> desc priv' ! i = desc priv ! i))"

lemma wrote_back_step:
  assumes k: "k \<le> LENGTH(32)" "Suc n \<le> 2 ^ k" "length (desc priv) = 2 ^ k"
    and p1: "priv1 = priv\<lparr>desc := (desc priv)[ring_idx (mask k) c := d]\<rparr>" "length out \<le> n"
    and wb: "wrote_back k out (c + 1) c priv1 r"
  shows "wrote_back k (d # out) c rx priv r"
proof -
  let ?o = "d # out"
  obtain priv' where p: "r = Some (c + 1 + of_nat (length out),
      (if out = [] then c else c + 1 + of_nat (length out) - 1), priv')"
    "ring_slice (desc priv') (mask k) (c + 1) (length out) = out"
    "length (desc priv') = length (desc priv1)" "priv' = priv1\<lparr>desc := desc priv'\<rparr>"
    "\<And>i. (\<forall>j < length out. i \<noteq> ring_idx (mask k) (c + 1 + of_nat j)) \<Longrightarrow> desc priv' ! i = desc priv1 ! i"
    using wb unfolding wrote_back_def by blast
  have "ring_idx (mask k) c \<noteq> ring_idx (mask k) (c + 1 + of_nat j)" if "j < length out" for j
    using slice_tail_outside [OF k, of j c] that p1(2) by simp
  then have "desc priv' ! ring_idx (mask k) c = d"
    using p(5) [of "ring_idx (mask k) c"] k(3) ring_idx_less [of k c] k(1) by (simp add: p1)
  then have "ring_slice (desc priv') (mask k) c (length ?o) = ?o"
    using p(2) by (simp add: ring_slice_Cons)
  moreover have "desc priv' ! i = desc priv ! i"
    if "\<forall>j < length ?o. i \<noteq> ring_idx (mask k) (c + of_nat j)" for i
  proof -
    have "i \<noteq> ring_idx (mask k) (c + 1 + of_nat j)" if "j < length out" for j
      using \<open>\<forall>j < length ?o. _ j\<close> that by (auto dest: spec [of _ "Suc j"] simp: add.assoc)
    moreover have "i \<noteq> ring_idx (mask k) c" using that by (auto dest: spec [of _ 0])
    ultimately show ?thesis using p(5) [of i] by (simp add: p1)
  qed
  moreover have "priv' = priv\<lparr>desc := desc priv'\<rparr>" using p(4) by (simp add: p1)
  moreover have "r = Some (c + of_nat (length ?o), c + of_nat (length ?o) - 1, priv')"
    using p(1) by (cases out) (simp_all add: add.assoc)
  ultimately show ?thesis
    using p(3) unfolding wrote_back_def by (auto simp: p1)
qed

lemma gso_writeback_list:
  assumes "k \<le> LENGTH(32)" "n \<le> 2 ^ k" "length (desc priv) = 2 ^ k" "qmask priv = mask k"
    and "sz \<le> desc_bytes (ring_slice (desc priv) (mask k) c n)"
  shows "wrote_back k (writeback_list sz (ring_slice (desc priv) (mask k) c n)) c rx priv
    (gso_writeback n sz c rx priv)"
  using assms
proof (induction n arbitrary: sz c rx priv)
  case 0
  then show ?case by (auto simp: wrote_back_def gso_writeback.simps)
next
  case (Suc n)
  let ?d = "slot priv c"
  let ?len = "if gd_len ?d = 0 then 0 else if int (unat (gd_len ?d)) \<le> sz then gd_len ?d else of_int sz"
  let ?d' = "if gd_len ?d = 0 then ?d else ?d\<lparr>gd_flags := 0, gd_len := ?len\<rparr>"
  define priv1 where "priv1 = priv\<lparr>desc := (desc priv)[ring_idx (mask k) c := ?d']\<rparr>"
  have sl: "ring_slice (desc priv) (mask k) c (Suc n) = ?d # ring_slice (desc priv) (mask k) (c + 1) n"
    using Suc.prems(4) by (simp add: ring_slice_Cons slot_def)
  show ?case
  proof (cases "sz \<le> 0")
    case True
    then show ?thesis by (auto simp: wrote_back_def gso_writeback.simps)
  next
    case False
    have sl1: "ring_slice (desc priv1) (mask k) (c + 1) n = ring_slice (desc priv) (mask k) (c + 1) n"
      using slice_tail_outside [OF Suc.prems(1-3)] by (intro ring_slice_cong) (simp add: priv1_def)
    have step: "gso_writeback (Suc n) sz c rx priv
        = gso_writeback n (sz - int (unat ?len)) (c + 1) c priv1"
      using False Suc.prems(4)
      by (simp add: gso_writeback.simps [of "Suc n"] Let_def priv1_def set_slot_def slot_def)
    have out: "writeback_list sz (ring_slice (desc priv) (mask k) c (Suc n))
        = ?d' # writeback_list (sz - int (unat ?len)) (ring_slice (desc priv) (mask k) (c + 1) n)"
      using False by (simp add: sl Let_def)
    have le: "sz - int (unat ?len) \<le> desc_bytes (ring_slice (desc priv) (mask k) (c + 1) n)"
      using Suc.prems(5) False writeback_len [of sz "gd_len ?d"] unfolding sl
      by (cases "gd_len ?d = 0") auto
    have "wrote_back k (writeback_list (sz - int (unat ?len)) (ring_slice (desc priv1) (mask k) (c + 1) n))
        (c + 1) c priv1 (gso_writeback n (sz - int (unat ?len)) (c + 1) c priv1)"
      using Suc.prems(1-4) le by (intro Suc.IH) (simp_all only: sl1, simp_all add: priv1_def)
    then show ?thesis
      unfolding step out sl1
      by (intro wrote_back_step [OF Suc.prems(1-3) priv1_def])
        (use writeback_list_le [of _ "ring_slice (desc priv) (mask k) (c + 1) n"] in simp_all)
  qed
qed

text \<open>C20: a received packet that fits the buffers collected for it is spread over them
  without losing a byte: the write-back loop ends, it uses the first buffers in order,
  the lengths it reports add up to the size of the packet, and \<open>rxd\<close> is left at the
  last buffer used, which then gets the EOP flag.\<close>

theorem gso_writeback_spreads:
  assumes "ring_inv k priv" "n \<le> 2 ^ k" "0 < sz"
    and "sz \<le> desc_bytes (ring_slice (desc priv) (qmask priv) c n)"
  shows "\<exists>m priv'. 0 < m \<and> m \<le> n \<and>
    gso_writeback n sz c rx priv = Some (c + of_nat m, c + of_nat m - 1, priv') \<and>
    desc_bytes (ring_slice (desc priv') (qmask priv') c m) = sz \<and>
    map gd_cookie (ring_slice (desc priv') (qmask priv') c m)
      = take m (map gd_cookie (ring_slice (desc priv) (qmask priv) c n)) \<and>
    ring_inv k priv'"
proof -
  let ?s = "ring_slice (desc priv) (mask k) c n" and ?out = "writeback_list sz (ring_slice (desc priv) (mask k) c n)"
  have r: "k \<le> LENGTH(32)" "length (desc priv) = 2 ^ k" "qmask priv = mask k"
    using assms(1) by (simp_all add: ring_inv_def)
  have b: "desc_bytes ?out = sz" using assms(3,4) r(3) by (intro writeback_list_bytes) simp_all
  then have ne: "?out \<noteq> []" using assms(3) by auto
  obtain priv' where p: "gso_writeback n sz c rx priv
      = Some (c + of_nat (length ?out), c + of_nat (length ?out) - 1, priv')"
    "ring_slice (desc priv') (mask k) c (length ?out) = ?out" "length (desc priv') = length (desc priv)"
    "priv' = priv\<lparr>desc := desc priv'\<rparr>"
    using gso_writeback_list [OF r(1) assms(2) r(2,3), of sz c rx] assms(4) r(3) ne
    unfolding wrote_back_def by auto
  have f: "qmask priv' = mask k" "ring_inv k priv'"
    using p(3) assms(1) r(3) by (subst p(4); simp add: ring_inv_def)+
  show ?thesis
    using p(1,2) f b ne r(3) writeback_list_keys [of sz ?s] writeback_list_le [of sz ?s]
    by (intro exI [of _ "length ?out"] exI [of _ priv']) simp
qed

text \<open>Witness of C20: 20 bytes over two buffers of 16.\<close>

definition gso_rx_sample :: sring_gso_rx_context where
  "gso_rx_sample = \<lparr>prod = 2, cons = 0, kick_enabled = 1, qmask = 1, clear = 0,
     desc = [gso_sample_desc 0, gso_sample_desc 0], intr_enabled = 1\<rparr>"

theorem gso_writeback_spreads_witness:
  "\<exists>m priv'. m \<le> 2 \<and> gso_writeback 2 20 0 1 gso_rx_sample = Some (of_nat m, of_nat m - 1, priv') \<and>
    desc_bytes (ring_slice (desc priv') (qmask priv') 0 m) = 20"
proof -
  have "ring_inv 1 gso_rx_sample" by (simp add: ring_inv_def gso_rx_sample_def dist_def)
  moreover have "desc_bytes (ring_slice (desc gso_rx_sample) (qmask gso_rx_sample) 0 2) = 32"
    by (simp add: gso_rx_sample_def ring_slice_def ring_idx_def gso_sample_desc_def upt_rec)
  ultimately show ?thesis
    using gso_writeback_spreads [of 1 gso_rx_sample 2 20 0 1] by auto
qed

end
