(* ===== verification/Vring_Packed.thy ===== *)
theory Vring_Packed
  imports Mark Bpfhv_Types "HOL-Library.Monad_Syntax"
begin

text \<open>
  The packed virtqueue of \<open>proxy/vring_packed.h\<close> and its eBPF programs
  (\<open>proxy/vring_packed_progs.c\<close>).  A single descriptor array is shared by both sides;
  two flag bits of a descriptor, compared with a wrap counter that flips each time an
  index passes the end of the array, say whether the descriptor is available to the
  host or used by it.  The guest keeps a free list of buffer identifiers in a private
  array.

  The arrays that follow the structure in memory (descriptors, states, and the slot
  map of the host) are lists; their byte offsets are computed by
  \<open>vring_packed_state_ofs\<close> and \<open>vring_packed_hv_map_ofs\<close>.
\<close>

section \<open>Constants and structures\<close>

definition VRING_DESC_F_WRITE :: u16 where "VRING_DESC_F_WRITE = 2"
definition VRING_PACKED_EVENT_FLAG_ENABLE :: u16 where "VRING_PACKED_EVENT_FLAG_ENABLE = 0"
definition VRING_PACKED_EVENT_FLAG_DISABLE :: u16 where "VRING_PACKED_EVENT_FLAG_DISABLE = 1"
definition VRING_PACKED_EVENT_FLAG_DESC :: u16 where "VRING_PACKED_EVENT_FLAG_DESC = 2"
definition VRING_PACKED_EVENT_F_WRAP_CTR :: nat where "VRING_PACKED_EVENT_F_WRAP_CTR = 15"
definition VRING_PACKED_DESC_F_AVAIL :: nat where "VRING_PACKED_DESC_F_AVAIL = 7"
definition VRING_PACKED_DESC_F_USED :: nat where "VRING_PACKED_DESC_F_USED = 15"
definition MY_CACHELINE_SIZE :: nat where "MY_CACHELINE_SIZE = 64"

lemmas vring_consts = VRING_DESC_F_WRITE_def VRING_PACKED_EVENT_FLAG_ENABLE_def
  VRING_PACKED_EVENT_FLAG_DISABLE_def VRING_PACKED_EVENT_FLAG_DESC_def
  VRING_PACKED_EVENT_F_WRAP_CTR_def VRING_PACKED_DESC_F_AVAIL_def VRING_PACKED_DESC_F_USED_def

record vring_packed_desc =
  vd_addr :: u64
  vd_len :: u32
  vd_id :: u16
  vd_flags :: u16
  vd_mark :: u32

record vring_packed_desc_state =
  ds_cookie :: u64
  ds_busy :: u16
  ds_num :: u16
  ds_next :: u16
  ds_last :: u16

record vring_packed_desc_event =
  ev_off_wrap :: u16
  ev_flags :: u16

text \<open>The fields of the members \<open>g\<close> (private to the guest) and \<open>h\<close> (private to the
  host) carry the member as a prefix.\<close>

record vring_packed_virtq =
  g_next_free_id :: u16
  g_next_avail_idx :: u16
  g_next_used_idx :: u16
  g_avail_wrap_counter :: u8
  g_used_wrap_counter :: u8
  g_avail_used_flags :: u16
  g_pending_inuse_counter :: u32
  g_avail_dropped :: u32
  g_pending_used_counter :: u32
  h_next_avail_idx :: u16
  h_next_used_idx :: u16
  h_avail_wrap_counter :: u8
  h_used_wrap_counter :: u8
  h_avail_used_flags :: u16
  h_device_event_flags :: u16
  num_desc :: u32
  mark_on_guest :: u8
  driver_event :: vring_packed_desc_event
  device_event :: vring_packed_desc_event
  vdesc :: "vring_packed_desc list"
  vstate :: "vring_packed_desc_state list"
  hv_map :: "u64 list"

section \<open>Elementary accesses\<close>

definition upd_desc ::
  "u16 \<Rightarrow> (vring_packed_desc \<Rightarrow> vring_packed_desc) \<Rightarrow> vring_packed_virtq \<Rightarrow> vring_packed_virtq" where
  "upd_desc i f vq = vq\<lparr>vdesc := (vdesc vq)[unat i := f (vdesc vq ! unat i)]\<rparr>"

definition upd_state ::
  "u16 \<Rightarrow> (vring_packed_desc_state \<Rightarrow> vring_packed_desc_state) \<Rightarrow> vring_packed_virtq \<Rightarrow> vring_packed_virtq" where
  "upd_state i f vq = vq\<lparr>vstate := (vstate vq)[unat i := f (vstate vq ! unat i)]\<rparr>"

definition avail_used_mask :: u16 where
  "avail_used_mask = push_bit VRING_PACKED_DESC_F_AVAIL 1 OR push_bit VRING_PACKED_DESC_F_USED 1"

definition flag_avail :: "u16 \<Rightarrow> bool" where
  "flag_avail flags \<longleftrightarrow> flags AND push_bit VRING_PACKED_DESC_F_AVAIL 1 \<noteq> 0"

definition flag_used :: "u16 \<Rightarrow> bool" where
  "flag_used flags \<longleftrightarrow> flags AND push_bit VRING_PACKED_DESC_F_USED 1 \<noteq> 0"

definition flag_int :: "bool \<Rightarrow> u8" where
  "flag_int b = (if b then 1 else 0)"

text \<open>Has an index moved from \<open>old_idx\<close> to \<open>new_idx\<close> passed \<open>event_idx\<close>?\<close>

definition vring_need_event :: "u16 \<Rightarrow> u16 \<Rightarrow> u16 \<Rightarrow> bool" where
  "vring_need_event old_idx event_idx new_idx \<longleftrightarrow> new_idx - event_idx - 1 < new_idx - old_idx"

text \<open>The test shared by \<open>vring_packed_kick_needed\<close> and \<open>vring_packed_intr_needed\<close>: the
  old index and the event index are rebased in the frame of the current index.\<close>

definition vring_event_needed ::
  "vring_packed_desc_event \<Rightarrow> u16 \<Rightarrow> u8 \<Rightarrow> u32 \<Rightarrow> u16 \<Rightarrow> bool" where
  "vring_event_needed ev idx wrap num n =
    (if ev_flags ev \<noteq> VRING_PACKED_EVENT_FLAG_DESC then ev_flags ev = VRING_PACKED_EVENT_FLAG_ENABLE
     else
       let old_idx = idx - n;
           event_idx = ev_off_wrap ev AND NOT (push_bit VRING_PACKED_EVENT_F_WRAP_CTR 1);
           wrap_counter = drop_bit VRING_PACKED_EVENT_F_WRAP_CTR (ev_off_wrap ev);
           event_idx = (if wrap_counter \<noteq> ucast wrap then event_idx - ucast num else event_idx)
       in vring_need_event old_idx event_idx idx)"

section \<open>Layout and initialisation\<close>

definition ROUNDUP :: "nat \<Rightarrow> nat \<Rightarrow> nat" where
  "ROUNDUP sz s = (sz + s - 1) div s * s"

definition sizeof_vring_packed_virtq :: nat where "sizeof_vring_packed_virtq = 5 * MY_CACHELINE_SIZE"
definition sizeof_vring_packed_desc :: nat where "sizeof_vring_packed_desc = 24"
definition sizeof_vring_packed_desc_state :: nat where "sizeof_vring_packed_desc_state = 16"
definition sizeof_vring_packed_desc_hv_map :: nat where "sizeof_vring_packed_desc_hv_map = 8"

definition vring_packed_priv_size :: "nat \<Rightarrow> nat" where
  "vring_packed_priv_size num =
    (let desc_size = ROUNDUP (sizeof_vring_packed_desc * num) MY_CACHELINE_SIZE;
         state_size = ROUNDUP (sizeof_vring_packed_desc_state * num) MY_CACHELINE_SIZE;
         hv_map_size = ROUNDUP (sizeof_vring_packed_desc_hv_map * num) MY_CACHELINE_SIZE
     in sizeof_vring_packed_virtq + desc_size + state_size + hv_map_size)"

definition vring_packed_state_ofs :: "nat \<Rightarrow> nat" where
  "vring_packed_state_ofs num = sizeof_vring_packed_virtq + ROUNDUP (sizeof_vring_packed_desc * num) MY_CACHELINE_SIZE"

definition vring_packed_hv_map_ofs :: "nat \<Rightarrow> nat" where
  "vring_packed_hv_map_ofs num =
     vring_packed_state_ofs num + ROUNDUP (sizeof_vring_packed_desc_state * num) MY_CACHELINE_SIZE"

definition vring_packed_rx_ctx_size :: "nat \<Rightarrow> nat" where
  "vring_packed_rx_ctx_size num_rx_bufs = sizeof_bpfhv_context + vring_packed_priv_size num_rx_bufs"

definition vring_packed_tx_ctx_size :: "nat \<Rightarrow> nat" where
  "vring_packed_tx_ctx_size num_tx_bufs = sizeof_bpfhv_context + vring_packed_priv_size num_tx_bufs"

definition vring_packed_notification :: "bool \<Rightarrow> vring_packed_virtq \<Rightarrow> vring_packed_virtq" where
  "vring_packed_notification enable vq =
    (if \<not> enable then
       vq\<lparr>h_device_event_flags := VRING_PACKED_EVENT_FLAG_DISABLE,
          device_event := (device_event vq)\<lparr>ev_flags := VRING_PACKED_EVENT_FLAG_DISABLE\<rparr>\<rparr>
     else
       vq\<lparr>device_event := \<lparr>ev_off_wrap = h_next_avail_idx vq
               OR push_bit VRING_PACKED_EVENT_F_WRAP_CTR (ucast (h_avail_wrap_counter vq)),
            ev_flags = VRING_PACKED_EVENT_FLAG_DESC\<rparr>,
          h_device_event_flags := VRING_PACKED_EVENT_FLAG_DESC\<rparr>)"

definition vring_packed_init :: "nat \<Rightarrow> vring_packed_virtq" where
  "vring_packed_init num = vring_packed_notification True
    \<lparr>g_next_free_id = 0, g_next_avail_idx = 0, g_next_used_idx = 0,
     g_avail_wrap_counter = 1, g_used_wrap_counter = 1,
     g_avail_used_flags = push_bit VRING_PACKED_DESC_F_AVAIL 1,
     g_pending_inuse_counter = 0, g_avail_dropped = 0, g_pending_used_counter = 0,
     h_next_avail_idx = 0, h_next_used_idx = 0,
     h_avail_wrap_counter = 1, h_used_wrap_counter = 1,
     h_avail_used_flags = avail_used_mask, h_device_event_flags = 0,
     num_desc = of_nat num, mark_on_guest = 0,
     driver_event = \<lparr>ev_off_wrap = push_bit VRING_PACKED_EVENT_F_WRAP_CTR 1,
       ev_flags = VRING_PACKED_EVENT_FLAG_DESC\<rparr>,
     device_event = \<lparr>ev_off_wrap = 0, ev_flags = 0\<rparr>,
     vdesc = replicate num \<lparr>vd_addr = 0, vd_len = 0, vd_id = 0, vd_flags = 0, vd_mark = 0\<rparr>,
     vstate = map (\<lambda>i. \<lparr>ds_cookie = 0, ds_busy = 0, ds_num = 0,
       ds_next = (if i < num - 1 then of_nat (i + 1) else 0), ds_last = 0\<rparr>) [0..<num],
     hv_map = replicate num 0\<rparr>"

definition vring_packed_tx_ctx_init_mark :: "bool \<Rightarrow> vring_packed_virtq \<Rightarrow> vring_packed_virtq" where
  "vring_packed_tx_ctx_init_mark mark_mode_guest vq = vq\<lparr>mark_on_guest := flag_int mark_mode_guest\<rparr>"

section \<open>Publication\<close>

definition vring_packed_add ::
  "bpfhv_buf \<Rightarrow> u16 \<Rightarrow> u32 \<Rightarrow> vring_packed_virtq \<Rightarrow> vring_packed_virtq" where
  "vring_packed_add b flags mark vq =
    (let head_avail_idx = g_next_avail_idx vq;
         head_flags = g_avail_used_flags vq OR flags;
         id = g_next_free_id vq;
         vq = upd_desc head_avail_idx (\<lambda>d. d\<lparr>vd_addr := buf_paddr b, vd_len := buf_len b,
                vd_id := id, vd_mark := mark\<rparr>) vq;
         vq = upd_state id (\<lambda>s. s\<lparr>ds_cookie := buf_cookie b\<rparr>) vq;
         avail_idx = head_avail_idx + 1;
         vq = (if ucast avail_idx \<ge> num_desc vq then
                 vq\<lparr>g_avail_used_flags := g_avail_used_flags vq XOR avail_used_mask,
                    g_avail_wrap_counter := g_avail_wrap_counter vq XOR 1, g_next_avail_idx := 0\<rparr>
               else vq\<lparr>g_next_avail_idx := avail_idx\<rparr>);
         vq = vq\<lparr>g_next_free_id := ds_next (vstate vq ! unat id)\<rparr>;
         vq = upd_state id (\<lambda>s. s\<lparr>ds_busy := 1\<rparr>) vq
     in upd_desc head_avail_idx (\<lambda>d. d\<lparr>vd_flags := head_flags\<rparr>) vq)"

definition vring_packed_kick_needed :: "u16 \<Rightarrow> vring_packed_virtq \<Rightarrow> bool" where
  "vring_packed_kick_needed num_published vq =
     vring_event_needed (device_event vq) (g_next_avail_idx vq) (g_avail_wrap_counter vq)
       (num_desc vq) num_published"

definition vring_mark_packet :: "u8 list \<Rightarrow> u32 \<Rightarrow> u32 option" where
  "vring_mark_packet pkt_data pkt_size = mark_packet_fun pkt_data pkt_size"

definition kick_flags :: "bool \<Rightarrow> u32" where
  "kick_flags b = (if b then BPFHV_OFLAGS_KICK_NEEDED else 0)"

definition vring_packed_txp ::
  "u8 list \<Rightarrow> u32 \<Rightarrow> bpfhv_tx_context \<Rightarrow> vring_packed_virtq
    \<Rightarrow> (int \<times> bpfhv_tx_context \<times> vring_packed_virtq) option" where
  "vring_packed_txp pkt_data pkt_size ctx vq =
    (if num_bufs ctx \<noteq> 1 then Some (-1, ctx, vq)
     else do {
       mark \<leftarrow> (if mark_on_guest vq \<noteq> 0 then vring_mark_packet pkt_data pkt_size else Some 0);
       let vq = vring_packed_add (bufs ctx ! 0) 0 mark vq;
       Some (0, ctx\<lparr>oflags := kick_flags (vring_packed_kick_needed 1 vq)\<rparr>, vq) })"

definition vring_packed_rxp ::
  "bpfhv_rx_context \<Rightarrow> vring_packed_virtq \<Rightarrow> int \<times> bpfhv_rx_context \<times> vring_packed_virtq" where
  "vring_packed_rxp ctx vq =
    (if num_bufs ctx > BPFHV_MAX_RX_BUFS then (-1, ctx, vq)
     else
       let vq = fold (\<lambda>b. vring_packed_add b VRING_DESC_F_WRITE 0) (ctx_bufs ctx) vq
       in (0, ctx\<lparr>oflags := kick_flags (vring_packed_kick_needed (ucast (num_bufs ctx)) vq)\<rparr>, vq))"

section \<open>Completion\<close>

definition vring_packed_desc_is_used :: "u16 \<Rightarrow> u8 \<Rightarrow> vring_packed_virtq \<Rightarrow> bool" where
  "vring_packed_desc_is_used used_idx used_wrap_counter vq =
    (let flags = vd_flags (vdesc vq ! unat used_idx);
         avail = flag_int (flag_avail flags);
         used = flag_int (flag_used flags)
     in avail = used \<and> used = used_wrap_counter)"

definition vring_packed_more_used :: "vring_packed_virtq \<Rightarrow> bool" where
  "vring_packed_more_used vq = vring_packed_desc_is_used (g_next_used_idx vq) (g_used_wrap_counter vq) vq"

definition vring_packed_more_pending :: "vring_packed_virtq \<Rightarrow> bool" where
  "vring_packed_more_pending vq =
    (let flags = vd_flags (vdesc vq ! unat (g_next_used_idx vq));
         avail = flag_int (flag_avail flags);
         used = flag_int (flag_used flags)
     in avail \<noteq> used \<and> used \<noteq> g_used_wrap_counter vq)"

text \<open>\<open>None\<close> is the return value -1 (the identifier is out of range or not busy).\<close>

definition vring_packed_get ::
  "bpfhv_buf \<Rightarrow> vring_packed_virtq \<Rightarrow> (bpfhv_buf \<times> vring_packed_virtq) option" where
  "vring_packed_get b vq =
    (let used_idx = g_next_used_idx vq;
         d = vdesc vq ! unat used_idx;
         id = vd_id d in
     if ucast id \<ge> num_desc vq \<or> ds_busy (vstate vq ! unat id) = 0 then None
     else
       let b = b\<lparr>buf_cookie := ds_cookie (vstate vq ! unat id), buf_paddr := vd_addr d, buf_len := vd_len d\<rparr>;
           vq = upd_state id (\<lambda>s. s\<lparr>ds_busy := 0, ds_next := g_next_free_id vq\<rparr>) vq;
           vq = vq\<lparr>g_next_free_id := id\<rparr>;
           used_idx = used_idx + 1;
           vq = (if ucast used_idx \<ge> num_desc vq then
                   vq\<lparr>g_used_wrap_counter := g_used_wrap_counter vq XOR 1, g_next_used_idx := 0\<rparr>
                 else vq\<lparr>g_next_used_idx := used_idx\<rparr>)
       in Some (b, vq))"

definition vring_packed_intr :: "u16 \<Rightarrow> vring_packed_virtq \<Rightarrow> int \<times> vring_packed_virtq" where
  "vring_packed_intr min_bufs vq =
    (if min_bufs = 0 then
       (0, vq\<lparr>driver_event := (driver_event vq)\<lparr>ev_flags := VRING_PACKED_EVENT_FLAG_DISABLE\<rparr>\<rparr>)
     else if ucast min_bufs > num_desc vq then (-1, vq)
     else
       let used_idx = g_next_used_idx vq + (min_bufs - 1);
           wrap = g_used_wrap_counter vq;
           (used_idx, wrap) = (if ucast used_idx \<ge> num_desc vq
              then (used_idx - ucast (num_desc vq), wrap XOR 1) else (used_idx, wrap));
           vq = vq\<lparr>driver_event := \<lparr>ev_off_wrap = used_idx
                  OR push_bit VRING_PACKED_EVENT_F_WRAP_CTR (ucast wrap),
                ev_flags = VRING_PACKED_EVENT_FLAG_DESC\<rparr>\<rparr>
       in (if vring_packed_desc_is_used used_idx wrap vq then 1 else 0, vq))"

definition got_one :: "bpfhv_context \<Rightarrow> bpfhv_buf \<Rightarrow> bpfhv_context" where
  "got_one ctx b = ctx\<lparr>bufs := (bufs ctx)[0 := b], num_bufs := 1, oflags := 0\<rparr>"

definition vring_packed_txc ::
  "bpfhv_tx_context \<Rightarrow> vring_packed_virtq \<Rightarrow> int \<times> bpfhv_tx_context \<times> vring_packed_virtq" where
  "vring_packed_txc ctx vq =
    (if \<not> vring_packed_more_used vq then (0, ctx, vq)
     else case vring_packed_get (bufs ctx ! 0) vq of
       None \<Rightarrow> (-1, ctx, vq)
     | Some (b, vq) \<Rightarrow> (1, got_one ctx b, vq))"

definition vring_packed_txr ::
  "bpfhv_tx_context \<Rightarrow> vring_packed_virtq \<Rightarrow> int \<times> bpfhv_tx_context \<times> vring_packed_virtq" where
  "vring_packed_txr ctx vq =
    (if \<not> vring_packed_more_pending vq then (0, ctx, vq)
     else case vring_packed_get (bufs ctx ! 0) vq of
       None \<Rightarrow> (-1, ctx, vq)
     | Some (b, vq) \<Rightarrow> (1, got_one ctx b, vq))"

definition vring_packed_txi ::
  "bpfhv_tx_context \<Rightarrow> vring_packed_virtq \<Rightarrow> int \<times> vring_packed_virtq" where
  "vring_packed_txi ctx vq = vring_packed_intr (ucast (min_completed_bufs ctx)) vq"

definition vring_packed_rxc ::
  "(bpfhv_rx_context \<Rightarrow> int \<times> bpfhv_rx_context) \<Rightarrow> bpfhv_rx_context \<Rightarrow> vring_packed_virtq
    \<Rightarrow> int \<times> bpfhv_rx_context \<times> vring_packed_virtq" where
  "vring_packed_rxc rx_pkt_alloc ctx vq =
    (if \<not> vring_packed_more_used vq then (0, ctx, vq)
     else case vring_packed_get (bufs ctx ! 0) vq of
       None \<Rightarrow> (-1, ctx, vq)
     | Some (b, vq) \<Rightarrow>
         let (ret, ctx) = rx_pkt_alloc (got_one ctx b)
         in if ret < 0 then (ret, ctx, vq) else (1, ctx, vq))"

text \<open>The loop of \<open>rxr\<close>: the buffers taken back so far and whether the last attempt
  failed.\<close>

fun vring_packed_rxr_loop ::
  "nat \<Rightarrow> nat \<Rightarrow> bpfhv_buf list \<Rightarrow> vring_packed_virtq \<Rightarrow> nat \<times> bool \<times> bpfhv_buf list \<times> vring_packed_virtq" where
  "vring_packed_rxr_loop 0 i bs vq = (i, False, bs, vq)"
| "vring_packed_rxr_loop (Suc n) i bs vq =
    (if \<not> vring_packed_more_pending vq then (i, False, bs, vq)
     else case vring_packed_get (bs ! i) vq of
       None \<Rightarrow> (i, True, bs, vq)
     | Some (b, vq) \<Rightarrow> vring_packed_rxr_loop n (Suc i) (bs[i := b]) vq)"

definition vring_packed_rxr ::
  "bpfhv_rx_context \<Rightarrow> vring_packed_virtq \<Rightarrow> int \<times> bpfhv_rx_context \<times> vring_packed_virtq" where
  "vring_packed_rxr ctx vq =
    (if \<not> vring_packed_more_pending vq then (0, ctx, vq)
     else
       let (i, failed, bs, vq) = vring_packed_rxr_loop (unat BPFHV_MAX_RX_BUFS) 0 (bufs ctx) vq in
       if failed \<and> i = 0 then (-1, ctx, vq)
       else (1, ctx\<lparr>bufs := bs, num_bufs := of_nat i, oflags := 0\<rparr>, vq))"

definition vring_packed_rxi ::
  "bpfhv_rx_context \<Rightarrow> vring_packed_virtq \<Rightarrow> int \<times> vring_packed_virtq" where
  "vring_packed_rxi ctx vq = vring_packed_intr (ucast (min_completed_bufs ctx)) vq"

end
