(* ===== verification/Vring_Backend.thy ===== *)
theory Vring_Backend
  imports Vring_Packed Guest_Memory
begin

text \<open>
  The hypervisor side of the packed virtqueue (\<open>proxy/vring_packed.c\<close>): in-order
  draining and filling, and the three operations that the packet scheduler uses to
  complete transmit buffers out of order (acquire, release, notify).

  As for the \<open>sring\<close> device the guest's concurrent activity is a list of updates of
  the queue; one takes effect before each load of a shared field that decides how the
  host goes on (the flags of the next descriptor, the event suppression structure).
  An access outside the arrays that follow the queue structure, or a failed
  assertion, is the value \<open>None\<close>.
\<close>

section \<open>Indices of the host\<close>

definition vring_packed_more_avail :: "vring_packed_virtq \<Rightarrow> bool" where
  "vring_packed_more_avail vq =
    (let flags = vd_flags (vdesc vq ! unat (h_next_avail_idx vq));
         avail = flag_int (flag_avail flags);
         used = flag_int (flag_used flags)
     in avail \<noteq> used \<and> avail = h_avail_wrap_counter vq)"

definition vring_packed_advance_avail :: "vring_packed_virtq \<Rightarrow> vring_packed_virtq" where
  "vring_packed_advance_avail vq =
    (let i = h_next_avail_idx vq + 1 in
     if ucast i \<ge> num_desc vq then
       vq\<lparr>h_next_avail_idx := 0, h_avail_wrap_counter := h_avail_wrap_counter vq XOR 1\<rparr>
     else vq\<lparr>h_next_avail_idx := i\<rparr>)"

definition vring_packed_advance_used :: "vring_packed_virtq \<Rightarrow> vring_packed_virtq" where
  "vring_packed_advance_used vq =
    (let i = h_next_used_idx vq + 1 in
     if ucast i \<ge> num_desc vq then
       vq\<lparr>h_next_used_idx := 0, h_used_wrap_counter := h_used_wrap_counter vq XOR 1,
          h_avail_used_flags := h_avail_used_flags vq XOR avail_used_mask\<rparr>
     else vq\<lparr>h_next_used_idx := i\<rparr>)"

definition vring_packed_intr_needed :: "u16 \<Rightarrow> vring_packed_virtq \<Rightarrow> bool" where
  "vring_packed_intr_needed num_consumed vq =
     vring_event_needed (driver_event vq) (h_next_used_idx vq) (h_used_wrap_counter vq)
       (num_desc vq) num_consumed"

section \<open>Loop states\<close>

type_synonym 'w viofun = "iovec list \<Rightarrow> 'w \<Rightarrow> int \<times> bool \<times> 'w"

record 'w vloop =
  vl_guest :: "(vring_packed_virtq \<Rightarrow> vring_packed_virtq) list"
  vl_vq :: vring_packed_virtq
  vl_be :: be_mem
  vl_world :: 'w
  vl_queue :: BpfhvBackendQueue
  vl_count :: nat
  vl_can :: bool

definition vring_guest_step :: "('w, 'z) vloop_scheme \<Rightarrow> ('w, 'z) vloop_scheme" where
  "vring_guest_step l = (case vl_guest l of [] \<Rightarrow> l
     | g # gs \<Rightarrow> l\<lparr>vl_guest := gs, vl_vq := g (vl_vq l)\<rparr>)"

definition vring_set_kick :: "bool \<Rightarrow> ('w, 'z) vloop_scheme \<Rightarrow> ('w, 'z) vloop_scheme" where
  "vring_set_kick enable l = l\<lparr>vl_vq := vring_packed_notification enable (vl_vq l)\<rparr>"

text \<open>The test at the top of the loops: \<open>Inl\<close> leaves the loop, \<open>Inr\<close> goes on with an
  available descriptor.\<close>

definition vring_packed_more ::
  "bool \<Rightarrow> ('w, 'z) vloop_scheme \<Rightarrow> ('w, 'z) vloop_scheme + ('w, 'z) vloop_scheme" where
  "vring_packed_more blocking l =
    (let l = vring_guest_step l in
     if vring_packed_more_avail (vl_vq l) then Inr l
     else if \<not> blocking then Inl l
     else
       let l = vring_guest_step (vring_set_kick True l) in
       if \<not> vring_packed_more_avail (vl_vq l) then Inl l
       else Inr (vring_set_kick False l))"

text \<open>Exposing the used descriptor and advancing both indices.\<close>

definition vring_copy_used :: "vring_packed_virtq \<Rightarrow> vring_packed_virtq" where
  "vring_copy_used vq =
    (if h_next_avail_idx vq \<noteq> h_next_used_idx vq
     then upd_desc (h_next_used_idx vq) (\<lambda>_. vdesc vq ! unat (h_next_avail_idx vq)) vq else vq)"

definition vring_expose :: "vring_packed_virtq \<Rightarrow> vring_packed_virtq" where
  "vring_expose vq =
    (let vq = upd_desc (h_next_used_idx vq) (\<lambda>d. d\<lparr>vd_flags := h_avail_used_flags vq\<rparr>) vq
     in vring_packed_advance_used (vring_packed_advance_avail vq))"

definition vring_stats_bufs :: "BpfhvBackendQueue \<Rightarrow> BpfhvBackendQueue" where
  "vring_stats_bufs q = q\<lparr>q_stats := (q_stats q)\<lparr>st_bufs := st_bufs (q_stats q) + 1\<rparr>\<rparr>"

definition vring_stats_batch :: "u64 \<Rightarrow> BpfhvBackendQueue \<Rightarrow> BpfhvBackendQueue" where
  "vring_stats_batch n q = q\<lparr>q_stats := (q_stats q)\<lparr>
     st_pkts := st_pkts (q_stats q) + n, st_batches := st_batches (q_stats q) + 1\<rparr>\<rparr>"

definition vring_done ::
  "(vring_packed_virtq \<Rightarrow> vring_packed_virtq) \<Rightarrow> ('w, 'z) vloop_scheme \<Rightarrow> ('w, 'z) vloop_scheme" where
  "vring_done f l = l\<lparr>vl_vq := f (vl_vq l), vl_queue := vring_stats_bufs (vl_queue l),
     vl_count := vl_count l + 1\<rparr>"

section \<open>Draining the transmit queue\<close>

definition vring_packed_txq_drain_iter ::
  "'w viofun \<Rightarrow> bool \<Rightarrow> 'w vloop \<Rightarrow> bool \<times> 'w vloop" where
  "vring_packed_txq_drain_iter send blocking l =
    (case vring_packed_more blocking l of
       Inl l \<Rightarrow> (False, l)
     | Inr l \<Rightarrow>
         if vl_count l \<ge> BPFHV_BE_TX_BUDGET then (False, l)
         else
           let d = vdesc (vl_vq l) ! unat (h_next_avail_idx (vl_vq l));
               (base, be) = translate_addr (vl_be l) (vd_addr d) (ucast (vd_len d));
               l = l\<lparr>vl_be := be\<rparr> in
           if base = 0 then (True, vring_done (\<lambda>vq. vring_expose (vring_copy_used vq)) l)
           else
             let (ret, eagain, w) = send [\<lparr>iov_base = base, iov_len = ucast (vd_len d)\<rparr>] (vl_world l);
                 l = l\<lparr>vl_world := w\<rparr> in
             if ret \<le> 0 then
               (False, l\<lparr>vl_can := (if ret < 0 \<and> blocking \<and> eagain then False else vl_can l)\<rparr>)
             else (True, vring_done (\<lambda>vq. vring_expose (vring_copy_used vq)) l))"

function vring_packed_txq_drain_loop :: "'w viofun \<Rightarrow> bool \<Rightarrow> 'w vloop \<Rightarrow> 'w vloop" where
  "vring_packed_txq_drain_loop send blocking l =
    (case vring_packed_txq_drain_iter send blocking l of (continue, l') \<Rightarrow>
       if continue then vring_packed_txq_drain_loop send blocking l' else l')"
  by pat_completeness auto

lemma vring_step_fields [simp]:
  "vl_count (vring_guest_step l) = vl_count l" "vl_count (vring_set_kick e l) = vl_count l"
  "vl_be (vring_guest_step l) = vl_be l" "vl_be (vring_set_kick e l) = vl_be l"
  "vl_world (vring_guest_step l) = vl_world l" "vl_world (vring_set_kick e l) = vl_world l"
  "vl_queue (vring_guest_step l) = vl_queue l" "vl_queue (vring_set_kick e l) = vl_queue l"
  "vl_count (vring_done f l) = Suc (vl_count l)"
  by (simp_all add: vring_guest_step_def vring_set_kick_def vring_done_def split: list.split)

lemma vring_packed_more_count:
  "vring_packed_more blocking l = Inl l' \<Longrightarrow> vl_count l' = vl_count l"
  "vring_packed_more blocking l = Inr l' \<Longrightarrow> vl_count l' = vl_count l"
  by (auto simp: vring_packed_more_def Let_def split: if_splits)

lemma vring_packed_txq_drain_iter_count:
  "vring_packed_txq_drain_iter send blocking l = (True, l') \<Longrightarrow> vl_count l < 128 \<and> vl_count l' = Suc (vl_count l)"
  using vring_packed_more_count [of blocking l]
  by (auto simp: vring_packed_txq_drain_iter_def Let_def BPFHV_BE_TX_BUDGET_def
      split: sum.splits if_splits prod.splits)

termination vring_packed_txq_drain_loop
  by (relation "measure (\<lambda>(send, blocking, l). 128 - vl_count l)")
    (auto dest!: vring_packed_txq_drain_iter_count [OF sym])

declare vring_packed_txq_drain_loop.simps [simp del]

definition vring_start ::
  "bool option \<Rightarrow> (vring_packed_virtq \<Rightarrow> vring_packed_virtq) list \<Rightarrow> be_mem \<Rightarrow> 'w \<Rightarrow> BpfhvBackendQueue
    \<Rightarrow> vring_packed_virtq \<Rightarrow> 'w vloop" where
  "vring_start can guest be w q vq = \<lparr>vl_guest = guest, vl_vq = vq, vl_be = be, vl_world = w,
     vl_queue = q\<lparr>q_notify := False\<rparr>, vl_count = 0, vl_can = (case can of None \<Rightarrow> False | Some b \<Rightarrow> b)\<rparr>"

definition vring_finish :: "('w, 'z) vloop_scheme \<Rightarrow> ('w, 'z) vloop_scheme" where
  "vring_finish l =
    (if vl_count l > 0 then
       let l = vring_guest_step l;
           notify = vring_packed_intr_needed (of_nat (vl_count l)) (vl_vq l)
       in l\<lparr>vl_queue := vring_stats_batch (of_nat (vl_count l)) ((vl_queue l)\<lparr>q_notify := notify\<rparr>)\<rparr>
     else l)"

definition vring_packed_txq_drain ::
  "'w viofun \<Rightarrow> bool option \<Rightarrow> (vring_packed_virtq \<Rightarrow> vring_packed_virtq) list \<Rightarrow> be_mem \<Rightarrow> 'w
    \<Rightarrow> BpfhvBackendQueue \<Rightarrow> vring_packed_virtq \<Rightarrow> 'w vloop" where
  "vring_packed_txq_drain send can_send guest be w txq vq =
    (let vq = (if can_send \<noteq> None then vring_packed_notification False vq else vq);
         l = vring_start can_send guest be w txq vq
     in vring_finish (vring_packed_txq_drain_loop send (can_send \<noteq> None) l))"

section \<open>Filling the receive queue\<close>

definition vring_packed_rxq_push_iter ::
  "'w viofun \<Rightarrow> bool \<Rightarrow> 'w vloop \<Rightarrow> bool \<times> 'w vloop" where
  "vring_packed_rxq_push_iter recv blocking l =
    (case vring_packed_more blocking l of
       Inl l \<Rightarrow> (False, l)
     | Inr l \<Rightarrow>
         if vl_count l \<ge> BPFHV_BE_RX_BUDGET then (False, l)
         else
           let d = vdesc (vl_vq l) ! unat (h_next_avail_idx (vl_vq l));
               used_idx = h_next_used_idx (vl_vq l);
               (base, be) = translate_addr (vl_be l) (vd_addr d) (ucast (vd_len d));
               l = l\<lparr>vl_be := be, vl_vq := vring_copy_used (vl_vq l)\<rparr> in
           if base = 0 then
             (True, vring_done (\<lambda>vq. vring_expose (upd_desc used_idx (\<lambda>d. d\<lparr>vd_len := 0\<rparr>) vq)) l)
           else
             let (pktsize, eagain, w) = recv [\<lparr>iov_base = base, iov_len = ucast (vd_len d)\<rparr>] (vl_world l);
                 l = l\<lparr>vl_world := w\<rparr> in
             if pktsize \<le> 0 then (False, l)
             else (True, vring_done
               (\<lambda>vq. vring_expose (upd_desc used_idx (\<lambda>d. d\<lparr>vd_len := of_int pktsize\<rparr>) vq)) l))"

function vring_packed_rxq_push_loop :: "'w viofun \<Rightarrow> bool \<Rightarrow> 'w vloop \<Rightarrow> 'w vloop" where
  "vring_packed_rxq_push_loop recv blocking l =
    (case vring_packed_rxq_push_iter recv blocking l of (continue, l') \<Rightarrow>
       if continue then vring_packed_rxq_push_loop recv blocking l' else l')"
  by pat_completeness auto

lemma vring_packed_rxq_push_iter_count:
  "vring_packed_rxq_push_iter recv blocking l = (True, l') \<Longrightarrow> vl_count l < 128 \<and> vl_count l' = Suc (vl_count l)"
  using vring_packed_more_count [of blocking l]
  by (auto simp: vring_packed_rxq_push_iter_def Let_def BPFHV_BE_RX_BUDGET_def
      split: sum.splits if_splits prod.splits)

termination vring_packed_rxq_push_loop
  by (relation "measure (\<lambda>(recv, blocking, l). 128 - vl_count l)")
    (auto dest!: vring_packed_rxq_push_iter_count [OF sym])

declare vring_packed_rxq_push_loop.simps [simp del]

definition vring_packed_rxq_push ::
  "'w viofun \<Rightarrow> bool option \<Rightarrow> (vring_packed_virtq \<Rightarrow> vring_packed_virtq) list \<Rightarrow> be_mem \<Rightarrow> 'w
    \<Rightarrow> BpfhvBackendQueue \<Rightarrow> vring_packed_virtq \<Rightarrow> 'w vloop" where
  "vring_packed_rxq_push recv can_receive guest be w rxq vq =
    (let vq = (if h_device_event_flags vq \<noteq> VRING_PACKED_EVENT_FLAG_DISABLE
               then vring_packed_notification False vq else vq);
         l = vring_start can_receive guest be w rxq vq
     in vring_finish (vring_packed_rxq_push_loop recv (can_receive \<noteq> None) l))"

section \<open>Out-of-order completion\<close>

text \<open>\<open>vring_packed_desc_swap_acquired\<close>; the assertion compares the flags, which are not
  swapped.\<close>

definition vring_packed_desc_swap_acquired ::
  "u16 \<Rightarrow> u16 \<Rightarrow> vring_packed_virtq \<Rightarrow> vring_packed_virtq option" where
  "vring_packed_desc_swap_acquired idx1 idx2 vq =
    (let d1 = vdesc vq ! unat idx1;
         d2 = vdesc vq ! unat idx2;
         vq = upd_desc idx1 (\<lambda>d. d\<lparr>vd_addr := vd_addr d2, vd_len := vd_len d2, vd_id := vd_id d2\<rparr>) vq;
         vq = upd_desc idx2 (\<lambda>d. d\<lparr>vd_addr := vd_addr d1, vd_len := vd_len d1, vd_id := vd_id d1\<rparr>) vq
     in if idx1 = idx2 \<or> (idx1 < idx2 \<and> vd_flags d1 = vd_flags d2) \<or>
          (idx1 > idx2 \<and> vd_flags d1 XOR vd_flags d2 = avail_used_mask)
        then Some vq else None)"

definition vring_packed_txq_release :: "u64 \<Rightarrow> vring_packed_virtq \<Rightarrow> vring_packed_virtq option" where
  "vring_packed_txq_release opaque_id vq =
    (let used_idx = h_next_used_idx vq;
         id = (ucast opaque_id :: u16) in
     if g_pending_inuse_counter vq = 0 then Some vq
     else if unat id \<ge> length (hv_map vq) then None
     else do {
       let idx = (ucast (hv_map vq ! unat id) :: u16);
       vq \<leftarrow> (if idx \<noteq> used_idx then
                 let used_id = vd_id (vdesc vq ! unat used_idx) in
                 if unat used_id \<ge> length (hv_map vq) \<or> unat idx \<ge> length (vdesc vq) then None
                 else vring_packed_desc_swap_acquired used_idx idx
                        (vq\<lparr>hv_map := (hv_map vq)[unat used_id := ucast idx]\<rparr>)
               else Some vq);
       let vq = upd_desc used_idx (\<lambda>d. d\<lparr>vd_flags := h_avail_used_flags vq\<rparr>) vq;
       let vq = vq\<lparr>g_pending_inuse_counter := g_pending_inuse_counter vq - 1\<rparr>;
       let vq = vring_packed_advance_used vq;
       Some (vq\<lparr>g_pending_used_counter := g_pending_used_counter vq + 1\<rparr>) })"

definition vring_packed_txq_notify ::
  "BpfhvBackendQueue \<Rightarrow> vring_packed_virtq \<Rightarrow> u32 \<times> BpfhvBackendQueue \<times> vring_packed_virtq" where
  "vring_packed_txq_notify txq vq =
    (let n = g_pending_used_counter vq in
     if n > 0 then
       (n, vring_stats_batch (ucast n) (txq\<lparr>q_notify := vring_packed_intr_needed (ucast n) vq\<rparr>),
        vq\<lparr>g_pending_used_counter := 0\<rparr>)
     else (n, txq, vq))"

datatype mark_mode = MARK_MODE_GUEST | MARK_MODE_HV | MARK_MODE_NO_MARK

text \<open>The scheduler's \<open>sched_enqueue\<close> gets the buffer, its identifier and its mark; a
  positive result means that the packet was dropped.  \<open>va_out\<close> is \<open>*dropped\<close>, which is
  \<open>None\<close> as long as it has not been written.\<close>

type_synonym 'w enq_fun = "iovec \<Rightarrow> u16 \<Rightarrow> u32 \<Rightarrow> 'w \<Rightarrow> int \<times> 'w"

record 'w acq_loop = "'w vloop" +
  va_dropped :: nat
  va_out :: "nat option"

definition vring_mark ::
  "mark_mode \<Rightarrow> (iovec \<Rightarrow> u32) \<Rightarrow> vring_packed_desc \<Rightarrow> iovec \<Rightarrow> u32" where
  "vring_mark mode hv_mark d iov = (case mode of
       MARK_MODE_GUEST \<Rightarrow> vd_mark d
     | MARK_MODE_HV \<Rightarrow> hv_mark iov
     | MARK_MODE_NO_MARK \<Rightarrow> 0)"

definition vring_acquire_one ::
  "mark_mode \<Rightarrow> (iovec \<Rightarrow> u32) \<Rightarrow> 'w enq_fun \<Rightarrow> u64 \<Rightarrow> 'w acq_loop \<Rightarrow> 'w acq_loop option" where
  "vring_acquire_one mode hv_mark enq base l =
    (let avail_idx = h_next_avail_idx (vl_vq l);
         d = vdesc (vl_vq l) ! unat avail_idx;
         iov = \<lparr>iov_base = base, iov_len = ucast (vd_len d)\<rparr> in
     if unat (vd_id d) \<ge> length (hv_map (vl_vq l)) then None
     else do {
       let vq = (vl_vq l)\<lparr>hv_map := (hv_map (vl_vq l))[unat (vd_id d) := ucast avail_idx]\<rparr>;
       let (ret, w) = enq iov (vd_id d) (vring_mark mode hv_mark d iov) (vl_world l);
       if ret > 0 then do {
         vq \<leftarrow> vring_packed_txq_release (ucast (vd_id d)) vq;
         Some (l\<lparr>vl_vq := vq\<lparr>g_avail_dropped := g_avail_dropped vq + 1\<rparr>, vl_world := w,
                va_dropped := va_dropped l + 1\<rparr>) }
       else Some (l\<lparr>vl_vq := vq, vl_world := w\<rparr>) })"

definition vring_packed_txq_acquire_iter ::
  "mark_mode \<Rightarrow> (iovec \<Rightarrow> u32) \<Rightarrow> 'w enq_fun \<Rightarrow> bool \<Rightarrow> 'w acq_loop \<Rightarrow> (bool \<times> 'w acq_loop) option" where
  "vring_packed_txq_acquire_iter mode hv_mark enq blocking l =
    (case vring_packed_more blocking l of
       Inl l \<Rightarrow> Some (False, l\<lparr>va_out := Some (va_dropped l)\<rparr>)
     | Inr l \<Rightarrow>
         if vl_count l \<ge> BPFHV_BE_TX_BUDGET then Some (False, l)
         else do {
           let d = vdesc (vl_vq l) ! unat (h_next_avail_idx (vl_vq l));
           let (base, be) = translate_addr (vl_be l) (vd_addr d) (ucast (vd_len d));
           let l = l\<lparr>vl_be := be\<rparr>;
           l \<leftarrow> (if base = 0 then Some l else vring_acquire_one mode hv_mark enq base l);
           Some (True, vring_done (\<lambda>vq. vring_packed_advance_avail
             (vq\<lparr>g_pending_inuse_counter := g_pending_inuse_counter vq + 1\<rparr>)) l) })"

function vring_packed_txq_acquire_loop ::
  "mark_mode \<Rightarrow> (iovec \<Rightarrow> u32) \<Rightarrow> 'w enq_fun \<Rightarrow> bool \<Rightarrow> 'w acq_loop \<Rightarrow> 'w acq_loop option" where
  "vring_packed_txq_acquire_loop mode hv_mark enq blocking l =
    (case vring_packed_txq_acquire_iter mode hv_mark enq blocking l of
       None \<Rightarrow> None
     | Some (continue, l') \<Rightarrow>
         if continue then vring_packed_txq_acquire_loop mode hv_mark enq blocking l' else Some l')"
  by pat_completeness auto

lemma vring_acquire_one_count:
  "vring_acquire_one mode hv_mark enq base l = Some l' \<Longrightarrow> vl_count l' = vl_count l"
  by (auto simp: vring_acquire_one_def Let_def bind_eq_Some_conv split: if_splits prod.splits)

lemma vring_packed_txq_acquire_iter_count:
  assumes "vring_packed_txq_acquire_iter mode hv_mark enq blocking l = Some (True, l')"
  shows "vl_count l < 128 \<and> vl_count l' = Suc (vl_count l)"
  using assms vring_packed_more_count [of blocking l]
  by (auto simp: vring_packed_txq_acquire_iter_def Let_def BPFHV_BE_TX_BUDGET_def bind_eq_Some_conv
      dest!: vring_acquire_one_count split: sum.splits if_splits prod.splits)

termination vring_packed_txq_acquire_loop
  by (relation "measure (\<lambda>(mode, hv_mark, enq, blocking, l). 128 - vl_count l)")
    (auto dest!: vring_packed_txq_acquire_iter_count)

declare vring_packed_txq_acquire_loop.simps [simp del]

definition vring_packed_txq_acquire ::
  "mark_mode \<Rightarrow> (iovec \<Rightarrow> u32) \<Rightarrow> 'w enq_fun \<Rightarrow> bool option
    \<Rightarrow> (vring_packed_virtq \<Rightarrow> vring_packed_virtq) list \<Rightarrow> be_mem \<Rightarrow> 'w \<Rightarrow> BpfhvBackendQueue
    \<Rightarrow> vring_packed_virtq \<Rightarrow> 'w acq_loop option" where
  "vring_packed_txq_acquire mode hv_mark enq can_send guest be w txq vq =
    (let vq = (if can_send \<noteq> None then vring_packed_notification False vq else vq);
         l = vloop.extend (vring_start can_send guest be w txq vq) (acq_loop.fields 0 None)
     in vring_packed_txq_acquire_loop mode hv_mark enq (can_send \<noteq> None) l)"

end
