(* ===== verification/Vring_Contract.thy ===== *)
theory Vring_Contract
  imports Vring_Backend Handoff
begin

text \<open>
  What the packed virtqueue promises.  Positions are counted without wrapping: the
  guest has published \<open>A\<close> buffers and taken back \<open>U\<close>, the host has acquired \<open>H\<close> and
  completed \<open>R\<close> of them.  The invariant says that every index and wrap counter is the
  corresponding position taken modulo the size of the array and the parity of its lap,
  and that the two flag bits of each descriptor say on which side of \<open>U\<close>, \<open>R\<close> and \<open>A\<close>
  it is.
\<close>

section \<open>Indices with wrap counters\<close>

definition vcur :: "nat \<Rightarrow> nat \<Rightarrow> u16 \<Rightarrow> u8 \<Rightarrow> bool" where
  "vcur N p i w \<longleftrightarrow> unat i = p mod N \<and> w = flag_int (even (p div N))"

lemma flag_int_inj [simp]: "flag_int a = flag_int b \<longleftrightarrow> a = b"
  by (simp add: flag_int_def)

lemma flag_int_xor [simp]: "flag_int b XOR 1 = flag_int (\<not> b)"
  by (simp add: flag_int_def)

lemma idx_at_end:
  assumes "0 < N" "N \<le> 2 ^ 15" "unat (i::u16) < N"
  shows "(ucast (i + 1) :: u32) \<ge> of_nat N \<longleftrightarrow> Suc (unat i) = N" "unat (i + 1) = Suc (unat i)"
proof -
  show u: "unat (i + 1) = Suc (unat i)"
    using assms by (simp add: unat_word_ariths)
  have "unat (ucast (i + 1) :: u32) = Suc (unat i)"
    using u by (simp add: unat_ucast_up)
  moreover have "unat (of_nat N :: u32) = N" using assms by (simp add: unat_of_nat)
  ultimately show "(ucast (i + 1) :: u32) \<ge> of_nat N \<longleftrightarrow> Suc (unat i) = N"
    using assms(3) by (auto simp: word_le_nat_alt)
qed

lemma vcur_less: "0 < N \<Longrightarrow> vcur N p i w \<Longrightarrow> unat i < N"
  by (simp add: vcur_def)

lemma lap_Suc:
  fixes p N :: nat
  assumes "0 < N"
  shows "Suc (p mod N) = N \<Longrightarrow> Suc p mod N = 0 \<and> Suc p div N = Suc (p div N)"
    and "Suc (p mod N) \<noteq> N \<Longrightarrow> Suc p mod N = Suc (p mod N) \<and> Suc p div N = p div N"
  using assms by (simp_all add: mod_Suc div_Suc)

lemma vcur_step:
  assumes "0 < N" "N \<le> 2 ^ 15" "vcur N p i w"
  shows "(ucast (i + 1) :: u32) \<ge> of_nat N \<Longrightarrow> vcur N (Suc p) 0 (w XOR 1)"
    and "\<not> (ucast (i + 1) :: u32) \<ge> of_nat N \<Longrightarrow> vcur N (Suc p) (i + 1) w"
  using idx_at_end [OF assms(1,2) vcur_less [OF assms(1,3)]] assms(3) lap_Suc [OF assms(1), of p]
  by (auto simp: vcur_def)

lemma mod_window_inj:
  fixes p q U N :: nat
  assumes "p mod N = q mod N" "U \<le> p" "p < U + N" "U \<le> q" "q < U + N"
  shows "p = q"
proof -
  have "(U + (p - U)) mod N = (U + (q - U)) mod N" using assms by simp
  then have "p - U = q - U" using assms by (intro mod_add_inj [of U "p - U" N "q - U"]) auto
  then show ?thesis using assms by simp
qed

lemma nth_update_same: "f y = f (xs ! i) \<Longrightarrow> f (xs[i := y] ! j) = f (xs ! j)"
  by (cases "i = j"; cases "i < length xs") (simp_all add: list_update_beyond)

section \<open>Flag bits\<close>

definition is_free :: "nat \<Rightarrow> nat \<Rightarrow> u16 \<Rightarrow> bool" where
  "is_free N p f \<longleftrightarrow> flag_avail f = odd (p div N) \<and> flag_used f = odd (p div N)"

definition is_avail :: "nat \<Rightarrow> nat \<Rightarrow> u16 \<Rightarrow> bool" where
  "is_avail N p f \<longleftrightarrow> flag_avail f = even (p div N) \<and> flag_used f = odd (p div N)"

definition is_used :: "nat \<Rightarrow> nat \<Rightarrow> u16 \<Rightarrow> bool" where
  "is_used N p f \<longleftrightarrow> flag_avail f = even (p div N) \<and> flag_used f = even (p div N)"

definition vq_flags :: "nat \<Rightarrow> nat \<Rightarrow> nat \<Rightarrow> nat \<Rightarrow> vring_packed_desc list \<Rightarrow> bool" where
  "vq_flags N U R A ds \<longleftrightarrow>
    (\<forall>p. U \<le> p \<and> p < R \<longrightarrow> is_used N p (vd_flags (ds ! (p mod N)))) \<and>
    (\<forall>p. R \<le> p \<and> p < A \<longrightarrow> is_avail N p (vd_flags (ds ! (p mod N)))) \<and>
    (\<forall>p. A \<le> p \<and> p < U + N \<longrightarrow> is_free N p (vd_flags (ds ! (p mod N))))"

lemma window_upd:
  assumes "length ds = N" "U \<le> p" "p < U + N" "U \<le> q" "q < U + N"
  shows "ds[q mod N := d] ! (p mod N) = (if p = q then d else ds ! (p mod N))"
  using assms mod_window_inj [of p N q U] by (auto simp: nth_list_update)

lemma vq_flags_add:
  assumes "vq_flags N U R A ds" "R \<le> A" "U \<le> R" "A < U + N" "length ds = N" "is_avail N A (vd_flags d)"
  shows "vq_flags N U R (Suc A) (ds[A mod N := d])"
  using assms window_upd [OF assms(5), of U _ A d]
  unfolding vq_flags_def by (auto simp: less_Suc_eq)

lemma vq_flags_expose:
  assumes "vq_flags N U R A ds" "R < A" "U \<le> R" "A \<le> U + N" "length ds = N" "is_used N R (vd_flags d)"
  shows "vq_flags N U (Suc R) A (ds[R mod N := d])"
  using assms window_upd [OF assms(5), of U _ R d]
  unfolding vq_flags_def by (auto simp: less_Suc_eq)

lemma vq_flags_get:
  assumes "vq_flags N U R A ds" "U < R" "R \<le> A" "A \<le> U + N" "0 < N"
  shows "vq_flags N (Suc U) R A ds"
proof -
  have "is_used N U (vd_flags (ds ! (U mod N)))" using assms by (simp add: vq_flags_def)
  then have "is_free N (U + N) (vd_flags (ds ! ((U + N) mod N)))"
    using assms(5) by (simp add: is_used_def is_free_def div_add_self2)
  then show ?thesis
    using assms unfolding vq_flags_def by (auto simp: less_Suc_eq)
qed

lemma vq_flags_cong:
  assumes "vq_flags N U R A ds" "\<And>i. vd_flags (ds' ! i) = vd_flags (ds ! i)"
  shows "vq_flags N U R A ds'"
  using assms by (simp add: vq_flags_def)

section \<open>Buffer identifiers\<close>

fun free_list :: "vring_packed_desc_state list \<Rightarrow> u16 \<Rightarrow> u16 list \<Rightarrow> bool" where
  "free_list st i [] \<longleftrightarrow> True"
| "free_list st i (x # xs) \<longleftrightarrow> i = x \<and> free_list st (ds_next (st ! unat x)) xs"

definition pos_ids :: "nat \<Rightarrow> nat \<Rightarrow> nat \<Rightarrow> vring_packed_desc list \<Rightarrow> u16 list" where
  "pos_ids N U A ds = map (\<lambda>p. vd_id (ds ! (p mod N))) [U..<A]"

definition vq_ids ::
  "nat \<Rightarrow> nat \<Rightarrow> nat \<Rightarrow> vring_packed_desc list \<Rightarrow> vring_packed_desc_state list \<Rightarrow> u16 \<Rightarrow> bool" where
  "vq_ids N U A ds st i \<longleftrightarrow>
    (\<exists>fl. free_list st i fl \<and> distinct (fl @ pos_ids N U A ds) \<and>
      (\<forall>x \<in> set (fl @ pos_ids N U A ds). unat x < N) \<and> length fl + (A - U) = N \<and>
      (\<forall>x \<in> set (pos_ids N U A ds). ds_busy (st ! unat x) \<noteq> 0))"

lemma free_list_update:
  "x \<notin> set xs \<Longrightarrow> free_list (st[unat x := s]) i xs = free_list st i xs"
proof (induction xs arbitrary: i)
  case (Cons y ys)
  then have "unat x \<noteq> unat y" by (simp add: word_unat_eq_iff [symmetric])
  then show ?case using Cons by simp
qed simp

lemma length_pos_ids [simp]: "length (pos_ids N U A ds) = A - U"
  by (simp add: pos_ids_def)

lemma pos_ids_cong:
  "(\<And>i. vd_id (ds' ! i) = vd_id (ds ! i)) \<Longrightarrow> pos_ids N U A ds' = pos_ids N U A ds"
  by (simp add: pos_ids_def)

lemma pos_ids_add:
  assumes "U \<le> A" "A < U + N" "length ds = N"
  shows "pos_ids N U (Suc A) (ds[A mod N := d]) = pos_ids N U A ds @ [vd_id d]"
proof -
  have "vd_id (ds[A mod N := d] ! (p mod N)) = (if p = A then vd_id d else vd_id (ds ! (p mod N)))"
    if "U \<le> p" "p \<le> A" for p
    using window_upd [OF assms(3), of U p A d] that assms(2) by simp
  then show ?thesis using assms(1) by (simp add: pos_ids_def)
qed

lemma pos_ids_get: "U < A \<Longrightarrow> pos_ids N U A ds = vd_id (ds ! (U mod N)) # pos_ids N (Suc U) A ds"
  by (simp add: pos_ids_def) (subst upt_conv_Cons, simp_all)

lemma vq_ids_free:
  assumes "vq_ids N U A ds st i" "A < U + N" "U \<le> A"
  shows "unat i < N" "i \<notin> set (pos_ids N U A ds)"
proof -
  obtain fl where fl: "free_list st i fl" "distinct (fl @ pos_ids N U A ds)"
    "\<forall>x \<in> set (fl @ pos_ids N U A ds). unat x < N" "length fl + (A - U) = N"
    using assms(1) by (auto simp: vq_ids_def)
  then obtain xs where "fl = i # xs" using assms(2,3) by (cases fl) auto
  then show "unat i < N" "i \<notin> set (pos_ids N U A ds)" using fl by auto
qed

lemma vq_ids_add:
  assumes "vq_ids N U A ds st i" "U \<le> A" "A < U + N" "length ds = N" "length st = N"
    and "vd_id d = i" "ds_next s = ds_next (st ! unat i)" "ds_busy s \<noteq> 0"
  shows "vq_ids N U (Suc A) (ds[A mod N := d]) (st[unat i := s]) (ds_next (st ! unat i))"
proof -
  let ?ids = "pos_ids N U A ds"
  obtain fl where fl: "free_list st i fl" "distinct (fl @ ?ids)"
    "\<forall>x \<in> set (fl @ ?ids). unat x < N" "length fl + (A - U) = N"
    "\<forall>x \<in> set ?ids. ds_busy (st ! unat x) \<noteq> 0"
    using assms(1) by (auto simp: vq_ids_def)
  then obtain xs where xs: "fl = i # xs" using assms(2,3) by (cases fl) auto
  have "free_list (st[unat i := s]) (ds_next (st ! unat i)) xs"
    using fl xs free_list_update [of i xs st s] by simp
  moreover have "ds_busy (st[unat i := s] ! unat x) \<noteq> 0" if "x \<in> set (?ids @ [i])" for x
    using that fl xs assms(5,8) by (auto simp: nth_list_update)
  ultimately show ?thesis
    unfolding vq_ids_def pos_ids_add [OF assms(2-4)] assms(6)
    using fl(2,3,4) xs assms(2) by (intro exI [of _ xs]) auto
qed

lemma vq_ids_get:
  assumes "vq_ids N U A ds st i" "U < A" "length st = N"
    and "x = vd_id (ds ! (U mod N))" "ds_next s = i"
  shows "vq_ids N (Suc U) A ds (st[unat x := s]) x" "unat x < N" "ds_busy (st ! unat x) \<noteq> 0"
proof -
  have ids: "pos_ids N U A ds = x # pos_ids N (Suc U) A ds" using pos_ids_get assms(2,4) by simp
  let ?ids = "pos_ids N (Suc U) A ds"
  obtain fl where fl: "free_list st i fl" "distinct (fl @ x # ?ids)"
    "\<forall>y \<in> set (fl @ x # ?ids). unat y < N" "length fl + (A - U) = N"
    "\<forall>y \<in> set (x # ?ids). ds_busy (st ! unat y) \<noteq> 0"
    using assms(1) unfolding vq_ids_def ids by auto
  have "free_list (st[unat x := s]) x (x # fl)"
    using fl assms(3,5) free_list_update [of x fl st s] by auto
  moreover have "ds_busy (st[unat x := s] ! unat y) \<noteq> 0" if "y \<in> set ?ids" for y
    using that fl(2,5) by (cases "y = x") (simp_all, metis nth_list_update_neq word_unat_eq_iff)
  moreover have "length (x # fl) + (A - Suc U) = N" using fl(4) assms(2) by simp
  moreover have "distinct ((x # fl) @ ?ids)" "\<forall>y \<in> set ((x # fl) @ ?ids). unat y < N"
    using fl(2,3) by auto
  ultimately show "vq_ids N (Suc U) A ds (st[unat x := s]) x"
    unfolding vq_ids_def by blast
  show "unat x < N" "ds_busy (st ! unat x) \<noteq> 0" using fl by auto
qed

lemma vq_ids_cong:
  assumes "vq_ids N U A ds st i" "\<And>i. vd_id (ds' ! i) = vd_id (ds ! i)"
  shows "vq_ids N U A ds' st i"
  using assms(1) unfolding vq_ids_def pos_ids_cong [OF assms(2)] .

section \<open>The invariant\<close>

definition guest_flags :: "nat \<Rightarrow> nat \<Rightarrow> u16" where
  "guest_flags N A = (if even (A div N) then 0x80 else 0x8000)"

definition host_flags :: "nat \<Rightarrow> nat \<Rightarrow> u16" where
  "host_flags N R = (if even (R div N) then 0x8080 else 0)"

definition vq_shape :: "nat \<Rightarrow> vring_packed_virtq \<Rightarrow> bool" where
  "vq_shape N vq \<longleftrightarrow> 0 < N \<and> N \<le> 2 ^ 15 \<and> num_desc vq = of_nat N \<and>
     length (vdesc vq) = N \<and> length (vstate vq) = N \<and> length (hv_map vq) = N"

definition vq_cur :: "nat \<Rightarrow> nat \<Rightarrow> nat \<Rightarrow> nat \<Rightarrow> nat \<Rightarrow> vring_packed_virtq \<Rightarrow> bool" where
  "vq_cur N U R H A vq \<longleftrightarrow>
     vcur N A (g_next_avail_idx vq) (g_avail_wrap_counter vq) \<and> g_avail_used_flags vq = guest_flags N A \<and>
     vcur N U (g_next_used_idx vq) (g_used_wrap_counter vq) \<and>
     vcur N H (h_next_avail_idx vq) (h_avail_wrap_counter vq) \<and>
     vcur N R (h_next_used_idx vq) (h_used_wrap_counter vq) \<and> h_avail_used_flags vq = host_flags N R"

definition vq_inv :: "nat \<Rightarrow> nat \<Rightarrow> nat \<Rightarrow> nat \<Rightarrow> nat \<Rightarrow> vring_packed_virtq \<Rightarrow> bool" where
  "vq_inv N U R H A vq \<longleftrightarrow> vq_shape N vq \<and> U \<le> R \<and> R \<le> H \<and> H \<le> A \<and> A \<le> U + N \<and>
     vq_cur N U R H A vq \<and> vq_flags N U R A (vdesc vq) \<and>
     vq_ids N U A (vdesc vq) (vstate vq) (g_next_free_id vq)"

lemmas flag_eval = flag_avail_def flag_used_def avail_used_mask_def guest_flags_def host_flags_def
  VRING_PACKED_DESC_F_AVAIL_def VRING_PACKED_DESC_F_USED_def VRING_DESC_F_WRITE_def

lemma guest_flags_avail:
  "f \<in> {0, VRING_DESC_F_WRITE} \<Longrightarrow> is_avail N A (guest_flags N A OR f)"
  by (auto simp: is_avail_def flag_eval)

lemma host_flags_used: "is_used N R (host_flags N R)"
  by (auto simp: is_used_def flag_eval)

lemma flags_Suc:
  assumes "0 < N"
  shows "Suc (p mod N) = N \<Longrightarrow> guest_flags N p XOR avail_used_mask = guest_flags N (Suc p)"
    and "Suc (p mod N) = N \<Longrightarrow> host_flags N p XOR avail_used_mask = host_flags N (Suc p)"
    and "Suc (p mod N) \<noteq> N \<Longrightarrow> guest_flags N (Suc p) = guest_flags N p"
    and "Suc (p mod N) \<noteq> N \<Longrightarrow> host_flags N (Suc p) = host_flags N p"
  using lap_Suc [OF assms, of p] by (auto simp: flag_eval)

lemma vq_at_end:
  assumes "vq_shape N vq" "vcur N p i w"
  shows "(ucast (i + 1) :: u32) \<ge> num_desc vq \<longleftrightarrow> Suc (p mod N) = N"
  using assms idx_at_end(1) [of N i] vcur_less [of N p i w] by (simp add: vq_shape_def vcur_def)

lemma vq_step:
  assumes "vq_shape N vq" "vcur N p i w"
  shows "Suc (p mod N) = N \<Longrightarrow> vcur N (Suc p) 0 (w XOR 1)"
    and "Suc (p mod N) \<noteq> N \<Longrightarrow> vcur N (Suc p) (i + 1) w"
  using assms vcur_step [of N p i w] vq_at_end [OF assms] by (simp_all add: vq_shape_def)

section \<open>Publication\<close>

text \<open>The effect of \<open>vring_packed_add\<close> on the arrays.\<close>

lemma vring_packed_add_arrays:
  assumes "vq_inv N U R H A vq" "A < U + N"
  shows "vdesc (vring_packed_add b f m vq) = (vdesc vq)[A mod N :=
      \<lparr>vd_addr = buf_paddr b, vd_len = buf_len b, vd_id = g_next_free_id vq,
       vd_flags = guest_flags N A OR f, vd_mark = m\<rparr>]" (is ?D)
    and "vstate (vring_packed_add b f m vq) = (vstate vq)[unat (g_next_free_id vq) :=
      (vstate vq ! unat (g_next_free_id vq))\<lparr>ds_cookie := buf_cookie b, ds_busy := 1\<rparr>]" (is ?S)
    and "hv_map (vring_packed_add b f m vq) = hv_map vq"
    and "num_desc (vring_packed_add b f m vq) = num_desc vq"
    and "g_next_free_id (vring_packed_add b f m vq) = ds_next (vstate vq ! unat (g_next_free_id vq))"
proof -
  let ?i = "g_next_free_id vq"
  have len: "A mod N < length (vdesc vq)" "unat ?i < length (vstate vq)" "unat (g_next_avail_idx vq) = A mod N"
    and g: "g_avail_used_flags vq = guest_flags N A"
    using assms vq_ids_free(1) [of N U A "vdesc vq" "vstate vq" ?i]
    by (auto simp: vq_inv_def vq_shape_def vq_cur_def vcur_def)
  obtain ad ln di fl mk where d: "vdesc vq ! (A mod N) = \<lparr>vd_addr = ad, vd_len = ln, vd_id = di,
      vd_flags = fl, vd_mark = mk\<rparr>"
    by (metis vring_packed_desc.cases)
  show ?D ?S "hv_map (vring_packed_add b f m vq) = hv_map vq"
    "num_desc (vring_packed_add b f m vq) = num_desc vq"
    "g_next_free_id (vring_packed_add b f m vq) = ds_next (vstate vq ! unat ?i)"
    using len g by (simp_all add: vring_packed_add_def Let_def upd_desc_def upd_state_def d)
qed

lemma vring_packed_add_cur:
  assumes "vq_shape N vq" "vq_cur N U R H A vq"
  shows "vq_cur N U R H (Suc A) (vring_packed_add b f m vq)"
proof -
  have c: "vcur N A (g_next_avail_idx vq) (g_avail_wrap_counter vq)" and N: "0 < N"
    using assms by (simp_all add: vq_cur_def vq_shape_def)
  note e = vq_at_end [OF assms(1) c]
  show ?thesis
  proof (cases "Suc (A mod N) = N")
    case True
    then show ?thesis
      using e assms(2) vq_step(1) [OF assms(1) c] flags_Suc(1) [OF N, of A]
      by (simp add: vq_cur_def vring_packed_add_def Let_def upd_desc_def upd_state_def)
  next
    case False
    then show ?thesis
      using e assms(2) vq_step(2) [OF assms(1) c] flags_Suc(3) [OF N, of A]
      by (simp add: vq_cur_def vring_packed_add_def Let_def upd_desc_def upd_state_def)
  qed
qed

lemma vring_packed_add_inv:
  assumes "vq_inv N U R H A vq" "A < U + N" "f \<in> {0, VRING_DESC_F_WRITE}"
  shows "vq_inv N U R H (Suc A) (vring_packed_add b f m vq)"
proof -
  have sh: "vq_shape N vq" and pos: "U \<le> R" "R \<le> H" "H \<le> A" using assms(1) by (simp_all add: vq_inv_def)
  note ar = vring_packed_add_arrays [OF assms(1,2), of b f m]
  have "vq_flags N U R (Suc A) (vdesc (vring_packed_add b f m vq))"
    unfolding ar(1) using assms pos sh guest_flags_avail [OF assms(3), of N A]
    by (intro vq_flags_add) (simp_all add: vq_inv_def vq_shape_def)
  moreover have "vq_ids N U (Suc A) (vdesc (vring_packed_add b f m vq))
      (vstate (vring_packed_add b f m vq)) (g_next_free_id (vring_packed_add b f m vq))"
    unfolding ar(1,2,5) using assms(1,2) pos sh
    by (intro vq_ids_add) (simp_all add: vq_inv_def vq_shape_def)
  moreover have "vq_shape N (vring_packed_add b f m vq)"
    using sh ar by (simp add: vq_shape_def)
  ultimately show ?thesis
    using assms(1,2) pos vring_packed_add_cur [OF sh, of U R H A b f m] by (simp add: vq_inv_def)
qed

section \<open>What the flag tests mean\<close>

lemma vq_flags_at:
  assumes "vq_inv N U R H A vq" "U \<le> p" "p < U + N"
  shows "p < R \<Longrightarrow> is_used N p (vd_flags (vdesc vq ! (p mod N)))"
    and "R \<le> p \<Longrightarrow> p < A \<Longrightarrow> is_avail N p (vd_flags (vdesc vq ! (p mod N)))"
    and "A \<le> p \<Longrightarrow> is_free N p (vd_flags (vdesc vq ! (p mod N)))"
  using assms by (simp_all add: vq_inv_def vq_flags_def)

lemma vring_packed_more_used_iff:
  assumes "vq_inv N U R H A vq"
  shows "vring_packed_more_used vq \<longleftrightarrow> U < R"
proof -
  have c: "vcur N U (g_next_used_idx vq) (g_used_wrap_counter vq)" "0 < N" "U \<le> R" "R \<le> A"
    using assms by (simp_all add: vq_inv_def vq_cur_def vq_shape_def)
  show ?thesis
    using c vq_flags_at [OF assms, of U]
    by (cases "U < R"; cases "U < A")
      (auto simp: vring_packed_more_used_def vring_packed_desc_is_used_def Let_def vcur_def
        is_used_def is_avail_def is_free_def)
qed

lemma vring_packed_more_pending_iff:
  assumes "vq_inv N U R H A vq"
  shows "vring_packed_more_pending vq \<longleftrightarrow> U = R \<and> U < A"
proof -
  have c: "vcur N U (g_next_used_idx vq) (g_used_wrap_counter vq)" "0 < N" "U \<le> R" "R \<le> A"
    using assms by (simp_all add: vq_inv_def vq_cur_def vq_shape_def)
  show ?thesis
    using c vq_flags_at [OF assms, of U]
    by (cases "U < R"; cases "U < A")
      (auto simp: vring_packed_more_pending_def Let_def vcur_def is_used_def is_avail_def is_free_def)
qed

lemma vring_packed_more_avail_iff:
  assumes "vq_inv N U R H A vq"
  shows "vring_packed_more_avail vq \<longleftrightarrow> H < A"
proof -
  have c: "vcur N H (h_next_avail_idx vq) (h_avail_wrap_counter vq)" "0 < N" "U \<le> R" "R \<le> H"
    "H \<le> A" "A \<le> U + N"
    using assms by (simp_all add: vq_inv_def vq_cur_def vq_shape_def)
  show ?thesis
  proof (cases "H < U + N")
    case True
    then show ?thesis
      using c vq_flags_at [OF assms, of H]
      by (cases "H < A")
        (auto simp: vring_packed_more_avail_def Let_def vcur_def is_avail_def is_free_def)
  next
    case False
    then have H: "H = U + N" "A = U + N" using c by simp_all
    then show ?thesis
      using c vq_flags_at(1,2) [OF assms, of U]
      by (cases "U < R")
        (auto simp: vring_packed_more_avail_def Let_def vcur_def is_used_def is_avail_def div_add_self2)
  qed
qed

section \<open>Taking buffers back\<close>

definition vkey :: "vring_packed_virtq \<Rightarrow> nat \<Rightarrow> u64 \<times> u64 \<times> u32" where
  "vkey vq i = (let d = vdesc vq ! i in (ds_cookie (vstate vq ! unat (vd_id d)), vd_addr d, vd_len d))"

definition bkey :: "bpfhv_buf \<Rightarrow> u64 \<times> u64 \<times> u32" where
  "bkey b = (buf_cookie b, buf_paddr b, buf_len b)"

lemma vring_packed_get_ok:
  assumes "vq_inv N U R H A vq" "U < A"
  shows "\<exists>b' vq'. vring_packed_get b vq = Some (b', vq') \<and> bkey b' = vkey vq (U mod N) \<and>
    vdesc vq' = vdesc vq \<and> map ds_cookie (vstate vq') = map ds_cookie (vstate vq) \<and>
    (U < R \<longrightarrow> vq_inv N (Suc U) R H A vq')"
proof -
  have sh: "vq_shape N vq" and cur: "vq_cur N U R H A vq" and pos: "U \<le> R" "R \<le> H" "H \<le> A" "A \<le> U + N"
    and ids: "vq_ids N U A (vdesc vq) (vstate vq) (g_next_free_id vq)" and N: "0 < N"
    using assms(1) by (simp_all add: vq_inv_def vq_shape_def)
  have c: "vcur N U (g_next_used_idx vq) (g_used_wrap_counter vq)" using cur by (simp add: vq_cur_def)
  define x where "x = vd_id (vdesc vq ! (U mod N))"
  define s where "s = (vstate vq ! unat x)\<lparr>ds_busy := 0, ds_next := g_next_free_id vq\<rparr>"
  note gt = vq_ids_get [OF ids assms(2) _ x_def, of s]
  have x: "unat x < N" "ds_busy (vstate vq ! unat x) \<noteq> 0" "unat (g_next_used_idx vq) = U mod N"
    and ids': "vq_ids N (Suc U) A (vdesc vq) ((vstate vq)[unat x := s]) x"
    using gt sh c by (simp_all add: vq_shape_def s_def vcur_def)
  have nx: "\<not> num_desc vq \<le> ucast x"
    using sh x(1) by (simp add: vq_shape_def word_le_nat_alt unat_ucast_up unat_of_nat)
  have ck: "map ds_cookie ((vstate vq)[unat x := s]) = map ds_cookie (vstate vq)"
    using x(1) sh by (simp add: map_update s_def vq_shape_def list_update_same_conv)
  define vq' where "vq' = snd (the (vring_packed_get b vq))"
  have g: "vring_packed_get b vq = Some (b\<lparr>buf_cookie := ds_cookie (vstate vq ! unat x),
      buf_paddr := vd_addr (vdesc vq ! (U mod N)), buf_len := vd_len (vdesc vq ! (U mod N))\<rparr>, vq')"
    and f: "vdesc vq' = vdesc vq" "vstate vq' = (vstate vq)[unat x := s]" "g_next_free_id vq' = x"
      "vq_shape N vq'"
    using nx x sh
    by (simp_all add: vq'_def vring_packed_get_def Let_def x_def upd_state_def s_def vq_shape_def)
  have "vq_cur N (Suc U) R H A vq'"
    using nx x cur vq_at_end [OF sh c] vq_step [OF sh c]
    by (cases "Suc (U mod N) = N")
      (simp_all add: vq'_def vring_packed_get_def Let_def x_def upd_state_def vq_cur_def)
  then have "U < R \<longrightarrow> vq_inv N (Suc U) R H A vq'"
    using f ids' pos assms(1) vq_flags_get [of N U R A "vdesc vq"] N by (auto simp: vq_inv_def)
  then show ?thesis
    using g f ck by (auto simp: bkey_def vkey_def Let_def x_def)
qed

section \<open>The host side\<close>

text \<open>Marking the descriptor at the used index and moving on.\<close>

definition used_step :: "vring_packed_virtq \<Rightarrow> vring_packed_virtq" where
  "used_step vq = vring_packed_advance_used
     (upd_desc (h_next_used_idx vq) (\<lambda>d. d\<lparr>vd_flags := h_avail_used_flags vq\<rparr>) vq)"

lemma advance_avail_inv:
  assumes "vq_inv N U R H A vq" "H < A"
  shows "vq_inv N U R (Suc H) A (vring_packed_advance_avail vq)"
proof -
  have sh: "vq_shape N vq" and c: "vcur N H (h_next_avail_idx vq) (h_avail_wrap_counter vq)"
    using assms(1) by (simp_all add: vq_inv_def vq_cur_def)
  show ?thesis
    using assms vq_at_end [OF sh c] vq_step [OF sh c]
    by (cases "Suc (H mod N) = N")
      (simp_all add: vring_packed_advance_avail_def Let_def vq_inv_def vq_cur_def vq_shape_def)
qed

lemma used_step_arrays:
  assumes "vq_inv N U R H A vq"
  shows "vdesc (used_step vq) = (vdesc vq)[R mod N := (vdesc vq ! (R mod N))\<lparr>vd_flags := host_flags N R\<rparr>]"
    and "vstate (used_step vq) = vstate vq" "hv_map (used_step vq) = hv_map vq"
    and "g_next_free_id (used_step vq) = g_next_free_id vq" "num_desc (used_step vq) = num_desc vq"
    and "driver_event (used_step vq) = driver_event vq"
    and "g_pending_inuse_counter (used_step vq) = g_pending_inuse_counter vq"
  using assms
  by (simp_all add: used_step_def vring_packed_advance_used_def Let_def upd_desc_def vq_inv_def
      vq_cur_def vcur_def)

lemma used_step_inv:
  assumes "vq_inv N U R H A vq" "R < H"
  shows "vq_inv N U (Suc R) H A (used_step vq)"
proof -
  have sh: "vq_shape N vq" and c: "vcur N R (h_next_used_idx vq) (h_used_wrap_counter vq)"
    and pos: "U \<le> R" "R \<le> H" "H \<le> A" "A \<le> U + N" and N: "0 < N"
    using assms(1) by (simp_all add: vq_inv_def vq_cur_def vq_shape_def)
  note ar = used_step_arrays [OF assms(1)]
  have cur: "vq_cur N U (Suc R) H A (used_step vq)"
    using assms(1) vq_at_end [OF sh c] vq_step [OF sh c] flags_Suc(2,4) [OF N, of R]
    by (cases "Suc (R mod N) = N")
      (simp_all add: used_step_def vring_packed_advance_used_def Let_def upd_desc_def vq_inv_def vq_cur_def)
  have "vq_flags N U (Suc R) A (vdesc (used_step vq))"
    unfolding ar(1) using assms pos sh host_flags_used [of N R]
    by (intro vq_flags_expose) (simp_all add: vq_inv_def vq_shape_def)
  moreover have "vq_ids N U A (vdesc (used_step vq)) (vstate (used_step vq)) (g_next_free_id (used_step vq))"
    unfolding ar(1,2,4)
    by (rule vq_ids_cong [of N U A "vdesc vq"])
      (use assms(1) in \<open>simp_all add: vq_inv_def nth_update_same [where f = vd_id]\<close>)
  moreover have "vq_shape N (used_step vq)" using sh ar by (simp add: vq_shape_def)
  ultimately show ?thesis using cur pos assms(2) by (simp add: vq_inv_def)
qed

lemma vring_expose_step: "vring_expose vq = used_step (vring_packed_advance_avail vq)"
  by (cases vq) (simp add: vring_expose_def used_step_def vring_packed_advance_avail_def Let_def upd_desc_def)

lemma advance_avail_fields [simp]:
  "vdesc (vring_packed_advance_avail vq) = vdesc vq" "vstate (vring_packed_advance_avail vq) = vstate vq"
  "driver_event (vring_packed_advance_avail vq) = driver_event vq"
  "hv_map (vring_packed_advance_avail vq) = hv_map vq"
  "g_pending_inuse_counter (vring_packed_advance_avail vq) = g_pending_inuse_counter vq"
  by (simp_all add: vring_packed_advance_avail_def Let_def)

lemma vring_expose_inv:
  assumes "vq_inv N U R R A vq" "R < A"
  shows "vq_inv N U (Suc R) (Suc R) A (vring_expose vq)"
    and "vdesc (vring_expose vq) = (vdesc vq)[R mod N := (vdesc vq ! (R mod N))\<lparr>vd_flags := host_flags N R\<rparr>]"
    and "vstate (vring_expose vq) = vstate vq" "driver_event (vring_expose vq) = driver_event vq"
proof -
  note a = advance_avail_inv [OF assms]
  show "vq_inv N U (Suc R) (Suc R) A (vring_expose vq)"
    unfolding vring_expose_step by (rule used_step_inv [OF a]) simp
  show "vdesc (vring_expose vq) = (vdesc vq)[R mod N := (vdesc vq ! (R mod N))\<lparr>vd_flags := host_flags N R\<rparr>]"
    "vstate (vring_expose vq) = vstate vq" "driver_event (vring_expose vq) = driver_event vq"
    unfolding vring_expose_step using used_step_arrays [OF a] by simp_all
qed

lemma vkey_flags:
  assumes "vdesc vq' = (vdesc vq)[i := (vdesc vq ! i)\<lparr>vd_flags := f\<rparr>]" "vstate vq' = vstate vq"
  shows "vkey vq' j = vkey vq j"
  unfolding vkey_def assms
  by (simp add: Let_def nth_update_same [where f = vd_id] nth_update_same [where f = vd_addr]
      nth_update_same [where f = vd_len])

lemma notification_fields [simp]:
  "vdesc (vring_packed_notification e vq) = vdesc vq" "vstate (vring_packed_notification e vq) = vstate vq"
  "driver_event (vring_packed_notification e vq) = driver_event vq"
  "vkey (vring_packed_notification e vq) = vkey vq"
  "vq_inv N U R H A (vring_packed_notification e vq) = vq_inv N U R H A vq"
  by (simp_all add: vring_packed_notification_def vkey_def [abs_def] vq_inv_def vq_cur_def vq_shape_def)

lemma vring_copy_used_same:
  "vq_inv N U R R A vq \<Longrightarrow> vring_copy_used vq = vq"
  by (simp add: vring_copy_used_def vq_inv_def vq_cur_def vcur_def word_unat_eq_iff)

lemma vring_packed_more_quiet:
  assumes "vq_inv N U R R A (vl_vq l)" "vl_guest l = []"
  shows "vring_packed_more blocking l = (if R < A then Inr l
     else Inl (if blocking then vring_set_kick True l else l))"
proof -
  have g: "vring_guest_step l = l" "vring_guest_step (vring_set_kick True l) = vring_set_kick True l"
    using assms(2) by (simp_all add: vring_guest_step_def vring_set_kick_def)
  have "vring_packed_more_avail (vl_vq l) \<longleftrightarrow> R < A"
    "vring_packed_more_avail (vl_vq (vring_set_kick True l)) \<longleftrightarrow> R < A"
    using vring_packed_more_avail_iff [of N U R R A] assms(1) by (simp_all add: vring_set_kick_def)
  then show ?thesis using g by (simp add: vring_packed_more_def Let_def)
qed

end
