(* ===== verification/Vring_Queues.thy ===== *)
theory Vring_Queues
  imports Vring_Contract
begin

text \<open>
  In-order use of the packed virtqueue: with a quiet guest draining and filling
  compute a list-level reference, both queues satisfy the hand-off contract, and the
  event suppression structures ask for a notification exactly when the requested
  position is passed.
\<close>

section \<open>Draining with a quiet guest\<close>

text \<open>The reference: descriptors are handled from the front; invalid ones are skipped
  (and completed), valid ones are handed to \<open>send\<close>, until a send fails or the budget is
  used up.\<close>

fun vdrain_spec ::
  "'w viofun \<Rightarrow> be_mem \<Rightarrow> 'w \<Rightarrow> nat \<Rightarrow> (u64 \<times> u32) list \<Rightarrow> nat \<times> be_mem \<times> 'w" where
  "vdrain_spec send be w c [] = (0, be, w)"
| "vdrain_spec send be w c ((addr, len) # ds) =
    (if c \<ge> 128 then (0, be, w)
     else
       let (base, be) = translate_addr be addr (ucast len) in
       if base = 0 then
         let (n, be, w) = vdrain_spec send be w (Suc c) ds in (Suc n, be, w)
       else
         let (ret, eagain, w) = send [\<lparr>iov_base = base, iov_len = ucast len\<rparr>] w in
         if ret \<le> 0 then (0, be, w)
         else let (n, be, w) = vdrain_spec send be w (Suc c) ds in (Suc n, be, w))"

definition vsegs :: "nat \<Rightarrow> nat \<Rightarrow> nat \<Rightarrow> vring_packed_virtq \<Rightarrow> (u64 \<times> u32) list" where
  "vsegs N R A vq = map (\<lambda>p. snd (vkey vq (p mod N))) [R..<A]"

text \<open>What a quiet run of one of the loops gives.\<close>

definition vran ::
  "nat \<Rightarrow> nat \<Rightarrow> nat \<Rightarrow> nat \<Rightarrow> nat \<Rightarrow> 'w vloop \<Rightarrow> 'w vloop \<Rightarrow> bool" where
  "vran N U R A n l l' \<longleftrightarrow> n \<le> A - R \<and> vq_inv N U (R + n) (R + n) A (vl_vq l') \<and>
     vl_count l' = vl_count l + n \<and> vl_guest l' = [] \<and>
     driver_event (vl_vq l') = driver_event (vl_vq l) \<and>
     q_notify (vl_queue l') = q_notify (vl_queue l)"

lemma vran_step:
  assumes "vran N U (Suc R) A n l1 l'" "R < A" "vl_count l1 = Suc (vl_count l)"
    "driver_event (vl_vq l1) = driver_event (vl_vq l)" "q_notify (vl_queue l1) = q_notify (vl_queue l)"
  shows "vran N U R A (Suc n) l l'"
  using assms by (auto simp: vran_def)

lemma q_notify_bufs [simp]: "q_notify (vring_stats_bufs q) = q_notify q"
  by (simp add: vring_stats_bufs_def)

lemma vring_set_kick_run:
  assumes "vq_inv N U R R A (vl_vq l)" "vl_guest l = []"
  shows "vran N U R A 0 l (vring_set_kick True l)" "vran N U R A 0 l l"
    "vkey (vl_vq (vring_set_kick True l)) = vkey (vl_vq l)"
  using assms by (simp_all add: vran_def vring_set_kick_def)

lemma vran_cong [simp]:
  "vran N U R A n l (l'\<lparr>vl_be := be\<rparr>) = vran N U R A n l l'"
  "vran N U R A n l (l'\<lparr>vl_world := w\<rparr>) = vran N U R A n l l'"
  "vran N U R A n l (l'\<lparr>vl_can := c\<rparr>) = vran N U R A n l l'"
  by (simp_all add: vran_def)

text \<open>One completed descriptor.\<close>

lemma vring_done_expose:
  assumes "vq_inv N U R R A (vl_vq l)" "R < A" "vl_guest l = []"
    and "l1 = vring_done (\<lambda>vq. vring_expose (vring_copy_used vq)) l"
  shows "vq_inv N U (Suc R) (Suc R) A (vl_vq l1)" "vl_guest l1 = []" "vkey (vl_vq l1) = vkey (vl_vq l)"
    "driver_event (vl_vq l1) = driver_event (vl_vq l)" "q_notify (vl_queue l1) = q_notify (vl_queue l)"
    "vl_count l1 = Suc (vl_count l)" "vl_be l1 = vl_be l" "vl_world l1 = vl_world l"
    "vsegs N (Suc R) A (vl_vq l1) = vsegs N (Suc R) A (vl_vq l)"
proof -
  have vq: "vl_vq l1 = vring_expose (vl_vq l)"
    using assms vring_copy_used_same [OF assms(1)] by (simp add: vring_done_def)
  note e = vring_expose_inv [OF assms(1,2)]
  show k: "vkey (vl_vq l1) = vkey (vl_vq l)"
    unfolding vq by (rule ext, rule vkey_flags [OF e(2,3)])
  show "vsegs N (Suc R) A (vl_vq l1) = vsegs N (Suc R) A (vl_vq l)" by (simp add: vsegs_def k)
qed (use assms vring_copy_used_same [OF assms(1)] vring_expose_inv [OF assms(1,2)]
    in \<open>simp_all add: vring_done_def\<close>)

lemma vsegs_Cons:
  assumes "R < A"
  shows "vsegs N R A vq = (vd_addr (vdesc vq ! (R mod N)), vd_len (vdesc vq ! (R mod N))) # vsegs N (Suc R) A vq"
  using assms by (simp add: vsegs_def upt_rec [of R] vkey_def Let_def)

lemma vring_packed_txq_drain_loop_spec:
  assumes "vl_guest l = []" "vq_inv N U R R A (vl_vq l)"
    and "vdrain_spec send (vl_be l) (vl_world l) (vl_count l) (vsegs N R A (vl_vq l)) = (n, be, w)"
    and "l' = vring_packed_txq_drain_loop send blocking l"
  shows "vran N U R A n l l' \<and> vl_be l' = be \<and> vl_world l' = w \<and> vkey (vl_vq l') = vkey (vl_vq l)"
  using assms
proof (induction "A - R" arbitrary: R l n)
  case 0
  then have "A = R" by (simp add: vq_inv_def)
  then show ?case
    using 0 vring_packed_more_quiet [OF 0(3,2), of blocking] vring_set_kick_run [OF 0(3,2)]
    by (auto simp: vring_packed_txq_drain_loop.simps [of send blocking l]
        vring_packed_txq_drain_iter_def vsegs_def)
next
  case (Suc k)
  then have lt: "R < A" by simp
  define d where "d = vdesc (vl_vq l) ! (R mod N)"
  obtain base be1 where tr: "translate_addr (vl_be l) (vd_addr d) (ucast (vd_len d)) = (base, be1)"
    by fastforce
  note loop = vring_packed_txq_drain_loop.simps [of send blocking l]
  have idx: "unat (h_next_avail_idx (vl_vq l)) = R mod N"
    using Suc.prems(2) by (simp add: vq_inv_def vq_cur_def vcur_def)
  have more: "vring_packed_more blocking l = Inr l"
    using vring_packed_more_quiet [OF Suc.prems(2,1)] lt by simp
  show ?case
  proof (cases "128 \<le> vl_count l")
    case True
    then show ?thesis
      using Suc.prems more vring_set_kick_run(2) [OF Suc.prems(2,1)] lt
      by (simp add: loop vring_packed_txq_drain_iter_def BPFHV_BE_TX_BUDGET_def vsegs_Cons)
  next
    case budget: False
    obtain ret ea w1 where sd:
      "send [\<lparr>iov_base = base, iov_len = ucast (vd_len d)\<rparr>] (vl_world l) = (ret, ea, w1)"
      by (metis prod_cases3)
    define go where "go = (base = 0 \<or> \<not> ret \<le> 0)"
    define w2 where "w2 = (if base = 0 then vl_world l else w1)"
    define l1 where "l1 = vring_done (\<lambda>vq. vring_expose (vring_copy_used vq)) (l\<lparr>vl_be := be1, vl_world := w2\<rparr>)"
    have it: "vring_packed_txq_drain_iter send blocking l = (if go then (True, l1)
        else (False, l\<lparr>vl_be := be1, vl_world := w1,
          vl_can := (if ret < 0 \<and> blocking \<and> ea then False else vl_can l)\<rparr>))"
      using budget tr sd more idx d_def
      by (auto simp: vring_packed_txq_drain_iter_def BPFHV_BE_TX_BUDGET_def go_def w2_def l1_def)
    have sp: "vdrain_spec send (vl_be l) (vl_world l) (vl_count l) (vsegs N R A (vl_vq l)) =
        (if go then let (n, be, w) = vdrain_spec send be1 w2 (Suc (vl_count l)) (vsegs N (Suc R) A (vl_vq l))
           in (Suc n, be, w) else (0, be1, w1))"
      using budget tr sd by (simp add: vsegs_Cons [OF lt] d_def [symmetric] go_def w2_def)
    show ?thesis
    proof (cases go)
      case False
      then show ?thesis
        using it sp Suc.prems vring_set_kick_run(2) [OF Suc.prems(2,1)]
        by (simp add: loop)
    next
      case True
      have e: "vq_inv N U (Suc R) (Suc R) A (vl_vq l1)" "vl_guest l1 = []" "vkey (vl_vq l1) = vkey (vl_vq l)"
        "driver_event (vl_vq l1) = driver_event (vl_vq l)" "q_notify (vl_queue l1) = q_notify (vl_queue l)"
        "vl_count l1 = Suc (vl_count l)" "vl_be l1 = be1" "vl_world l1 = w2"
        "vsegs N (Suc R) A (vl_vq l1) = vsegs N (Suc R) A (vl_vq l)"
        using vring_done_expose [of N U R A "l\<lparr>vl_be := be1, vl_world := w2\<rparr>" l1] Suc.prems lt l1_def
        by simp_all
      obtain n1 where n1: "n = Suc n1"
        "vdrain_spec send be1 w2 (Suc (vl_count l)) (vsegs N (Suc R) A (vl_vq l)) = (n1, be, w)"
        using sp Suc.prems(3) True by (auto split: prod.splits)
      have l': "l' = vring_packed_txq_drain_loop send blocking l1" using Suc.prems(4) it True by (simp add: loop)
      have "vran N U (Suc R) A n1 l1 l' \<and> vl_be l' = be \<and> vl_world l' = w \<and> vkey (vl_vq l') = vkey (vl_vq l1)"
        using Suc.hyps(2) e n1(2) l' by (intro Suc.hyps(1)) simp_all
      then show ?thesis using vran_step [of N U R A n1 l1 l' l] lt e n1(1) by simp
    qed
  qed
qed

lemma lap_add:
  fixes U k N :: nat
  assumes "k < N"
  shows "U mod N + k < N \<Longrightarrow> (U + k) mod N = U mod N + k \<and> (U + k) div N = U div N"
    and "N \<le> U mod N + k \<Longrightarrow> (U + k) mod N = U mod N + k - N \<and> (U + k) div N = Suc (U div N)"
proof -
  have "U mod N + k < 2 * N" using assms mod_less_divisor [of N U] by linarith
  moreover have "(U + k) mod N = (U mod N + k) mod N" "(U + k) div N = U div N + (U mod N + k) div N"
    using assms by (simp_all add: mod_add_left_eq div_add1_eq [of U k])
  ultimately show "U mod N + k < N \<Longrightarrow> (U + k) mod N = U mod N + k \<and> (U + k) div N = U div N"
    "N \<le> U mod N + k \<Longrightarrow> (U + k) mod N = U mod N + k - N \<and> (U + k) div N = Suc (U div N)"
    using assms by (simp_all add: le_mod_geq le_div_geq)
qed

section \<open>Event suppression\<close>

lemma off_wrap_decode:
  fixes i :: u16
  assumes "unat i < 2 ^ 15"
  shows "(i OR push_bit 15 (ucast (flag_int b))) AND NOT (push_bit 15 1) = i"
    and "drop_bit 15 (i OR push_bit 15 (ucast (flag_int b))) = (ucast (flag_int b) :: u16)"
proof -
  have "\<not> bit (unat i) 15" using assms by (simp add: bit_iff_odd)
  then have hi: "\<not> bit i 15" by (simp add: bit_unsigned_iff)
  define m where "m = (push_bit 15 1 :: u16)"
  have bm: "bit m n \<longleftrightarrow> n = 15" for n
    unfolding m_def bit_push_bit_iff bit_1_iff by auto
  have x: "push_bit 15 (ucast (flag_int b)) = (if b then m else 0)"
    by (simp add: m_def flag_int_def)
  show "(i OR push_bit 15 (ucast (flag_int b))) AND NOT (push_bit 15 1) = i"
    unfolding x m_def [symmetric] using hi by (intro bit_word_eqI) (auto simp: bit_simps bm)
  have "unat (i div 2 ^ 15) = 0" using assms by (simp add: unat_div)
  then have "drop_bit 15 i = 0" by (simp add: unat_eq_0 drop_bit_eq_div)
  moreover have "drop_bit 15 m = 1" by (simp add: m_def)
  ultimately show "drop_bit 15 (i OR push_bit 15 (ucast (flag_int b))) = (ucast (flag_int b) :: u16)"
    unfolding x drop_bit_or by (simp add: flag_int_def)
qed

text \<open>The distance from the event to the current index, as the code computes it.\<close>

lemma rebased_distance:
  fixes q e N n :: nat
  assumes "0 < N" "N \<le> 2 ^ 15" "n \<le> q" "U \<le> q - n" "q \<le> U + N" "U \<le> e" "e < U + N"
    and z: "z = int (q mod N) - (if even (e div N) \<noteq> even (q div N) then int (e mod N) - int N
        else int (e mod N)) - 1"
  shows "z mod 2 ^ 16 < int n \<longleftrightarrow> q - n \<le> e \<and> e < q"
proof -
  have q: "int q = int N * int (q div N) + int (q mod N)"
    and e: "int e = int N * int (e div N) + int (e mod N)"
    by (simp_all flip: of_nat_mult of_nat_add)
  have bd: "q mod N < N" "e mod N < N" using assms(1) by simp_all
  have lap: "e div N \<le> Suc (q div N)" "q div N \<le> Suc (e div N)"
    using assms(1,3-7) div_le_mono [of e "q + N" N] div_le_mono [of q "e + N" N]
    by (simp_all add: div_add_self2)
  consider (eq) "e div N = q div N" | (old) "q div N = Suc (e div N)" | (new) "e div N = Suc (q div N)"
    using lap by linarith
  then show ?thesis
  proof cases
    case eq
    then have zz: "z = int q - int e - 1"
      using z q e by (simp add: distrib_left)
    show ?thesis
    proof (cases "e < q")
      case True
      then have "z mod 2 ^ 16 = z" using zz assms(2,5,6) by (intro mod_pos_pos_trivial) simp_all
      then show ?thesis using zz True assms(3) by auto
    next
      case False
      then have "(z + 2 ^ 16) mod 2 ^ 16 = z + 2 ^ 16"
        using zz assms(2-7) by (intro mod_pos_pos_trivial) auto
      then have "z mod 2 ^ 16 = z + 2 ^ 16" by simp
      then show ?thesis using zz False assms by auto
    qed
  next
    case old
    then have zz: "z = int q - int e - 1"
      using z q e by (simp add: distrib_left)
    have "e < q" using old div_le_mono [of q e N] by linarith
    moreover have "z mod 2 ^ 16 = z" using zz assms(2,5,6) calculation by (intro mod_pos_pos_trivial) simp_all
    ultimately show ?thesis using zz assms(3) by auto
  next
    case new
    then have zz: "z = 2 * int N - 1 - (int e - int q)"
      using z q e by (simp add: distrib_left)
    have qe: "q \<le> e" using new div_le_mono [of e q N] by linarith
    then have "z mod 2 ^ 16 = z" using zz assms(1-7) by (intro mod_pos_pos_trivial) simp_all
    then show ?thesis using zz qe assms by auto
  qed
qed

text \<open>A notification is asked for exactly when the index has moved across the event
  position.\<close>

definition event_at :: "nat \<Rightarrow> nat \<Rightarrow> vring_packed_desc_event \<Rightarrow> bool" where
  "event_at N e ev \<longleftrightarrow> (\<exists>i w. vcur N e i w \<and>
     ev = \<lparr>ev_off_wrap = i OR push_bit VRING_PACKED_EVENT_F_WRAP_CTR (ucast w),
           ev_flags = VRING_PACKED_EVENT_FLAG_DESC\<rparr>)"

lemma vring_event_needed_iff:
  assumes N: "0 < N" "N \<le> 2 ^ 15" and q: "vcur N q i w" and ev: "event_at N e ev"
    and pos: "n \<le> q" "U \<le> q - n" "q \<le> U + N" "U \<le> e" "e < U + N"
  shows "vring_event_needed ev i w (of_nat N) (of_nat n) \<longleftrightarrow> q - n \<le> e \<and> e < q"
proof -
  obtain ei ew where e: "vcur N e ei ew" and evd: "ev = \<lparr>ev_off_wrap = ei OR push_bit 15 (ucast ew),
      ev_flags = VRING_PACKED_EVENT_FLAG_DESC\<rparr>"
    using ev by (auto simp: event_at_def VRING_PACKED_EVENT_F_WRAP_CTR_def)
  define z where "z = int (q mod N) - (if even (e div N) \<noteq> even (q div N) then int (e mod N) - int N
        else int (e mod N)) - 1"
  have rep: "x = of_nat (unat x)" for x :: u16 by simp
  have i: "i = of_nat (q mod N)" "ei = of_nat (e mod N)"
    using q e rep [of i] rep [of ei] unfolding vcur_def by argo+
  have w: "ew = flag_int (even (e div N))" "w = flag_int (even (q div N))" using q e by (simp_all add: vcur_def)
  have "e mod N < N" using N(1) by simp
  then have "unat ei < 2 ^ 15" using e N(2) unfolding vcur_def by linarith
  note dec = off_wrap_decode [OF this]
  have uw: "ucast ew = (ucast w :: u16) \<longleftrightarrow> even (e div N) = even (q div N)"
    by (auto simp: w flag_int_def)
  have ns: "(ucast (of_nat N :: u32) :: u16) = of_nat N"
    using N(2) by (simp add: word_unat_eq_iff unsigned_ucast_eq unat_of_nat take_bit_nat_eq_self)
  define event_idx where "event_idx = (if ucast ew \<noteq> (ucast w :: u16) then ei - of_nat N else ei)"
  have "i - event_idx - 1 = word_of_int z"
    unfolding event_idx_def i z_def uw by simp
  then have "uint (i - event_idx - 1) = z mod 2 ^ 16"
    by (simp add: unsigned_of_int take_bit_eq_mod)
  moreover have "uint (of_nat n :: u16) = int n"
    using pos N by (simp add: unsigned_of_nat take_bit_nat_eq_self)
  ultimately have "i - event_idx - 1 < of_nat n \<longleftrightarrow> z mod 2 ^ 16 < int n"
    by (simp add: word_less_def)
  moreover have "vring_event_needed ev i w (of_nat N) (of_nat n)
      \<longleftrightarrow> vring_need_event (i - of_nat n) event_idx i"
    unfolding vring_event_needed_def evd event_idx_def w(1) VRING_PACKED_EVENT_F_WRAP_CTR_def Let_def
      vring_packed_desc_event.simps dec ns by simp
  ultimately show ?thesis
    using rebased_distance [OF N pos z_def] by (simp add: vring_need_event_def)
qed

section \<open>The two queues as lists\<close>

text \<open>The number of steps from one index to another that is at most one lap ahead.\<close>

definition vpos :: "nat \<Rightarrow> u16 \<Rightarrow> u8 \<Rightarrow> nat" where
  "vpos N i w = unat i + (if w = 1 then 0 else N)"

definition vcount :: "nat \<Rightarrow> nat \<Rightarrow> nat \<Rightarrow> nat" where
  "vcount N a b = (b + 2 * N - a) mod (2 * N)"

definition vkeys :: "nat \<Rightarrow> vring_packed_virtq \<Rightarrow> nat \<Rightarrow> nat \<Rightarrow> (u64 \<times> u64 \<times> u32) list" where
  "vkeys N vq a n = map (\<lambda>k. vkey vq ((a + k) mod N)) [0..<n]"

definition vU :: "nat \<Rightarrow> vring_packed_virtq \<Rightarrow> nat" where
  "vU N vq = vpos N (g_next_used_idx vq) (g_used_wrap_counter vq)"

definition vR :: "nat \<Rightarrow> vring_packed_virtq \<Rightarrow> nat" where
  "vR N vq = vpos N (h_next_used_idx vq) (h_used_wrap_counter vq)"

definition vA :: "nat \<Rightarrow> vring_packed_virtq \<Rightarrow> nat" where
  "vA N vq = vpos N (g_next_avail_idx vq) (g_avail_wrap_counter vq)"

text \<open>The buffers completed but not taken back, and those published but not completed.\<close>

definition vcompleted :: "nat \<Rightarrow> vring_packed_virtq \<Rightarrow> (u64 \<times> u64 \<times> u32) list" where
  "vcompleted N vq = vkeys N vq (vU N vq) (vcount N (vU N vq) (vR N vq))"

definition vpending :: "nat \<Rightarrow> vring_packed_virtq \<Rightarrow> (u64 \<times> u64 \<times> u32) list" where
  "vpending N vq = vkeys N vq (vR N vq) (vcount N (vR N vq) (vA N vq))"

definition vroom :: "nat \<Rightarrow> vring_packed_virtq \<Rightarrow> nat" where
  "vroom N vq = N - vcount N (vU N vq) (vA N vq)"

definition vring_ok :: "nat \<Rightarrow> vring_packed_virtq \<Rightarrow> bool" where
  "vring_ok N vq \<longleftrightarrow> (\<exists>U R A. vq_inv N U R R A vq)"

lemma vpos_cur:
  assumes "0 < N" "vcur N p i w"
  shows "vpos N i w = p mod (2 * N)"
proof -
  have "p mod (N * 2) = N * (p div N mod 2) + p mod N" by (rule mod_mult2_eq)
  then show ?thesis
    using assms by (auto simp: vpos_def vcur_def flag_int_def mult.commute even_iff_mod_2_eq_zero odd_iff_mod_2_eq_one)
qed

lemma mod_sub_mod:
  fixes p q M :: nat
  assumes "0 < M" "p \<le> q"
  shows "(q mod M + M - p mod M) mod M = (q - p) mod M"
proof -
  have "p mod M \<le> q mod M + M" using assms(1) by (simp add: less_imp_le trans_le_add2)
  then have "int (q mod M + M - p mod M) = int q mod int M + int M - int p mod int M"
    by (simp add: of_nat_diff zmod_int)
  then have "int ((q mod M + M - p mod M) mod M) = (int q mod int M + int M - int p mod int M) mod int M"
    by (simp add: zmod_int)
  also have "\<dots> = (int q mod int M - int p mod int M + int M) mod int M" by (simp only: algebra_simps)
  also have "\<dots> = (int q - int p) mod int M" by (simp only: mod_add_self2 mod_diff_eq)
  also have "\<dots> = int ((q - p) mod M)" using assms(2) by (simp add: zmod_int of_nat_diff)
  finally show ?thesis by simp
qed

lemma vcount_mod:
  assumes "0 < N" "p \<le> q" "q \<le> p + N"
  shows "vcount N (p mod (2 * N)) (q mod (2 * N)) = q - p"
  using mod_sub_mod [of "2 * N" p q] assms by (simp add: vcount_def)

lemma vkeys_mod: "vkeys N vq (p mod (2 * N)) n = map (\<lambda>p. vkey vq (p mod N)) [p..<p + n]"
proof -
  have "(p mod (2 * N)) mod N = p mod N" by (simp add: mod_mod_cancel)
  then have "(p mod (2 * N) + k) mod N = (p + k) mod N" for k by (rule mod_add_cong) simp
  then show ?thesis unfolding vkeys_def by (intro nth_equalityI) simp_all
qed

lemma vring_lists:
  assumes "vq_inv N U R H A vq"
  shows "vcompleted N vq = map (\<lambda>p. vkey vq (p mod N)) [U..<R]"
    and "vpending N vq = map (\<lambda>p. vkey vq (p mod N)) [R..<A]"
    and "vroom N vq = N - (A - U)"
proof -
  have c: "vcur N A (g_next_avail_idx vq) (g_avail_wrap_counter vq)"
    "vcur N U (g_next_used_idx vq) (g_used_wrap_counter vq)"
    "vcur N R (h_next_used_idx vq) (h_used_wrap_counter vq)" and N: "0 < N"
    and pos: "U \<le> R" "R \<le> A" "A \<le> U + N"
    using assms by (simp_all add: vq_inv_def vq_cur_def vq_shape_def)
  have v: "vA N vq = A mod (2 * N)" "vU N vq = U mod (2 * N)" "vR N vq = R mod (2 * N)"
    using c N by (simp_all add: vA_def vU_def vR_def vpos_cur)
  show "vcompleted N vq = map (\<lambda>p. vkey vq (p mod N)) [U..<R]"
    "vpending N vq = map (\<lambda>p. vkey vq (p mod N)) [R..<A]" "vroom N vq = N - (A - U)"
    using pos N by (simp_all add: vcompleted_def vpending_def vroom_def v vcount_mod vkeys_mod)
qed

section \<open>Publication and completion on the lists\<close>

lemma vq_id_bound:
  assumes "vq_inv N U R H A vq" "U \<le> p" "p < A"
  shows "unat (vd_id (vdesc vq ! (p mod N))) < N"
    and "A < U + N \<Longrightarrow> vd_id (vdesc vq ! (p mod N)) \<noteq> g_next_free_id vq"
proof -
  have m: "vd_id (vdesc vq ! (p mod N)) \<in> set (pos_ids N U A (vdesc vq))"
    using assms(2,3) by (auto simp: pos_ids_def)
  have ids: "vq_ids N U A (vdesc vq) (vstate vq) (g_next_free_id vq)" and "U \<le> A"
    using assms by (simp_all add: vq_inv_def)
  then show "A < U + N \<Longrightarrow> vd_id (vdesc vq ! (p mod N)) \<noteq> g_next_free_id vq"
    using m vq_ids_free(2) [OF ids] by auto
  show "unat (vd_id (vdesc vq ! (p mod N))) < N"
    using m ids by (auto simp: vq_ids_def)
qed

lemma vkey_add:
  assumes "vq_inv N U R H A vq" "A < U + N"
  shows "vkey (vring_packed_add b f m vq) (A mod N) = bkey b"
    and "U \<le> p \<Longrightarrow> p < A \<Longrightarrow> vkey (vring_packed_add b f m vq) (p mod N) = vkey vq (p mod N)"
proof -
  note ar = vring_packed_add_arrays [OF assms, of b f m]
  have len: "length (vdesc vq) = N" "length (vstate vq) = N" and le: "U \<le> A" and N: "0 < N"
    using assms(1) by (simp_all add: vq_inv_def vq_shape_def)
  have id: "unat (g_next_free_id vq) < N"
    using assms vq_ids_free(1) [of N U A "vdesc vq" "vstate vq" "g_next_free_id vq"] le
    by (simp add: vq_inv_def)
  show "vkey (vring_packed_add b f m vq) (A mod N) = bkey b"
    using len N id by (simp add: vkey_def ar(1,2) bkey_def Let_def)
  assume p: "U \<le> p" "p < A"
  have "vdesc (vring_packed_add b f m vq) ! (p mod N) = vdesc vq ! (p mod N)"
    unfolding ar(1) using window_upd [OF len(1), of U p A] p assms(2) le by simp
  moreover have "unat (g_next_free_id vq) \<noteq> unat (vd_id (vdesc vq ! (p mod N)))"
    using vq_id_bound(2) [OF assms(1) p assms(2)] by (metis word_unat_eq_iff)
  ultimately show "vkey (vring_packed_add b f m vq) (p mod N) = vkey vq (p mod N)"
    by (simp add: vkey_def ar(2) Let_def)
qed

lemma vring_add_lists:
  assumes "vq_inv N U R R A vq" "A < U + N" "f \<in> {0, VRING_DESC_F_WRITE}"
  shows "vcompleted N (vring_packed_add b f m vq) = vcompleted N vq"
    and "vpending N (vring_packed_add b f m vq) = vpending N vq @ [bkey b]"
    and "Suc (vroom N (vring_packed_add b f m vq)) = vroom N vq"
proof -
  have pos: "U \<le> R" "R \<le> A" using assms(1) by (simp_all add: vq_inv_def)
  note l = vring_lists [OF assms(1)] vring_lists [OF vring_packed_add_inv [OF assms, of b m]]
  note k = vkey_add [OF assms(1,2), where b = b and f = f and m = m]
  show "vcompleted N (vring_packed_add b f m vq) = vcompleted N vq"
    unfolding l using k(2) pos by simp
  show "vpending N (vring_packed_add b f m vq) = vpending N vq @ [bkey b]"
    unfolding l using k pos by simp
  show "Suc (vroom N (vring_packed_add b f m vq)) = vroom N vq"
    unfolding l using assms(2) pos by simp
qed

lemma vring_get_lists:
  assumes "vq_inv N U R R A vq" "U < R"
  obtains b' vq' where "vring_packed_get b vq = Some (b', vq')" "vq_inv N (Suc U) R R A vq'"
    "vcompleted N vq = bkey b' # vcompleted N vq'" "vpending N vq' = vpending N vq"
    "vroom N vq' = Suc (vroom N vq)"
proof -
  have pos: "R \<le> A" "A \<le> U + N" and len: "length (vstate vq) = N"
    using assms(1) by (simp_all add: vq_inv_def vq_shape_def)
  obtain b' vq' where g: "vring_packed_get b vq = Some (b', vq')" "bkey b' = vkey vq (U mod N)"
    "vdesc vq' = vdesc vq" "map ds_cookie (vstate vq') = map ds_cookie (vstate vq)"
    "vq_inv N (Suc U) R R A vq'"
    using vring_packed_get_ok [OF assms(1), of b] assms(2) pos by auto
  have "ds_cookie (vstate vq' ! i) = ds_cookie (vstate vq ! i)" if "i < N" for i
    using g(4) len that by (metis length_map nth_map)
  then have k: "vkey vq' (p mod N) = vkey vq (p mod N)" if "U \<le> p" "p < A" for p
    using vq_id_bound(1) [OF assms(1) that] by (simp add: vkey_def g(3) Let_def)
  note l = vring_lists [OF assms(1)] vring_lists [OF g(5)]
  show ?thesis
  proof (rule that [OF g(1,5)])
    show "vcompleted N vq = bkey b' # vcompleted N vq'"
      unfolding l g(2) using k assms(2) pos by (simp add: upt_conv_Cons [OF assms(2)])
    show "vpending N vq' = vpending N vq" unfolding l using k assms(2) by simp
    show "vroom N vq' = Suc (vroom N vq)" unfolding l using assms(2) pos by simp
  qed
qed

section \<open>Whole host operations\<close>

lemma vring_start_quiet:
  assumes "vq_inv N U R R A vq" "vq0 = vq \<or> vq0 = vring_packed_notification e vq"
    and "l = vring_start can [] be w q vq0"
  shows "vl_guest l = []" "vq_inv N U R R A (vl_vq l)" "vkey (vl_vq l) = vkey vq" "vl_count l = 0"
    "vl_be l = be" "vl_world l = w" "driver_event (vl_vq l) = driver_event vq" "\<not> q_notify (vl_queue l)"
  using assms by (auto simp: vring_start_def)

lemma vring_finish_quiet:
  assumes "vl_guest l = []"
  shows "vl_vq (vring_finish l) = vl_vq l" "vl_count (vring_finish l) = vl_count l"
    "vl_be (vring_finish l) = vl_be l" "vl_world (vring_finish l) = vl_world l"
    "\<not> q_notify (vl_queue l) \<Longrightarrow> q_notify (vl_queue (vring_finish l))
      \<longleftrightarrow> 0 < vl_count l \<and> vring_packed_intr_needed (of_nat (vl_count l)) (vl_vq l)"
  using assms
  by (simp_all add: vring_finish_def vring_guest_step_def Let_def vring_stats_batch_def)

lemma vring_packed_txq_drain_quiet:
  assumes "vq_inv N U R R A vq"
    and "vdrain_spec send be w 0 (vsegs N R A vq) = (n, be', w')"
    and "l = vring_packed_txq_drain send can [] be w txq vq"
  shows "n \<le> A - R \<and> vq_inv N U (R + n) (R + n) A (vl_vq l) \<and> vl_count l = n \<and> vl_be l = be' \<and>
    vl_world l = w' \<and> vkey (vl_vq l) = vkey vq \<and> driver_event (vl_vq l) = driver_event vq \<and>
    (q_notify (vl_queue l) \<longleftrightarrow> 0 < n \<and> vring_packed_intr_needed (of_nat n) (vl_vq l))"
proof -
  define vq0 where "vq0 = (if can \<noteq> None then vring_packed_notification False vq else vq)"
  define l0 where "l0 = vring_start can [] be w txq vq0"
  define l1 where "l1 = vring_packed_txq_drain_loop send (can \<noteq> None) l0"
  have l: "l = vring_finish l1" using assms(3) by (simp add: vring_packed_txq_drain_def Let_def l1_def l0_def vq0_def)
  have "vq0 = vq \<or> vq0 = vring_packed_notification False vq" by (simp add: vq0_def)
  note s = vring_start_quiet [OF assms(1) this l0_def]
  have "vsegs N R A (vl_vq l0) = vsegs N R A vq" by (simp add: vsegs_def s(3))
  then have r: "vran N U R A n l0 l1" "vl_be l1 = be'" "vl_world l1 = w'" "vkey (vl_vq l1) = vkey vq"
    using vring_packed_txq_drain_loop_spec [OF s(1,2) _ l1_def, of n be' w'] assms(2) s by simp_all
  then have "vl_guest l1 = []" by (simp add: vran_def)
  note f = vring_finish_quiet [OF this]
  show ?thesis using r s f by (simp add: l vran_def)
qed

text \<open>Filling changes lengths only.\<close>

definition rxkey :: "u64 \<times> u64 \<times> u32 \<Rightarrow> u64 \<times> u64" where
  "rxkey k = (fst k, fst (snd k))"

lemma upd_len_inv:
  assumes "vq_inv N U R H A vq"
  shows "vq_inv N U R H A (upd_desc i (\<lambda>d. d\<lparr>vd_len := x\<rparr>) vq)" (is "vq_inv N U R H A ?vq")
proof -
  have "vq_flags N U R A (vdesc ?vq)"
    by (rule vq_flags_cong [of N U R A "vdesc vq"])
      (use assms in \<open>simp_all add: vq_inv_def upd_desc_def nth_update_same [where f = vd_flags]\<close>)
  moreover have "vq_ids N U A (vdesc ?vq) (vstate vq) (g_next_free_id vq)"
    by (rule vq_ids_cong [of N U A "vdesc vq"])
      (use assms in \<open>simp_all add: vq_inv_def upd_desc_def nth_update_same [where f = vd_id]\<close>)
  ultimately show ?thesis
    using assms by (simp add: vq_inv_def vq_cur_def vq_shape_def upd_desc_def)
qed

lemma upd_len_rxkey: "rxkey (vkey (upd_desc i (\<lambda>d. d\<lparr>vd_len := x\<rparr>) vq) j) = rxkey (vkey vq j)"
  by (simp add: rxkey_def vkey_def upd_desc_def Let_def nth_update_same [where f = vd_id]
      nth_update_same [where f = vd_addr])

lemma vring_done_fill:
  assumes "vq_inv N U R R A (vl_vq l)" "R < A" "vl_guest l = []"
    and "l1 = vring_done (\<lambda>vq. vring_expose (upd_desc i (\<lambda>d. d\<lparr>vd_len := x\<rparr>) vq)) l"
  shows "vq_inv N U (Suc R) (Suc R) A (vl_vq l1)" "vl_guest l1 = []"
    "rxkey (vkey (vl_vq l1) j) = rxkey (vkey (vl_vq l) j)"
    "driver_event (vl_vq l1) = driver_event (vl_vq l)" "q_notify (vl_queue l1) = q_notify (vl_queue l)"
    "vl_count l1 = Suc (vl_count l)"
proof -
  let ?vq = "upd_desc i (\<lambda>d. d\<lparr>vd_len := x\<rparr>) (vl_vq l)"
  have vq: "vl_vq l1 = vring_expose ?vq" using assms(4) by (simp add: vring_done_def)
  note e = vring_expose_inv [OF upd_len_inv [OF assms(1)] assms(2), of i x]
  show "vq_inv N U (Suc R) (Suc R) A (vl_vq l1)" unfolding vq by (rule e(1))
  have "vkey (vl_vq l1) j = vkey ?vq j" unfolding vq by (rule vkey_flags [OF e(2,3)])
  then show "rxkey (vkey (vl_vq l1) j) = rxkey (vkey (vl_vq l) j)" by (simp add: upd_len_rxkey)
  show "driver_event (vl_vq l1) = driver_event (vl_vq l)" unfolding vq e(4) by (simp add: upd_desc_def)
qed (use assms(3,4) in \<open>simp_all add: vring_done_def\<close>)

text \<open>One iteration of the filling loop on an available descriptor.\<close>

lemma vring_packed_rxq_push_iter_quiet:
  assumes "vring_packed_more blocking l = Inr l" "vring_copy_used (vl_vq l) = vl_vq l"
    and it: "vring_packed_rxq_push_iter recv blocking l = (c, l1)"
  shows "\<exists>be w i x. l1 = (if c then vring_done (\<lambda>vq. vring_expose (upd_desc i (\<lambda>d. d\<lparr>vd_len := x\<rparr>) vq))
        (l\<lparr>vl_be := be, vl_world := w\<rparr>) else l\<lparr>vl_be := be, vl_world := w\<rparr>)"
proof -
  let ?d = "vdesc (vl_vq l) ! unat (h_next_avail_idx (vl_vq l))"
  let ?u = "h_next_used_idx (vl_vq l)"
  obtain base be1 where tr: "translate_addr (vl_be l) (vd_addr ?d) (ucast (vd_len ?d)) = (base, be1)"
    by fastforce
  obtain ps ea w1 where rc: "recv [\<lparr>iov_base = base, iov_len = ucast (vd_len ?d)\<rparr>] (vl_world l) = (ps, ea, w1)"
    by (metis prod_cases3)
  have id: "l\<lparr>vl_vq := vl_vq l\<rparr> = l" "l\<lparr>vl_be := vl_be l, vl_world := vl_world l\<rparr> = l"
    "l\<lparr>vl_be := be1, vl_vq := vl_vq l\<rparr> = l\<lparr>vl_be := be1, vl_world := vl_world l\<rparr>" by simp_all
  consider "128 \<le> vl_count l" | "vl_count l < 128" "base = 0" | "vl_count l < 128" "base \<noteq> 0" by linarith
  then show ?thesis
  proof cases
    case 1
    then have "(c, l1) = (False, l\<lparr>vl_be := vl_be l, vl_world := vl_world l\<rparr>)"
      using it assms(1) by (simp add: vring_packed_rxq_push_iter_def BPFHV_BE_RX_BUDGET_def)
    then show ?thesis by (intro exI [of _ "vl_be l"] exI [of _ "vl_world l"]) simp
  next
    case 2
    then have "(c, l1) = (True, vring_done (\<lambda>vq. vring_expose (upd_desc ?u (\<lambda>d. d\<lparr>vd_len := 0\<rparr>) vq))
        (l\<lparr>vl_be := be1, vl_world := vl_world l\<rparr>))"
      using it assms(1,2) tr by (simp add: vring_packed_rxq_push_iter_def BPFHV_BE_RX_BUDGET_def Let_def)
    then show ?thesis
      by (intro exI [of _ be1] exI [of _ "vl_world l"] exI [of _ ?u] exI [of _ 0]) simp
  next
    case 3
    then have "(c, l1) = (if ps \<le> 0 then (False, l\<lparr>vl_be := be1, vl_world := w1\<rparr>)
        else (True, vring_done (\<lambda>vq. vring_expose (upd_desc ?u (\<lambda>d. d\<lparr>vd_len := of_int ps\<rparr>) vq))
          (l\<lparr>vl_be := be1, vl_world := w1\<rparr>)))"
      using it assms(1,2) tr rc by (simp add: vring_packed_rxq_push_iter_def BPFHV_BE_RX_BUDGET_def Let_def)
    then show ?thesis by (cases "ps \<le> 0") auto
  qed
qed

lemma vring_packed_rxq_push_loop_quiet:
  assumes "vl_guest l = []" "vq_inv N U R R A (vl_vq l)"
    and "l' = vring_packed_rxq_push_loop recv blocking l"
  shows "\<exists>n. vran N U R A n l l' \<and> (\<forall>i. rxkey (vkey (vl_vq l') i) = rxkey (vkey (vl_vq l) i))"
  using assms
proof (induction "A - R" arbitrary: R l)
  case 0
  then have "A = R" by (simp add: vq_inv_def)
  then show ?case
    using 0 vring_packed_more_quiet [OF 0(3,2), of blocking] vring_set_kick_run [OF 0(3,2)]
    by (intro exI [of _ 0]) (auto simp: vring_packed_rxq_push_loop.simps [of recv blocking l]
        vring_packed_rxq_push_iter_def)
next
  case (Suc k)
  then have lt: "R < A" by simp
  note loop = vring_packed_rxq_push_loop.simps [of recv blocking l]
  have more: "vring_packed_more blocking l = Inr l"
    using vring_packed_more_quiet [OF Suc.prems(2,1)] lt by simp
  obtain c l1 where it: "vring_packed_rxq_push_iter recv blocking l = (c, l1)" by fastforce
  note iq = vring_packed_rxq_push_iter_quiet [OF more vring_copy_used_same [OF Suc.prems(2)] it]
  show ?case
  proof (cases c)
    case False
    then have "l' = l1" using it Suc.prems(3) by (simp add: loop)
    moreover have "vran N U R A 0 l l1 \<and> vl_vq l1 = vl_vq l"
      using iq False vring_set_kick_run(2) [OF Suc.prems(2,1)] by auto
    ultimately show ?thesis by auto
  next
    case True
    obtain be w i x where l1: "l1 = vring_done (\<lambda>vq. vring_expose (upd_desc i (\<lambda>d. d\<lparr>vd_len := x\<rparr>) vq))
        (l\<lparr>vl_be := be, vl_world := w\<rparr>)"
      using iq True by auto
    have e: "vq_inv N U (Suc R) (Suc R) A (vl_vq l1)" "vl_guest l1 = []"
      "\<And>j. rxkey (vkey (vl_vq l1) j) = rxkey (vkey (vl_vq l) j)"
      "driver_event (vl_vq l1) = driver_event (vl_vq l)" "q_notify (vl_queue l1) = q_notify (vl_queue l)"
      "vl_count l1 = Suc (vl_count l)"
      using vring_done_fill [of N U R A "l\<lparr>vl_be := be, vl_world := w\<rparr>" l1 i x] Suc.prems lt l1
      by simp_all
    have l': "l' = vring_packed_rxq_push_loop recv blocking l1" using it True Suc.prems(3) by (simp add: loop)
    have k: "k = A - Suc R" using Suc.hyps(2) by simp
    obtain n where "vran N U (Suc R) A n l1 l'"
      "\<forall>i. rxkey (vkey (vl_vq l') i) = rxkey (vkey (vl_vq l1) i)"
      using Suc.hyps(1) [OF k e(2,1) l'] by blast
    then show ?thesis using vran_step [of N U R A n l1 l' l] lt e by auto
  qed
qed

lemma vring_packed_rxq_push_quiet:
  assumes "vq_inv N U R R A vq" "l = vring_packed_rxq_push recv can [] be w rxq vq"
  shows "\<exists>n \<le> A - R. vq_inv N U (R + n) (R + n) A (vl_vq l) \<and> vl_count l = n \<and>
    (\<forall>i. rxkey (vkey (vl_vq l) i) = rxkey (vkey vq i)) \<and> driver_event (vl_vq l) = driver_event vq \<and>
    (q_notify (vl_queue l) \<longleftrightarrow> 0 < n \<and> vring_packed_intr_needed (of_nat n) (vl_vq l))"
proof -
  define vq0 where "vq0 = (if h_device_event_flags vq \<noteq> VRING_PACKED_EVENT_FLAG_DISABLE
    then vring_packed_notification False vq else vq)"
  define l0 where "l0 = vring_start can [] be w rxq vq0"
  define l1 where "l1 = vring_packed_rxq_push_loop recv (can \<noteq> None) l0"
  have l: "l = vring_finish l1" using assms(2) by (simp add: vring_packed_rxq_push_def Let_def l1_def l0_def vq0_def)
  have "vq0 = vq \<or> vq0 = vring_packed_notification False vq" by (simp add: vq0_def)
  note s = vring_start_quiet [OF assms(1) this l0_def]
  obtain n where r: "vran N U R A n l0 l1" "\<forall>i. rxkey (vkey (vl_vq l1) i) = rxkey (vkey vq i)"
    using vring_packed_rxq_push_loop_quiet [OF s(1,2) l1_def] s(3) by auto
  then have "vl_guest l1 = []" by (simp add: vran_def)
  note f = vring_finish_quiet [OF this]
  show ?thesis using r s f by (intro exI [of _ n]) (simp add: l vran_def)
qed

end
