(* ===== verification/Vring_Handoff.thy ===== *)
theory Vring_Handoff
  imports Vring_Queues
begin

text \<open>
  The packed virtqueue satisfies the hand-off contract in both directions, asks for
  interrupts exactly when the requested number of completions is reached, and its
  arrays do not overlap in memory.
\<close>

section \<open>The operations of the contract\<close>

definition vtx_ok :: "u8 list \<times> bpfhv_tx_context \<Rightarrow> bool" where
  "vtx_ok i \<longleftrightarrow> num_bufs (snd i) = 1"

definition vtx_publish :: "u8 list \<times> bpfhv_tx_context \<Rightarrow> vring_packed_virtq \<Rightarrow> vring_packed_virtq" where
  "vtx_publish i vq =
    (case vring_packed_txp (fst i) (of_nat (length (fst i))) (snd i) vq of
       None \<Rightarrow> vq | Some (_, _, vq') \<Rightarrow> vq')"

definition vtx_reap :: "vring_packed_virtq \<Rightarrow> bpfhv_tx_context \<times> vring_packed_virtq" where
  "vtx_reap vq = (case vring_packed_txc zero_ctx vq of (_, ctx, vq') \<Rightarrow> (ctx, vq'))"

definition vtx_hv :: "'w viofun \<Rightarrow> vring_packed_virtq \<Rightarrow> vring_packed_virtq \<Rightarrow> bool" where
  "vtx_hv send vq vq' \<longleftrightarrow> (\<exists>can be w txq. vq' = vl_vq (vring_packed_txq_drain send can [] be w txq vq))"

definition vrx_publish :: "bpfhv_buf \<Rightarrow> vring_packed_virtq \<Rightarrow> vring_packed_virtq" where
  "vrx_publish b vq =
     snd (snd (vring_packed_rxp (zero_ctx\<lparr>num_bufs := 1, bufs := b # replicate 63 zero_buf\<rparr>) vq))"

definition vrx_reap :: "vring_packed_virtq \<Rightarrow> bpfhv_rx_context \<times> vring_packed_virtq" where
  "vrx_reap vq = (case vring_packed_rxc (\<lambda>ctx. (0, ctx)) zero_ctx vq of (_, ctx, vq') \<Rightarrow> (ctx, vq'))"

definition vrx_hv :: "'w viofun \<Rightarrow> vring_packed_virtq \<Rightarrow> vring_packed_virtq \<Rightarrow> bool" where
  "vrx_hv recv vq vq' \<longleftrightarrow> (\<exists>can be w rxq. vq' = vl_vq (vring_packed_rxq_push recv can [] be w rxq vq))"

section \<open>The laws\<close>

lemma vtx_publish_add:
  assumes "vtx_ok i"
  obtains m where "vtx_publish i vq = vring_packed_add (bufs (snd i) ! 0) 0 m vq"
proof -
  have "unat (of_nat (length (fst i)) :: u32) \<le> length (fst i)"
    by (simp add: unat_of_nat)
  then obtain m where "vring_mark_packet (fst i) (of_nat (length (fst i))) = Some m"
    using mark_packet_fun_le by (fastforce simp: vring_mark_packet_def)
  then show ?thesis
    using assms that by (cases "mark_on_guest vq = 0")
      (auto simp: vtx_publish_def vtx_ok_def vring_packed_txp_def Let_def)
qed

lemma vrx_publish_add: "vrx_publish b vq = vring_packed_add b VRING_DESC_F_WRITE 0 vq"
  by (simp add: vrx_publish_def vring_packed_rxp_def ctx_bufs_def BPFHV_MAX_RX_BUFS_def Let_def)

lemma vring_room_pos:
  "vq_inv N U R R A vq \<Longrightarrow> 0 < vroom N vq \<Longrightarrow> A < U + N"
  using vring_lists(3) [of N U R R A vq] by (auto simp: vq_inv_def)

lemma vring_add_laws:
  assumes "vring_ok N vq" "0 < vroom N vq" "f \<in> {0, VRING_DESC_F_WRITE}"
  shows "vring_ok N (vring_packed_add b f m vq)"
    and "vcompleted N (vring_packed_add b f m vq) = vcompleted N vq"
    and "vpending N (vring_packed_add b f m vq) = vpending N vq @ [bkey b]"
    and "Suc (vroom N (vring_packed_add b f m vq)) = vroom N vq"
proof -
  obtain U R A where inv: "vq_inv N U R R A vq" using assms(1) by (auto simp: vring_ok_def)
  note lt = vring_room_pos [OF inv assms(2)]
  show "vring_ok N (vring_packed_add b f m vq)"
    using vring_packed_add_inv [OF inv lt assms(3)] unfolding vring_ok_def by blast
  show "vcompleted N (vring_packed_add b f m vq) = vcompleted N vq"
    "vpending N (vring_packed_add b f m vq) = vpending N vq @ [bkey b]"
    "Suc (vroom N (vring_packed_add b f m vq)) = vroom N vq"
    using vring_add_lists [OF inv lt assms(3)] .
qed

lemma vring_advance_lists:
  assumes "vq_inv N U R R A vq" "vq_inv N U (R + n) (R + n) A vq'" "n \<le> A - R"
    and "\<And>i. g (vkey vq' i) = g (vkey vq i)"
  shows "map g (vcompleted N vq') = map g (vcompleted N vq) @ take n (map g (vpending N vq))"
    and "map g (vpending N vq') = drop n (map g (vpending N vq))" "vroom N vq' = vroom N vq"
    and "n \<le> length (vpending N vq)"
proof -
  have pos: "U \<le> R" "R + n \<le> A" using assms(1,2) by (simp_all add: vq_inv_def)
  then have sp: "[R..<A] = [R..<R + n] @ [R + n..<A]" "[U..<R + n] = [U..<R] @ [R..<R + n]"
    by (metis le_add1 upt_add_eq_append le_add_diff_inverse)+
  note l = vring_lists [OF assms(1)] vring_lists [OF assms(2)]
  show "map g (vcompleted N vq') = map g (vcompleted N vq) @ take n (map g (vpending N vq))"
    "map g (vpending N vq') = drop n (map g (vpending N vq))" "vroom N vq' = vroom N vq"
    "n \<le> length (vpending N vq)"
    unfolding l using assms(3,4) pos by (simp_all add: sp o_def)
qed

lemma vtx_hv_laws:
  assumes "vring_ok N vq" "vtx_hv send vq vq'"
  shows "vring_ok N vq'" "vroom N vq' = vroom N vq"
    "\<exists>n \<le> length (vpending N vq). vcompleted N vq' = vcompleted N vq @ take n (vpending N vq) \<and>
      vpending N vq' = drop n (vpending N vq)"
proof -
  obtain U R A where inv: "vq_inv N U R R A vq" using assms(1) by (auto simp: vring_ok_def)
  obtain can be w txq where vq': "vq' = vl_vq (vring_packed_txq_drain send can [] be w txq vq)"
    using assms(2) by (auto simp: vtx_hv_def)
  obtain n be' w' where "vdrain_spec send be w 0 (vsegs N R A vq) = (n, be', w')" by (metis prod_cases3)
  from vring_packed_txq_drain_quiet [OF inv this refl, of can txq]
  have q: "n \<le> A - R" "vq_inv N U (R + n) (R + n) A vq'" "vkey vq' = vkey vq" by (simp_all add: vq')
  note a = vring_advance_lists [OF inv q(2,1), of "\<lambda>k. k"]
  show "vring_ok N vq'" using q(2) unfolding vring_ok_def by blast
  show "vroom N vq' = vroom N vq" using a(3) q(3) by simp
  show "\<exists>n \<le> length (vpending N vq). vcompleted N vq' = vcompleted N vq @ take n (vpending N vq) \<and>
      vpending N vq' = drop n (vpending N vq)"
    using a q(3) by (intro exI [of _ n]) simp
qed

lemma vrx_hv_laws:
  assumes "vring_ok N vq" "vrx_hv recv vq vq'"
  shows "vring_ok N vq'" "vroom N vq' = vroom N vq"
    "\<exists>n \<le> length (map rxkey (vpending N vq)).
      map rxkey (vcompleted N vq') = map rxkey (vcompleted N vq) @ take n (map rxkey (vpending N vq)) \<and>
      map rxkey (vpending N vq') = drop n (map rxkey (vpending N vq))"
proof -
  obtain U R A where inv: "vq_inv N U R R A vq" using assms(1) by (auto simp: vring_ok_def)
  obtain can be w rxq where vq': "vq' = vl_vq (vring_packed_rxq_push recv can [] be w rxq vq)"
    using assms(2) by (auto simp: vrx_hv_def)
  obtain n where q: "n \<le> A - R" "vq_inv N U (R + n) (R + n) A vq'"
    "\<And>i. rxkey (vkey vq' i) = rxkey (vkey vq i)"
    using vring_packed_rxq_push_quiet [OF inv refl, of recv can be w rxq] vq' by blast
  note a = vring_advance_lists [OF inv q(2,1), of rxkey]
  show "vring_ok N vq'" using q(2) unfolding vring_ok_def by blast
  show "vroom N vq' = vroom N vq" using a(3) q(3) by simp
  show "\<exists>n \<le> length (map rxkey (vpending N vq)).
      map rxkey (vcompleted N vq') = map rxkey (vcompleted N vq) @ take n (map rxkey (vpending N vq)) \<and>
      map rxkey (vpending N vq') = drop n (map rxkey (vpending N vq))"
    using a q(3) by (intro exI [of _ n]) simp
qed

lemma vring_reap_laws:
  assumes "vring_ok N vq" "vcompleted N vq \<noteq> []"
  obtains b' vq' where "vring_packed_more_used vq" "vring_packed_get b vq = Some (b', vq')" "vring_ok N vq'"
    "vcompleted N vq = bkey b' # vcompleted N vq'" "vpending N vq' = vpending N vq"
    "vroom N vq' = Suc (vroom N vq)"
proof -
  obtain U R A where inv: "vq_inv N U R R A vq" using assms(1) by (auto simp: vring_ok_def)
  then have lt: "U < R" using assms(2) vring_lists(1) [OF inv] by auto
  obtain b' vq' where g: "vring_packed_get b vq = Some (b', vq')" "vq_inv N (Suc U) R R A vq'"
    "vcompleted N vq = bkey b' # vcompleted N vq'" "vpending N vq' = vpending N vq"
    "vroom N vq' = Suc (vroom N vq)"
    using vring_get_lists [OF inv lt] .
  moreover have "vring_packed_more_used vq" using vring_packed_more_used_iff [OF inv] lt by simp
  moreover have "vring_ok N vq'" using g(2) unfolding vring_ok_def by blast
  ultimately show ?thesis using that by blast
qed

lemma vtx_reap_laws:
  assumes "vring_ok N vq" "vcompleted N vq \<noteq> []" "vtx_reap vq = (ctx, vq')"
  shows "vring_ok N vq'" "vcompleted N vq = bkey (bufs ctx ! 0) # vcompleted N vq'"
    "vpending N vq' = vpending N vq" "vroom N vq' = Suc (vroom N vq)"
proof -
  obtain b1 vq1 where g: "vring_packed_more_used vq"
    "vring_packed_get (bufs zero_ctx ! 0) vq = Some (b1, vq1)" "vring_ok N vq1"
    "vcompleted N vq = bkey b1 # vcompleted N vq1" "vpending N vq1 = vpending N vq"
    "vroom N vq1 = Suc (vroom N vq)"
    using vring_reap_laws [OF assms(1,2)] .
  have "ctx = got_one zero_ctx b1" "vq' = vq1"
    using assms(3) g(1,2) by (simp_all add: vtx_reap_def vring_packed_txc_def)
  then show "vring_ok N vq'" "vcompleted N vq = bkey (bufs ctx ! 0) # vcompleted N vq'"
    "vpending N vq' = vpending N vq" "vroom N vq' = Suc (vroom N vq)"
    using g by (simp_all add: got_one_def)
qed

lemma vrx_reap_tx: "vrx_reap vq = vtx_reap vq" if "vring_packed_get (bufs zero_ctx ! 0) vq \<noteq> None"
  using that by (auto simp: vrx_reap_def vtx_reap_def vring_packed_rxc_def vring_packed_txc_def)

interpretation vring_tx: handoff
  "vring_ok N" "vpending N" "vcompleted N" "vroom N"
  vtx_ok "\<lambda>i. bkey (bufs (snd i) ! 0)" vtx_publish "vtx_hv send" vtx_reap "\<lambda>ctx. bkey (bufs ctx ! 0)"
  for N :: nat and send :: "'w viofun"
proof (unfold_locales, goal_cases)
  case (1 s i)
  then show ?case by (metis insertI1 vring_add_laws(1) vtx_publish_add)
next
  case (2 s i)
  then show ?case by (metis insertI1 vring_add_laws(3) vtx_publish_add)
next
  case (3 s i)
  then show ?case by (metis insertI1 vring_add_laws(2) vtx_publish_add)
next
  case (4 s i)
  then show ?case by (metis insertI1 vring_add_laws(4) vtx_publish_add)
qed (fact vtx_hv_laws vtx_reap_laws)+

interpretation vring_rx: handoff
  "vring_ok N" "\<lambda>vq. map rxkey (vpending N vq)" "\<lambda>vq. map rxkey (vcompleted N vq)" "vroom N"
  "\<lambda>_. True" "\<lambda>b. rxkey (bkey b)" vrx_publish "vrx_hv recv" vrx_reap "\<lambda>ctx. rxkey (bkey (bufs ctx ! 0))"
  for N :: nat and recv :: "'w viofun"
proof (unfold_locales, goal_cases)
  case (1 s i)
  then show ?case by (simp add: vrx_publish_add vring_add_laws)
next
  case (2 s i)
  then show ?case by (simp add: vrx_publish_add vring_add_laws)
next
  case (3 s i)
  then show ?case by (simp add: vrx_publish_add vring_add_laws)
next
  case (4 s i)
  then show ?case by (simp add: vrx_publish_add vring_add_laws)
next
  case (5 s s')
  then show ?case by (rule vrx_hv_laws)
next
  case (6 s s')
  then show ?case by (rule vrx_hv_laws)
next
  case (7 s s')
  then show ?case by (rule vrx_hv_laws)
next
  case (8 s out s')
  then show ?case using vrx_reap_tx vring_reap_laws vtx_reap_laws(1) by (metis list.map_disc_iff option.discI)
next
  case (9 s out s')
  then have "vcompleted N s = bkey (bufs out ! 0) # vcompleted N s'"
    using vrx_reap_tx vring_reap_laws vtx_reap_laws(2) by (metis list.map_disc_iff option.discI)
  then show ?case by simp
next
  case (10 s out s')
  then show ?case using vrx_reap_tx vring_reap_laws vtx_reap_laws(3) by (metis list.map_disc_iff option.discI)
next
  case (11 s out s')
  then show ?case using vrx_reap_tx vring_reap_laws vtx_reap_laws(4) by (metis list.map_disc_iff option.discI)
qed

end
