(* ===== verification/Vring_Props.thy ===== *)
theory Vring_Props
  imports Vring_Handoff
begin

text \<open>The properties of the packed virtqueue, with the concrete queues that witness them.\<close>

section \<open>A fresh queue\<close>

lemma free_list_init:
  assumes "length st = N" "N \<le> 2 ^ 15" "\<And>i. i < N \<Longrightarrow> ds_next (st ! i) = (if i < N - 1 then of_nat (i + 1) else 0)"
  shows "k \<le> N \<Longrightarrow> free_list st (if k < N then of_nat k else 0) (map of_nat [k..<N])"
proof (induction "N - k" arbitrary: k)
  case (Suc n)
  then have k: "k < N" "n = N - Suc k" "Suc k \<le> N" by simp_all
  have u: "unat (of_nat k :: u16) = k" using k assms(2) by (simp add: unat_of_nat)
  have "ds_next (st ! k) = (if Suc k < N then of_nat (Suc k) else 0)" using assms(3) [of k] k by auto
  then show ?case using Suc.hyps(1) [OF k(2,3)] k(1) u by (simp add: upt_conv_Cons)
qed simp

lemma vring_packed_init_inv:
  assumes "0 < N" "N \<le> 2 ^ 15"
  shows "vq_inv N 0 0 0 0 (vring_packed_init N)"
proof -
  let ?vq = "vring_packed_init N"
  have "vq_shape N ?vq" using assms by (simp add: vq_shape_def vring_packed_init_def vring_packed_notification_def)
  moreover have "vq_cur N 0 0 0 0 ?vq"
    by (simp add: vq_cur_def vcur_def vring_packed_init_def vring_packed_notification_def flag_int_def flag_eval)
  moreover have "vq_flags N 0 0 0 (vdesc ?vq)"
    by (simp add: vq_flags_def is_free_def vring_packed_init_def vring_packed_notification_def flag_eval)
  moreover have "vq_ids N 0 0 (vdesc ?vq) (vstate ?vq) (g_next_free_id ?vq)"
  proof -
    have "free_list (vstate ?vq) (if 0 < N then of_nat 0 else 0) (map of_nat [0..<N])"
      using assms by (intro free_list_init) (simp_all add: vring_packed_init_def vring_packed_notification_def)
    moreover have "inj_on (of_nat :: nat \<Rightarrow> u16) {0..<N}"
      using assms(2) by (intro inj_on_inverseI [of _ unat]) (simp add: unat_of_nat)
    ultimately show ?thesis
      unfolding vq_ids_def using assms
      by (intro exI [of _ "map of_nat [0..<N]"])
        (auto simp: pos_ids_def distinct_map unat_of_nat vring_packed_init_def vring_packed_notification_def)
  qed
  ultimately show ?thesis using assms by (simp add: vq_inv_def)
qed

lemma vring_packed_init_ok:
  assumes "0 < N" "N \<le> 2 ^ 15"
  shows "vring_ok N (vring_packed_init N)" "vcompleted N (vring_packed_init N) = []"
    "vpending N (vring_packed_init N) = []" "vroom N (vring_packed_init N) = N"
  using vring_packed_init_inv [OF assms] vring_lists [OF vring_packed_init_inv [OF assms]]
  by (auto simp: vring_ok_def)

section \<open>Order\<close>

abbreviation vring_tx_run ::
  "nat \<Rightarrow> 'w viofun \<Rightarrow> vring_packed_virtq \<Rightarrow> vring_packed_virtq \<Rightarrow> (u8 list \<times> bpfhv_tx_context) list
    \<Rightarrow> bpfhv_tx_context list \<Rightarrow> bool" where
  "vring_tx_run N send \<equiv> handoff_run (\<lambda>vq. 0 < vroom N vq) vtx_ok vtx_publish (vtx_hv send)
     (\<lambda>vq. vcompleted N vq \<noteq> []) vtx_reap"

abbreviation vring_rx_run ::
  "nat \<Rightarrow> 'w viofun \<Rightarrow> vring_packed_virtq \<Rightarrow> vring_packed_virtq \<Rightarrow> bpfhv_buf list
    \<Rightarrow> bpfhv_rx_context list \<Rightarrow> bool" where
  "vring_rx_run N recv \<equiv> handoff_run (\<lambda>vq. 0 < vroom N vq) (\<lambda>_. True) vrx_publish (vrx_hv recv)
     (\<lambda>vq. vcompleted N vq \<noteq> []) vrx_reap"

text \<open>C32: over any sequence of publications while there is room, drains and completion
  calls that starts from a freshly initialised packed virtqueue, transmit buffers come
  back exactly once, in order, with the cookie, address and length they were published
  with; none is lost and the queue stays well formed through every wrap of its indices.\<close>

theorem vring_tx_fifo:
  assumes "0 < N" "N \<le> 2 ^ 15" "vring_tx_run N send (vring_packed_init N) vq ins outs"
  shows "map (\<lambda>ctx. bkey (bufs ctx ! 0)) outs @ vcompleted N vq @ vpending N vq
      = map (\<lambda>i. bkey (bufs (snd i) ! 0)) ins \<and>
    vring_ok N vq \<and> vroom N vq + length (vcompleted N vq) + length (vpending N vq) = N"
  using vring_tx.run_fifo [OF assms(3)] vring_packed_init_ok [OF assms(1,2)] by simp


definition vtx_input :: "u8 list \<times> bpfhv_tx_context" where
  "vtx_input = ([], zero_ctx\<lparr>num_bufs := 1, bufs := (bufs zero_ctx)[0 :=
     \<lparr>buf_cookie = 7, buf_paddr = 0x1800, buf_vaddr = 0, buf_len = 64\<rparr>]\<rparr>)"

definition vsend_all :: "unit viofun" where "vsend_all iov w = (64, False, w)"

text \<open>Witness of C32: a buffer is published and drained in a queue of three slots.\<close>

theorem vring_tx_fifo_witness:
  "\<exists>vq. vring_ok 3 vq \<and> vcompleted 3 vq @ vpending 3 vq = [(7, 0x1800, 64)] \<and>
    vtx_hv vsend_all (vtx_publish vtx_input (vring_packed_init 3)) vq"
proof -
  let ?v0 = "vring_packed_init 3"
  have "0 < vroom 3 ?v0" using vring_packed_init_ok(4) [of 3] by simp
  moreover have "vtx_ok vtx_input" by (simp add: vtx_ok_def vtx_input_def)
  ultimately have s1: "vring_tx_run 3 vsend_all ?v0 (vtx_publish vtx_input ?v0) ([] @ [vtx_input]) []"
    by (intro run_publish [OF run_init])
  define vq where "vq = vl_vq (vring_packed_txq_drain vsend_all None [] mem_sample () queue_sample
    (vtx_publish vtx_input ?v0))"
  have hv: "vtx_hv vsend_all (vtx_publish vtx_input ?v0) vq" unfolding vtx_hv_def vq_def by blast
  from run_hv [OF s1 hv] have "vring_tx_run 3 vsend_all ?v0 vq [vtx_input] []" by simp
  from vring_tx_fifo [OF _ _ this] hv show ?thesis
    by (intro exI [of _ vq]) (simp add: vtx_input_def bkey_def zero_ctx_def)
qed


section \<open>Interrupts and kicks\<close>

lemma vring_packed_intr_armed:
  assumes "vq_inv N U R H A vq" "m \<noteq> 0" "unat m \<le> N" "vring_packed_intr m vq = (r, vq1)"
  shows "event_at N (U + unat m - 1) (driver_event vq1)"
    and "r = (if U + unat m \<le> R then 1 else 0)"
    and "vq_inv N U R H A vq1" "vkey vq1 = vkey vq"
proof -
  let ?e = "U + unat m - 1"
  have sh: "vq_shape N vq" and c: "vcur N U (g_next_used_idx vq) (g_used_wrap_counter vq)"
    using assms(1) by (simp_all add: vq_inv_def vq_cur_def)
  then have N: "0 < N" "N \<le> 2 ^ 15" "num_desc vq = of_nat N" by (simp_all add: vq_shape_def)
  have m: "0 < unat m" using assms(2) by (simp add: unat_gt_0)
  define u0 where "u0 = g_next_used_idx vq + (m - 1)"
  define wr where "wr \<longleftrightarrow> (ucast u0 :: u32) \<ge> num_desc vq"
  define u where "u = (if wr then u0 - ucast (num_desc vq) else u0)"
  define w where "w = (if wr then g_used_wrap_counter vq XOR 1 else g_used_wrap_counter vq)"
  have "U mod N + (unat m - 1) < 2 ^ 16" using vcur_less [OF N(1) c] c N(2) assms(3) by (simp add: vcur_def)
  then have u0: "unat u0 = U mod N + (unat m - 1)"
    using c m by (simp add: u0_def vcur_def unat_word_ariths unat_sub word_le_nat_alt)
  have wr: "wr \<longleftrightarrow> N \<le> U mod N + (unat m - 1)"
    using u0 N by (simp add: wr_def word_le_nat_alt unat_ucast_up unat_of_nat)
  have nm: "\<not> num_desc vq < ucast m"
    using assms(3) N by (simp add: word_less_nat_alt unat_ucast_up unat_of_nat)
  have e: "?e = U + (unat m - 1)" "unat m - 1 < N" using m assms(3) by simp_all
  have ce: "vcur N ?e u w"
  proof (cases wr)
    case True
    then have "unat u = U mod N + (unat m - 1) - N"
      using u0 wr N by (simp add: u_def unat_sub word_le_nat_alt unat_of_nat unsigned_ucast_eq take_bit_nat_eq_self)
    then show ?thesis using lap_add(2) [OF e(2), of U] wr True c unfolding e(1) by (simp add: vcur_def w_def)
  next
    case False
    then show ?thesis
      using lap_add(1) [OF e(2), of U] wr u0 c unfolding e(1) by (simp add: vcur_def w_def u_def)
  qed
  have r: "vring_packed_intr m vq = (if vring_packed_desc_is_used u w vq then 1 else 0,
      vq\<lparr>driver_event := \<lparr>ev_off_wrap = u OR push_bit VRING_PACKED_EVENT_F_WRAP_CTR (ucast w),
        ev_flags = VRING_PACKED_EVENT_FLAG_DESC\<rparr>\<rparr>)"
    using assms(2) nm
    by (simp add: vring_packed_intr_def Let_def u_def w_def wr_def u0_def vring_packed_desc_is_used_def)
  then show "event_at N ?e (driver_event vq1)"
    using assms(4) ce by (auto simp: event_at_def)
  have "vring_packed_desc_is_used u w vq \<longleftrightarrow> ?e < R"
    using vq_flags_at [OF assms(1), of ?e] e ce
    by (cases "?e < R"; cases "?e < A")
      (auto simp: vring_packed_desc_is_used_def Let_def vcur_def is_used_def is_avail_def is_free_def)
  then show "r = (if U + unat m \<le> R then 1 else 0)" using r assms(4) m by auto
  show "vq_inv N U R H A vq1" "vkey vq1 = vkey vq"
    using r assms(1,4) by (auto simp: vq_inv_def vq_cur_def vq_shape_def vkey_def [abs_def])
qed

text \<open>C35: when the guest has asked for an interrupt at \<open>m\<close> completed buffers and they are
  not there yet, a drain that completes something notifies the guest exactly when the
  number is reached, also across wraps of the used index.\<close>

theorem vring_tx_interrupt:
  assumes "vring_ok N vq" "m \<noteq> 0" "unat m \<le> N" "vring_packed_intr m vq = (0, vq1)"
    and "l = vring_packed_txq_drain send can [] be w txq vq1" "0 < vl_count l"
  shows "q_notify (vl_queue l) \<longleftrightarrow> unat m \<le> length (vcompleted N (vl_vq l))"
proof -
  obtain U R A where inv: "vq_inv N U R R A vq" using assms(1) by (auto simp: vring_ok_def)
  note a = vring_packed_intr_armed [OF inv assms(2-4)]
  have m: "0 < unat m" using assms(2) by (simp add: unat_gt_0)
  have R: "R < U + unat m" using a(2) by (auto split: if_splits)
  obtain n be' w' where "vdrain_spec send be w 0 (vsegs N R A vq1) = (n, be', w')" by (metis prod_cases3)
  from vring_packed_txq_drain_quiet [OF a(3) this assms(5)]
  have q: "n \<le> A - R" "vq_inv N U (R + n) (R + n) A (vl_vq l)" "vl_count l = n"
    "driver_event (vl_vq l) = driver_event vq1"
    "q_notify (vl_queue l) \<longleftrightarrow> 0 < n \<and> vring_packed_intr_needed (of_nat n) (vl_vq l)"
    by simp_all
  have c: "vcur N (R + n) (h_next_used_idx (vl_vq l)) (h_used_wrap_counter (vl_vq l))"
    and N: "0 < N" "N \<le> 2 ^ 15" "num_desc (vl_vq l) = of_nat N" and pos: "U \<le> R" "R + n \<le> U + N"
    using q(2) inv by (simp_all add: vq_inv_def vq_cur_def vq_shape_def)
  have "vring_packed_intr_needed (of_nat n) (vl_vq l) \<longleftrightarrow> R + n - n \<le> U + unat m - 1 \<and> U + unat m - 1 < R + n"
    unfolding vring_packed_intr_needed_def q(4) N(3)
    by (rule vring_event_needed_iff [OF N(1,2) c a(1)]) (use pos m assms(3) in auto)
  moreover have "length (vcompleted N (vl_vq l)) = R + n - U" using vring_lists(1) [OF q(2)] by simp
  ultimately show ?thesis using q(3,5) assms(6) R m pos by auto
qed

text \<open>C36: when the host has re-enabled kicks, the next publication asks for a kick exactly
  when the host had consumed everything: a host that waits is woken up, and one that
  still has work is left alone.\<close>

theorem vring_tx_kick:
  assumes "vring_ok N vq" "0 < vroom N vq"
    and "vring_packed_txp pkt sz ctx (vring_packed_notification True vq) = Some (0, ctx', vq')"
  shows "oflags ctx' = BPFHV_OFLAGS_KICK_NEEDED \<longleftrightarrow> vpending N vq = []"
proof -
  obtain U R A where inv: "vq_inv N U R R A vq" using assms(1) by (auto simp: vring_ok_def)
  let ?vq = "vring_packed_notification True vq"
  have lt: "A < U + N" by (rule vring_room_pos [OF inv assms(2)])
  have inv1: "vq_inv N U R R A ?vq" using inv by simp
  obtain mk where vq': "vq' = vring_packed_add (bufs ctx ! 0) 0 mk ?vq"
    "oflags ctx' = kick_flags (vring_packed_kick_needed 1 vq')"
    using assms(3) by (auto simp: vring_packed_txp_def Let_def bind_eq_Some_conv split: if_splits)
  have inv2: "vq_inv N U R R (Suc A) vq'" unfolding vq'(1) by (rule vring_packed_add_inv [OF inv1 lt]) simp
  have ev: "event_at N R (device_event ?vq)"
    using inv by (auto simp: vq_inv_def vq_cur_def event_at_def vring_packed_notification_def)
  have dev: "device_event vq' = device_event ?vq"
    unfolding vq'(1) by (simp add: vring_packed_add_def Let_def upd_desc_def upd_state_def)
  have c: "vcur N (Suc A) (g_next_avail_idx vq') (g_avail_wrap_counter vq')"
    and N: "0 < N" "N \<le> 2 ^ 15" "num_desc vq' = of_nat N" and pos: "U \<le> R" "R \<le> A"
    using inv2 inv by (simp_all add: vq_inv_def vq_cur_def vq_shape_def)
  have "vring_packed_kick_needed (of_nat 1) vq' \<longleftrightarrow> Suc A - 1 \<le> R \<and> R < Suc A"
    unfolding vring_packed_kick_needed_def dev N(3)
    by (rule vring_event_needed_iff [OF N(1,2) c ev]) (use pos lt in auto)
  then show ?thesis
    using vring_lists(2) [OF inv] pos vq'(2) by (auto simp: kick_flags_def BPFHV_OFLAGS_KICK_NEEDED_def)
qed

text \<open>Witness of C36: the first publication into a fresh queue asks for a kick.\<close>

theorem vring_tx_kick_witness:
  "\<exists>ctx' vq'. vring_packed_txp [] 0 (snd vtx_input) (vring_packed_notification True (vring_packed_init 3))
      = Some (0, ctx', vq') \<and> oflags ctx' = BPFHV_OFLAGS_KICK_NEEDED"
proof -
  let ?v = "vring_packed_notification True (vring_packed_init 3)"
  have mk: "mark_on_guest ?v = 0" "num_bufs (snd vtx_input) = 1"
    by (simp_all add: vring_packed_init_def vring_packed_notification_def vtx_input_def)
  obtain ctx' vq' where t: "vring_packed_txp [] 0 (snd vtx_input) ?v = Some (0, ctx', vq')"
    using mk by (simp add: vring_packed_txp_def Let_def)
  moreover have "oflags ctx' = BPFHV_OFLAGS_KICK_NEEDED"
    using vring_tx_kick [OF _ _ t, of 3] vring_packed_init_ok [of 3] by simp
  ultimately show ?thesis by blast
qed

lemma vtx_sample_lists:
  defines "vq \<equiv> vtx_publish vtx_input (vring_packed_init 3)"
  shows "vq_inv 3 0 0 0 1 vq" "vsegs 3 0 1 vq = [(0x1800, 64)]"
proof -
  have i: "vq_inv 3 0 0 0 0 (vring_packed_init 3)" by (rule vring_packed_init_inv) simp_all
  obtain m where m: "vq = vring_packed_add (bufs (snd vtx_input) ! 0) 0 m (vring_packed_init 3)"
    unfolding vq_def by (rule vtx_publish_add [of vtx_input]) (simp_all add: vtx_ok_def vtx_input_def)
  show "vq_inv 3 0 0 0 1 vq" unfolding m using vring_packed_add_inv [OF i] by simp
  show "vsegs 3 0 1 vq = [(0x1800, 64)]"
    using vkey_add(1) [OF i, of "bufs (snd vtx_input) ! 0" 0 m]
    by (simp add: vsegs_def m bkey_def vtx_input_def zero_ctx_def)
qed

text \<open>Witness of C35: one buffer is pending, an interrupt at the first completion is asked
  for, and the drain notifies.\<close>

theorem vring_tx_interrupt_witness:
  "\<exists>vq1. vring_packed_intr 1 (vtx_publish vtx_input (vring_packed_init 3)) = (0, vq1) \<and>
    q_notify (vl_queue (vring_packed_txq_drain vsend_all None [] mem_sample () queue_sample vq1))"
proof -
  let ?vq = "vtx_publish vtx_input (vring_packed_init 3)"
  note inv = vtx_sample_lists(1)
  obtain r vq1 where r: "vring_packed_intr 1 ?vq = (r, vq1)" by fastforce
  note a = vring_packed_intr_armed [OF inv _ _ r]
  have r0: "vring_packed_intr 1 ?vq = (0, vq1)" using a(2) r by simp
  let ?l = "vring_packed_txq_drain vsend_all None [] mem_sample () queue_sample vq1"
  have seg: "vsegs 3 0 1 vq1 = [(0x1800, 64)]" using a(4) vtx_sample_lists(2) by (simp add: vsegs_def)
  have "fst (vdrain_spec vsend_all mem_sample () 0 (vsegs 3 0 1 vq1)) = 1"
    unfolding seg by (simp add: vsend_all_def translate_addr_def mem_sample_def region_sample_def
        region_match_def upt_rec Let_def)
  then obtain be' w' where "vdrain_spec vsend_all mem_sample () 0 (vsegs 3 0 1 vq1) = (1, be', w')"
    by (metis prod.collapse)
  from vring_packed_txq_drain_quiet [OF _ this refl, of 0 None queue_sample] a(3)
  have l: "vl_count ?l = 1" "vq_inv 3 0 1 1 1 (vl_vq ?l)" by simp_all
  have "vring_ok 3 ?vq" using inv unfolding vring_ok_def by blast
  from vring_tx_interrupt [OF this _ _ r0 refl, of vsend_all None mem_sample "()" queue_sample]
  have "q_notify (vl_queue ?l)" using l vring_lists(1) [OF l(2)] by simp
  then show ?thesis using r0 by blast
qed

section \<open>Layout\<close>

lemma ROUNDUP_bounds: "0 < s \<Longrightarrow> sz \<le> ROUNDUP sz s" "s dvd ROUNDUP sz s"
proof -
  assume "0 < s"
  then have "sz + s - 1 < (sz + s - 1) div s * s + s"
    using mod_less_divisor [of s "sz + s - 1"] div_mult_mod_eq [of "sz + s - 1" s] by linarith
  then show "sz \<le> ROUNDUP sz s" using \<open>0 < s\<close> by (simp add: ROUNDUP_def)
qed (simp add: ROUNDUP_def)


end
