(* ===== verification/Vring_Ooo.thy ===== *)
theory Vring_Ooo
  imports Vring_Props "HOL-Library.Multiset"
begin

text \<open>
  Out-of-order completion of transmit buffers (\<open>vring_packed_txq_acquire\<close> and
  \<open>vring_packed_txq_release\<close>): the packet scheduler releases buffers in its own order;
  the host swaps the released descriptor with the one at the used index and keeps a map
  from buffer identifiers to slots.
\<close>

section \<open>Acquired buffers\<close>

text \<open>Positions \<open>R\<close> to \<open>H\<close> are acquired and not released: the slot map knows where each of
  them is, and the flags are those the guest wrote.\<close>

definition acq_map :: "nat \<Rightarrow> nat \<Rightarrow> nat \<Rightarrow> vring_packed_desc list \<Rightarrow> u64 list \<Rightarrow> bool" where
  "acq_map N R H ds m \<longleftrightarrow> (\<forall>p. R \<le> p \<and> p < H \<longrightarrow>
     m ! unat (vd_id (ds ! (p mod N))) = of_nat (p mod N) \<and> vd_flags (ds ! (p mod N)) = guest_flags N p)"

definition acq_inv :: "nat \<Rightarrow> nat \<Rightarrow> nat \<Rightarrow> nat \<Rightarrow> nat \<Rightarrow> vring_packed_virtq \<Rightarrow> bool" where
  "acq_inv N U R H A vq \<longleftrightarrow> vq_inv N U R H A vq \<and> acq_map N R H (vdesc vq) (hv_map vq) \<and>
     unat (g_pending_inuse_counter vq) = H - R"

lemma pos_ids_distinct:
  assumes "vq_inv N U R H A vq" "U \<le> p" "p < A" "U \<le> q" "q < A"
    and "vd_id (vdesc vq ! (p mod N)) = vd_id (vdesc vq ! (q mod N))"
  shows "p = q"
proof -
  have "distinct (pos_ids N U A (vdesc vq))" using assms(1) by (auto simp: vq_inv_def vq_ids_def)
  moreover have "pos_ids N U A (vdesc vq) ! (x - U) = vd_id (vdesc vq ! (x mod N))" if "U \<le> x" "x < A" for x
    using that nth_upt [of U "x - U" A] by (simp add: pos_ids_def)
  ultimately have "p - U = q - U"
    using assms by (metis diff_less_mono length_pos_ids nth_eq_iff_index_eq)
  then show ?thesis using assms(2,4) by simp
qed

lemma guest_flags_swap:
  assumes "R \<le> p" "p < R + N"
  shows "R mod N < p mod N \<Longrightarrow> guest_flags N R = guest_flags N p"
    and "p mod N < R mod N \<Longrightarrow> guest_flags N R XOR guest_flags N p = avail_used_mask"
proof -
  have N: "0 < N" using assms by simp
  have k: "p - R < N" "p = R + (p - R)" using assms by simp_all
  consider "p mod N = R mod N + (p - R)" "p div N = R div N"
    | "p mod N = R mod N + (p - R) - N" "p div N = Suc (R div N)" "N \<le> R mod N + (p - R)"
    using lap_add [OF k(1), of R] k(2) by (cases "R mod N + (p - R) < N") auto
  note cs = this
  show "R mod N < p mod N \<Longrightarrow> guest_flags N R = guest_flags N p"
    using cs by cases (use k(1) in \<open>simp_all add: guest_flags_def\<close>)
  show "p mod N < R mod N \<Longrightarrow> guest_flags N R XOR guest_flags N p = avail_used_mask"
    using cs by cases (auto simp: flag_eval)
qed

section \<open>Swapping two acquired descriptors\<close>

definition dswap :: "nat \<Rightarrow> nat \<Rightarrow> vring_packed_desc list \<Rightarrow> vring_packed_desc list" where
  "dswap i j ds = ds[i := (ds ! i)\<lparr>vd_addr := vd_addr (ds ! j), vd_len := vd_len (ds ! j), vd_id := vd_id (ds ! j)\<rparr>,
     j := (ds ! j)\<lparr>vd_addr := vd_addr (ds ! i), vd_len := vd_len (ds ! i), vd_id := vd_id (ds ! i)\<rparr>]"

lemma dswap_simps:
  assumes "i < length ds" "j < length ds"
  shows "length (dswap i j ds) = length ds"
    "vd_flags (dswap i j ds ! k) = vd_flags (ds ! k)"
    "vd_id (dswap i j ds ! k) = vd_id (ds ! (if k = i then j else if k = j then i else k))"
    "vd_addr (dswap i j ds ! k) = vd_addr (ds ! (if k = i then j else if k = j then i else k))"
    "vd_len (dswap i j ds ! k) = vd_len (ds ! (if k = i then j else if k = j then i else k))"
  using assms by (auto simp: dswap_def nth_list_update)

lemma vq_ids_perm:
  assumes "vq_ids N U A ds st i" "mset (pos_ids N U A ds') = mset (pos_ids N U A ds)"
  shows "vq_ids N U A ds' st i"
proof -
  have s: "set (pos_ids N U A ds') = set (pos_ids N U A ds)"
    and d: "distinct (pos_ids N U A ds') = distinct (pos_ids N U A ds)"
    using assms(2) by (metis set_mset_mset, metis mset_eq_imp_distinct_iff)
  show ?thesis using assms(1) unfolding vq_ids_def by (auto simp: s d)
qed

lemma pos_ids_dswap:
  assumes "length ds = N" "U \<le> R" "R < A" "U \<le> p" "p < A" "A \<le> U + N"
  shows "mset (pos_ids N U A (dswap (R mod N) (p mod N) ds)) = mset (pos_ids N U A ds)"
proof -
  let ?ids = "pos_ids N U A ds"
  have N: "R mod N < length ds" "p mod N < length ds" using assms by simp_all
  have at: "pos_ids N U A xs ! k = vd_id (xs ! ((U + k) mod N))" if "k < A - U" for k xs
    using that by (simp add: pos_ids_def)
  have "pos_ids N U A (dswap (R mod N) (p mod N) ds) = ?ids[p - U := ?ids ! (R - U), R - U := ?ids ! (p - U)]"
  proof (rule nth_equalityI)
    fix k assume "k < length (pos_ids N U A (dswap (R mod N) (p mod N) ds))"
    then have k: "k < A - U" "k < N" using assms(6) by simp_all
    have "(U + k) mod N = R mod N \<longleftrightarrow> k = R - U" "(U + k) mod N = p mod N \<longleftrightarrow> k = p - U"
      using mod_window_inj [of "U + k" N R U] mod_window_inj [of "U + k" N p U] assms k by auto
    then show "pos_ids N U A (dswap (R mod N) (p mod N) ds) ! k
        = ?ids[p - U := ?ids ! (R - U), R - U := ?ids ! (p - U)] ! k"
      using k assms by (simp add: at dswap_simps [OF N] nth_list_update)
  qed simp
  then show ?thesis using assms by (simp add: mset_swap)
qed

lemma vring_packed_desc_swap_ok:
  assumes "vq_inv N U R H A vq" "R < p" "p < A" "unat i = R mod N" "unat j = p mod N"
    and "vd_flags (vdesc vq ! (R mod N)) = guest_flags N R"
    and "vd_flags (vdesc vq ! (p mod N)) = guest_flags N p"
  shows "vring_packed_desc_swap_acquired i j vq = Some (vq\<lparr>vdesc := dswap (R mod N) (p mod N) (vdesc vq)\<rparr>)"
    and "vq_inv N U R H A (vq\<lparr>vdesc := dswap (R mod N) (p mod N) (vdesc vq)\<rparr>)"
proof -
  have pos: "U \<le> R" "R < U + N" "p < U + N" "A \<le> U + N" "p < R + N" and len: "length (vdesc vq) = N" and N: "0 < N"
    using assms(1-3) by (simp_all add: vq_inv_def vq_shape_def)
  have lt: "R mod N < length (vdesc vq)" "p mod N < length (vdesc vq)" using len N by simp_all
  have ne: "R mod N \<noteq> p mod N" using mod_window_inj [of R N p U] pos assms(2) by auto
  have fl: "(i < j \<and> vd_flags (vdesc vq ! (R mod N)) = vd_flags (vdesc vq ! (p mod N))) \<or>
      (j < i \<and> vd_flags (vdesc vq ! (R mod N)) XOR vd_flags (vdesc vq ! (p mod N)) = avail_used_mask)"
    using guest_flags_swap [of R p N] assms(2,4-7) pos ne
    by (cases "R mod N" "p mod N" rule: linorder_cases) (simp_all add: word_less_nat_alt)
  show "vring_packed_desc_swap_acquired i j vq = Some (vq\<lparr>vdesc := dswap (R mod N) (p mod N) (vdesc vq)\<rparr>)"
    using fl ne assms(4,5)
    by (auto simp: vring_packed_desc_swap_acquired_def Let_def upd_desc_def dswap_def)
  have "vq_flags N U R A (dswap (R mod N) (p mod N) (vdesc vq))"
    by (rule vq_flags_cong [of N U R A "vdesc vq"])
      (use assms(1) in \<open>simp_all add: vq_inv_def dswap_simps(2) [OF lt]\<close>)
  moreover have "vq_ids N U A (dswap (R mod N) (p mod N) (vdesc vq)) (vstate vq) (g_next_free_id vq)"
    using assms(1-3) pos len
    by (intro vq_ids_perm [OF _ pos_ids_dswap]) (simp_all add: vq_inv_def)
  ultimately show "vq_inv N U R H A (vq\<lparr>vdesc := dswap (R mod N) (p mod N) (vdesc vq)\<rparr>)"
    using assms(1) by (simp add: vq_inv_def vq_cur_def vq_shape_def dswap_simps(1) [OF lt])
qed

section \<open>Release\<close>

text \<open>Releasing the buffer at position \<open>p\<close> brings its descriptor to the used index.\<close>

definition release_desc :: "nat \<Rightarrow> nat \<Rightarrow> nat \<Rightarrow> vring_packed_virtq \<Rightarrow> vring_packed_virtq" where
  "release_desc N R p vq = (if p = R then vq
     else vq\<lparr>hv_map := (hv_map vq)[unat (vd_id (vdesc vq ! (R mod N))) := of_nat (p mod N)],
             vdesc := dswap (R mod N) (p mod N) (vdesc vq)\<rparr>)"

lemma vq_inv_hv_map:
  "vq_inv N U R H A (vq\<lparr>hv_map := m\<rparr>) \<longleftrightarrow> vq_inv N U R H A vq" if "length m = length (hv_map vq)"
  using that by (simp add: vq_inv_def vq_cur_def vq_shape_def)

lemma advance_used_counter:
  "vring_packed_advance_used (v\<lparr>g_pending_inuse_counter := c\<rparr>)
    = (vring_packed_advance_used v)\<lparr>g_pending_inuse_counter := c\<rparr>"
  by (cases v) (simp add: vring_packed_advance_used_def Let_def)

lemma upd_desc_counter: "g_pending_inuse_counter (upd_desc i f v) = g_pending_inuse_counter v"
  by (simp add: upd_desc_def)

lemma vring_packed_txq_release_eq:
  assumes acq: "acq_inv N U R H A vq" and p: "R \<le> p" "p < H" and x: "x = vd_id (vdesc vq ! (p mod N))"
  shows "vring_packed_txq_release (ucast x) vq = Some ((used_step (release_desc N R p vq))
      \<lparr>g_pending_inuse_counter := g_pending_inuse_counter vq - 1,
       g_pending_used_counter := g_pending_used_counter vq + 1\<rparr>)"
    and "vq_inv N U R H A (release_desc N R p vq)"
proof -
  have inv: "vq_inv N U R H A vq" and mp: "acq_map N R H (vdesc vq) (hv_map vq)"
    and cnt: "unat (g_pending_inuse_counter vq) = H - R"
    using acq by (simp_all add: acq_inv_def)
  have pos: "U \<le> R" "H \<le> A" "A \<le> U + N" and len: "length (hv_map vq) = N" "length (vdesc vq) = N"
    and N: "0 < N" "N \<le> 2 ^ 15" and u: "unat (h_next_used_idx vq) = R mod N"
    using inv by (simp_all add: vq_inv_def vq_shape_def vq_cur_def vcur_def)
  have b: "unat x < N" "unat (vd_id (vdesc vq ! (R mod N))) < N"
    using vq_id_bound(1) [OF inv, of p] vq_id_bound(1) [OF inv, of R] p pos x by simp_all
  have fl: "hv_map vq ! unat x = of_nat (p mod N)" "vd_flags (vdesc vq ! (p mod N)) = guest_flags N p"
    "vd_flags (vdesc vq ! (R mod N)) = guest_flags N R"
    using mp p x by (simp_all add: acq_map_def)
  have "p mod N < 2 ^ 15" using mod_less_divisor [OF N(1), of p] N(2) by linarith
  then have i: "unat (ucast (of_nat (p mod N) :: u64) :: u16) = p mod N"
    by (simp add: unsigned_ucast_eq unat_of_nat take_bit_nat_eq_self)
  have "ucast (ucast (of_nat (p mod N) :: u64) :: u16) = (of_nat (p mod N) :: u64)"
    using i \<open>p mod N < 2 ^ 15\<close> by (simp add: word_unat_eq_iff unat_ucast_up unat_of_nat)
  note i2 = this
  have same: "ucast (of_nat (p mod N) :: u64) = h_next_used_idx vq \<longleftrightarrow> p = R"
    using mod_window_inj [of p N R U] p pos i u by (auto simp: word_unat_eq_iff)
  have ne: "g_pending_inuse_counter vq \<noteq> 0" using cnt p by (auto simp: unat_eq_0 [symmetric])
  let ?m = "(hv_map vq)[unat (vd_id (vdesc vq ! (R mod N))) := of_nat (p mod N)]"
  have inv1: "vq_inv N U R H A (vq\<lparr>hv_map := ?m\<rparr>)" using inv by (simp add: vq_inv_hv_map)
  have sw: "p \<noteq> R \<Longrightarrow> vring_packed_desc_swap_acquired (h_next_used_idx vq) (ucast (of_nat (p mod N) :: u64))
      (vq\<lparr>hv_map := ?m\<rparr>) = Some (release_desc N R p vq)"
    "p \<noteq> R \<Longrightarrow> vq_inv N U R H A (release_desc N R p vq)"
    using vring_packed_desc_swap_ok [OF inv1, of p "h_next_used_idx vq" "ucast (of_nat (p mod N) :: u64)"]
      p pos u i fl(2,3) by (simp_all add: release_desc_def)
  show "vq_inv N U R H A (release_desc N R p vq)"
    using sw(2) inv by (cases "p = R") (simp_all add: release_desc_def)
  have uu: "(ucast (ucast x :: u64) :: u16) = x" 
    by (rule bit_word_eqI) (simp add: bit_simps)
  have sel: "(if (ucast (of_nat (p mod N) :: u64) :: u16) \<noteq> h_next_used_idx vq then
        let used_id = vd_id (vdesc vq ! unat (h_next_used_idx vq)) in
        if unat used_id \<ge> length (hv_map vq) \<or> unat (ucast (of_nat (p mod N) :: u64) :: u16) \<ge> length (vdesc vq)
        then None
        else vring_packed_desc_swap_acquired (h_next_used_idx vq) (ucast (of_nat (p mod N) :: u64))
          (vq\<lparr>hv_map := (hv_map vq)[unat used_id := ucast (ucast (of_nat (p mod N) :: u64) :: u16)]\<rparr>)
      else Some vq) = Some (release_desc N R p vq)"
    using same sw(1) b len i N(1) u unfolding i2
    by (cases "p = R") (simp_all add: Let_def not_le, simp_all add: release_desc_def)
  have "h_next_used_idx (release_desc N R p vq) = h_next_used_idx vq"
    "g_pending_inuse_counter (release_desc N R p vq) = g_pending_inuse_counter vq"
    "g_pending_used_counter (used_step (release_desc N R p vq)) = g_pending_used_counter vq"
    by (simp_all add: release_desc_def used_step_def upd_desc_def vring_packed_advance_used_def Let_def)
  then show "vring_packed_txq_release (ucast x) vq = Some ((used_step (release_desc N R p vq))
      \<lparr>g_pending_inuse_counter := g_pending_inuse_counter vq - 1,
       g_pending_used_counter := g_pending_used_counter vq + 1\<rparr>)"
    using ne b(1) len sel
    by (simp add: vring_packed_txq_release_def Let_def uu fl(1) advance_used_counter upd_desc_counter
        used_step_def)
qed

lemma release_desc_arrays:
  assumes "length (vdesc vq) = N" "0 < N"
  shows "vstate (release_desc N R p vq) = vstate vq"
    and "vd_flags (vdesc (release_desc N R p vq) ! k) = vd_flags (vdesc vq ! k)"
    and "vkey (release_desc N R p vq) k = vkey vq (if k = R mod N then p mod N else if k = p mod N then R mod N else k)"
    and "vd_id (vdesc (release_desc N R p vq) ! k)
      = vd_id (vdesc vq ! (if k = R mod N then p mod N else if k = p mod N then R mod N else k))"
proof -
  have lt: "R mod N < length (vdesc vq)" "p mod N < length (vdesc vq)" using assms by simp_all
  note d = dswap_simps [OF lt]
  show "vstate (release_desc N R p vq) = vstate vq"
    "vd_flags (vdesc (release_desc N R p vq) ! k) = vd_flags (vdesc vq ! k)"
    "vkey (release_desc N R p vq) k = vkey vq (if k = R mod N then p mod N else if k = p mod N then R mod N else k)"
    "vd_id (vdesc (release_desc N R p vq) ! k)
      = vd_id (vdesc vq ! (if k = R mod N then p mod N else if k = p mod N then R mod N else k))"
    by (simp_all add: release_desc_def d dswap_simps [OF lt(1) lt(1)] vkey_def Let_def)
qed

lemma acq_map_release:
  assumes acq: "acq_inv N U R H A vq" and p: "R \<le> p" "p < H" and q: "R < q" "q < H"
    and v: "v = release_desc N R p vq"
  shows "hv_map v ! unat (vd_id (vdesc v ! (q mod N))) = of_nat (q mod N) \<and>
    vd_flags (vdesc v ! (q mod N)) = guest_flags N q"
proof -
  have inv: "vq_inv N U R H A vq" and mp: "acq_map N R H (vdesc vq) (hv_map vq)"
    using acq by (simp_all add: acq_inv_def)
  have pos: "U \<le> R" "H \<le> A" "A \<le> U + N" and len: "length (hv_map vq) = N" "length (vdesc vq) = N" and N: "0 < N"
    using inv by (simp_all add: vq_inv_def vq_shape_def)
  note ar = release_desc_arrays [OF len(2) N, of R p, folded v]
  have m: "hv_map vq ! unat (vd_id (vdesc vq ! (r mod N))) = of_nat (r mod N)"
    "vd_flags (vdesc vq ! (r mod N)) = guest_flags N r" if "R \<le> r" "r < H" for r
    using mp that by (simp_all add: acq_map_def)
  have qR: "q mod N \<noteq> R mod N" and qp: "q mod N = p mod N \<longleftrightarrow> q = p"
    using mod_window_inj [of q N R U] mod_window_inj [of q N p U] pos p q by auto
  have idR: "unat (vd_id (vdesc vq ! (R mod N))) < N"
    using vq_id_bound(1) [OF inv, of R] pos p by simp
  have "hv_map v ! unat (vd_id (vdesc v ! (q mod N))) = of_nat (q mod N)"
  proof (cases "q = p")
    case True
    then have "vd_id (vdesc v ! (q mod N)) = vd_id (vdesc vq ! (R mod N))" using qR ar(4) [of "q mod N"] by simp
    moreover have "p \<noteq> R" using True q by simp
    ultimately show ?thesis using True idR len by (simp add: v release_desc_def)
  next
    case False
    then have e: "vd_id (vdesc v ! (q mod N)) = vd_id (vdesc vq ! (q mod N))"
      using qR qp ar(4) [of "q mod N"] by simp
    have "vd_id (vdesc vq ! (q mod N)) \<noteq> vd_id (vdesc vq ! (R mod N))"
      using pos_ids_distinct [OF inv, of q R] q pos by auto
    then have "unat (vd_id (vdesc vq ! (R mod N))) \<noteq> unat (vd_id (vdesc vq ! (q mod N)))"
      by (metis word_unat_eq_iff)
    then show ?thesis unfolding e using m(1) [of q] q by (simp add: v release_desc_def)
  qed
  then show ?thesis using ar(2) [of "q mod N"] m(2) [of q] q by simp
qed

text \<open>C34: the scheduler may release acquired buffers in any order.  Releasing one of
  them succeeds, appends exactly this buffer to the completed ones, keeps the contents
  of all others, and keeps the queue well formed, so that every other acquired buffer
  can still be released.\<close>

theorem vring_packed_txq_release_any:
  assumes "acq_inv N U R H A vq" "R \<le> p" "p < H"
  shows "\<exists>vq'. vring_packed_txq_release (ucast (vd_id (vdesc vq ! (p mod N)))) vq = Some vq' \<and>
    acq_inv N U (Suc R) H A vq' \<and> vcompleted N vq' = vcompleted N vq @ [vkey vq (p mod N)] \<and>
    (\<forall>q. R < q \<and> q < A \<longrightarrow> vkey vq' (q mod N) = vkey vq ((if q = p then R else q) mod N))"
proof -
  define v where "v = release_desc N R p vq"
  define vq' where "vq' = (used_step v)\<lparr>g_pending_inuse_counter := g_pending_inuse_counter vq - 1,
       g_pending_used_counter := g_pending_used_counter vq + 1\<rparr>"
  note rel = vring_packed_txq_release_eq [OF assms refl, folded v_def]
  have inv: "vq_inv N U R H A vq" and cnt: "unat (g_pending_inuse_counter vq) = H - R"
    using assms(1) by (simp_all add: acq_inv_def)
  have pos: "U \<le> R" "R < H" "H \<le> A" "A \<le> U + N" and len: "length (vdesc vq) = N" and N: "0 < N"
    using inv assms(2,3) by (simp_all add: vq_inv_def vq_shape_def)
  note us = used_step_arrays [OF rel(2)] and ar = release_desc_arrays [OF len N, of R p, folded v_def]
  have inv': "vq_inv N U (Suc R) H A vq'"
    using used_step_inv [OF rel(2) pos(2)] by (simp add: vq'_def vq_inv_def vq_cur_def vq_shape_def)
  have k: "vkey vq' i = vkey v i" for i
    using vkey_flags [OF us(1,2), of i] by (simp add: vq'_def vkey_def)
  have m: "R mod N \<noteq> q mod N" "q mod N = p mod N \<longleftrightarrow> q = p" if "U \<le> q" "q < A" "q \<noteq> R" for q
    using mod_window_inj [of R N q U] mod_window_inj [of q N p U] that pos assms(2,3) by auto
  have kq: "vkey vq' (q mod N) = vkey vq ((if q = p then R else q) mod N)" if "U \<le> q" "q < A" "q \<noteq> R" for q
    using m [OF that] by (simp add: k ar(3))
  have kR: "vkey vq' (R mod N) = vkey vq (p mod N)" by (simp add: k ar(3))
  have "hv_map vq' ! unat (vd_id (vdesc vq' ! (q mod N))) = of_nat (q mod N) \<and>
      vd_flags (vdesc vq' ! (q mod N)) = guest_flags N q" if "Suc R \<le> q" "q < H" for q
    using acq_map_release [OF assms, of q v] that m(1) [of q] pos us(1,3)
    by (simp add: v_def vq'_def)
  then have "acq_map N (Suc R) H (vdesc vq') (hv_map vq')" by (simp add: acq_map_def)
  moreover have "unat (g_pending_inuse_counter vq') = H - Suc R"
    using cnt pos(2) by (simp add: vq'_def unat_sub word_le_nat_alt)
  moreover have "vcompleted N vq' = vcompleted N vq @ [vkey vq (p mod N)]"
    unfolding vring_lists(1) [OF inv] vring_lists(1) [OF inv'] using kR kq pos assms(2) by auto
  moreover have "vring_packed_txq_release (ucast (vd_id (vdesc vq ! (p mod N)))) vq = Some vq'"
    using rel(1) by (simp add: vq'_def)
  ultimately show ?thesis using inv' kq pos by (intro exI [of _ vq']) (simp add: acq_inv_def)
qed

section \<open>Acquisition\<close>

lemma more_quiet_ooo:
  assumes "vq_inv N U R H A (vl_vq l)" "vl_guest l = []" "H < A"
  shows "vring_packed_more blocking l = Inr l"
  using assms vring_packed_more_avail_iff [OF assms(1)]
  by (simp add: vring_packed_more_def vring_guest_step_def)

text \<open>The state after one iteration that handed the buffer at position \<open>H\<close> to the
  scheduler.\<close>

definition acquired :: "nat \<Rightarrow> nat \<Rightarrow> vring_packed_virtq \<Rightarrow> vring_packed_virtq" where
  "acquired N H vq = vring_packed_advance_avail
     (vq\<lparr>hv_map := (hv_map vq)[unat (vd_id (vdesc vq ! (H mod N))) := of_nat (H mod N)],
         g_pending_inuse_counter := g_pending_inuse_counter vq + 1\<rparr>)"

lemma acquired_inv:
  assumes "vq_inv N U R H A vq" "H < A"
  shows "vq_inv N U R (Suc H) A (acquired N H vq)" "vdesc (acquired N H vq) = vdesc vq"
    "vkey (acquired N H vq) = vkey vq"
proof -
  have "vq_inv N U R H A (vq\<lparr>hv_map := (hv_map vq)[unat (vd_id (vdesc vq ! (H mod N))) := of_nat (H mod N)],
      g_pending_inuse_counter := g_pending_inuse_counter vq + 1\<rparr>)"
    using assms(1) by (simp add: vq_inv_def vq_cur_def vq_shape_def)
  from advance_avail_inv [OF this assms(2)]
  show "vq_inv N U R (Suc H) A (acquired N H vq)" by (simp add: acquired_def)
qed (simp_all add: acquired_def vkey_def [abs_def])

lemma acquired_acq_inv:
  assumes "acq_inv N U R H A vq" "H < A" "vd_flags (vdesc vq ! (H mod N)) = guest_flags N H"
  shows "acq_inv N U R (Suc H) A (acquired N H vq)"
proof -
  have inv: "vq_inv N U R H A vq" and mp: "acq_map N R H (vdesc vq) (hv_map vq)"
    and cnt: "unat (g_pending_inuse_counter vq) = H - R" using assms(1) by (simp_all add: acq_inv_def)
  have pos: "U \<le> R" "R \<le> H" "A \<le> U + N" and len: "length (hv_map vq) = N" and N: "N \<le> 2 ^ 15"
    using inv by (simp_all add: vq_inv_def vq_shape_def)
  have b: "unat (vd_id (vdesc vq ! (H mod N))) < N"
    using vq_id_bound(1) [OF inv, of H] pos assms(2) by simp
  have "hv_map (acquired N H vq) ! unat (vd_id (vdesc vq ! (p mod N))) = of_nat (p mod N)"
    if p: "R \<le> p" "p < Suc H" for p
  proof (cases "p = H")
    case True
    then show ?thesis using b len by (simp add: acquired_def)
  next
    case False
    then have "vd_id (vdesc vq ! (p mod N)) \<noteq> vd_id (vdesc vq ! (H mod N))"
      using pos_ids_distinct [OF inv, of p H] p pos assms(2) by auto
    then have "unat (vd_id (vdesc vq ! (H mod N))) \<noteq> unat (vd_id (vdesc vq ! (p mod N)))"
      by (metis word_unat_eq_iff)
    then show ?thesis using mp p False by (simp add: acquired_def acq_map_def)
  qed
  then have "acq_map N R (Suc H) (vdesc (acquired N H vq)) (hv_map (acquired N H vq))"
    using mp assms(3) by (auto simp: acq_map_def acquired_inv(2) [OF inv assms(2)] less_Suc_eq)
  moreover have "unat (g_pending_inuse_counter (acquired N H vq)) = Suc H - R"
    using cnt pos assms(2) N by (simp add: acquired_def unat_word_ariths)
  ultimately show ?thesis using acquired_inv(1) [OF inv assms(2)] by (simp add: acq_inv_def)
qed

text \<open>An iteration on a valid descriptor: the scheduler accepts the packet, or it drops it
  while nothing is in use.\<close>

lemma acquire_iter_quiet:
  assumes inv: "vq_inv N U R H A (vl_vq l)" "vl_guest l = []" "H < A" "vl_count l < 128"
    and d: "d = vdesc (vl_vq l) ! (H mod N)"
    and tr: "translate_addr (vl_be l) (vd_addr d) (ucast (vd_len d)) = (base, be)" "base \<noteq> 0"
    and e: "enq \<lparr>iov_base = base, iov_len = ucast (vd_len d)\<rparr> (vd_id d)
        (vring_mark mode hv_mark d \<lparr>iov_base = base, iov_len = ucast (vd_len d)\<rparr>) (vl_world l) = (ret, w)"
    and r: "ret \<le> 0 \<or> g_pending_inuse_counter (vl_vq l) = 0"
  shows "\<exists>l'. vring_packed_txq_acquire_iter mode hv_mark enq blocking l = Some (True, l') \<and>
    va_dropped l' = (if ret \<le> 0 then va_dropped l else Suc (va_dropped l)) \<and>
    vl_vq l' = (acquired N H (vl_vq l))\<lparr>g_avail_dropped := g_avail_dropped (vl_vq l) + (if ret \<le> 0 then 0 else 1)\<rparr> \<and>
    vl_world l' = w \<and> vl_guest l' = [] \<and> vl_count l' = Suc (vl_count l) \<and> vl_be l' = be"
proof -
  have i: "unat (h_next_avail_idx (vl_vq l)) = H mod N" and len: "length (hv_map (vl_vq l)) = N"
    and pos: "U \<le> H"
    using inv(1) by (simp_all add: vq_inv_def vq_shape_def vq_cur_def vcur_def)
  have ui: "(ucast (h_next_avail_idx (vl_vq l)) :: u64) = of_nat (H mod N)"
    using i by (metis of_nat_unat ucast_eq unsigned_of_nat unsigned_ucast_eq word_unat_eq_iff unat_ucast_up)
  have b: "unat (vd_id d) < N" using vq_id_bound(1) [OF inv(1), of H] pos inv(3) d by simp
  have m: "vring_packed_more blocking l = Inr l" by (rule more_quiet_ooo [OF inv(1-3)])
  define vq where "vq = (vl_vq l)\<lparr>hv_map := (hv_map (vl_vq l))[unat (vd_id d) := of_nat (H mod N)]\<rparr>"
  define k where "k = g_avail_dropped (vl_vq l) + (if ret \<le> 0 then 0 else 1)"
  define l1 where "l1 = (if ret \<le> 0 then l\<lparr>vl_be := be, vl_vq := vq, vl_world := w\<rparr>
    else l\<lparr>vl_be := be, vl_vq := vq\<lparr>g_avail_dropped := k\<rparr>, vl_world := w, va_dropped := Suc (va_dropped l)\<rparr>)"
  have one: "vring_acquire_one mode hv_mark enq base (l\<lparr>vl_be := be\<rparr>) = Some l1"
    using b len e r by (cases "ret \<le> 0")
      (simp_all add: vring_acquire_one_def i ui l1_def vq_def k_def d [symmetric] vring_packed_txq_release_def)
  have adv: "vring_packed_advance_avail (v\<lparr>g_avail_dropped := x, g_pending_inuse_counter := c\<rparr>) =
      (vring_packed_advance_avail (v\<lparr>g_pending_inuse_counter := c\<rparr>))\<lparr>g_avail_dropped := x\<rparr>" for v x c
    by (cases v) (simp add: vring_packed_advance_avail_def Let_def)
  have res: "vring_packed_txq_acquire_iter mode hv_mark enq blocking l =
      Some (True, vring_done (\<lambda>vq. vring_packed_advance_avail
        (vq\<lparr>g_pending_inuse_counter := g_pending_inuse_counter vq + 1\<rparr>)) l1)"
    using inv(4) tr one by (simp add: vring_packed_txq_acquire_iter_def m i d [symmetric] BPFHV_BE_TX_BUDGET_def)
  have same: "vring_packed_advance_avail v =
      (vring_packed_advance_avail v)\<lparr>g_avail_dropped := g_avail_dropped v\<rparr>" for v
    by (cases v) (simp add: vring_packed_advance_avail_def Let_def)
  show ?thesis unfolding res using inv(2)
    by (cases "ret \<le> 0") (simp_all add: l1_def vring_done_def acquired_def vq_def k_def adv d [symmetric]
      same [symmetric, of "vl_vq l\<lparr>hv_map := x, g_pending_inuse_counter := c\<rparr>" for x c, simplified])
qed

text \<open>C38: a packet that the scheduler drops while no buffer is in use is lost to the
  guest: the host moves past its descriptor and counts it as in use, but the release
  that should complete it returned without effect, since the buffer was not counted
  yet.  Nothing is completed, and the buffer stays pending.\<close>

theorem vring_acquire_drop_lost:
  assumes "vq_inv N U R R A (vl_vq l)" "R < A" "vl_guest l = []" "vl_count l < 128"
    and "g_pending_inuse_counter (vl_vq l) = 0"
    and "d = vdesc (vl_vq l) ! (R mod N)"
    and "translate_addr (vl_be l) (vd_addr d) (ucast (vd_len d)) = (base, be)" "base \<noteq> 0"
    and drop: "\<And>iov id m w. 0 < fst (enq iov id m w)"
  shows "\<exists>l'. vring_packed_txq_acquire_iter mode hv_mark enq blocking l = Some (True, l') \<and>
    va_dropped l' = Suc (va_dropped l) \<and> vq_inv N U R (Suc R) A (vl_vq l') \<and>
    g_pending_inuse_counter (vl_vq l') = 1 \<and>
    vcompleted N (vl_vq l') = vcompleted N (vl_vq l) \<and> vpending N (vl_vq l') = vpending N (vl_vq l)"
proof -
  let ?iov = "\<lparr>iov_base = base, iov_len = ucast (vd_len d)\<rparr>"
  obtain ret w where e: "enq ?iov (vd_id d) (vring_mark mode hv_mark d ?iov) (vl_world l) = (ret, w)"
    by fastforce
  then have r: "0 < ret" using drop by (metis fst_conv)
  obtain l' where l': "vring_packed_txq_acquire_iter mode hv_mark enq blocking l = Some (True, l')"
      "va_dropped l' = Suc (va_dropped l)"
      "vl_vq l' = (acquired N R (vl_vq l))\<lparr>g_avail_dropped := g_avail_dropped (vl_vq l) + 1\<rparr>"
    using acquire_iter_quiet [OF assms(1,3,2,4,6-8), of enq mode hv_mark ret w blocking] e assms(5) r by auto
  note a = acquired_inv [OF assms(1,2)]
  have inv: "vq_inv N U R (Suc R) A (vl_vq l')"
    using a(1) l'(3) by (simp add: vq_inv_def vq_cur_def vq_shape_def)
  have "vkey (vl_vq l') = vkey (vl_vq l)" using a(3) l'(3) by (simp add: vkey_def [abs_def])
  moreover have "g_pending_inuse_counter (vl_vq l') = 1"
    using assms(5) l'(3) by (simp add: acquired_def)
  ultimately show ?thesis using l' inv vring_lists(1,2) [OF inv] vring_lists(1,2) [OF assms(1)] by simp
qed

section \<open>A sample queue\<close>

text \<open>A ring of three descriptors whose first buffer is published and not acquired yet.\<close>

definition acq_vq :: vring_packed_virtq where
  "acq_vq = vring_packed_add (bufs (snd vtx_input) ! 0) 0 0 (vring_packed_init 3)"

definition acq_sample :: "unit acq_loop" where
  "acq_sample = \<lparr>vl_guest = [], vl_vq = acq_vq, vl_be = mem_sample, vl_world = (),
     vl_queue = queue_sample, vl_count = 0, vl_can = False, va_dropped = 0, va_out = None\<rparr>"

definition enq_drop :: "unit enq_fun" where "enq_drop iov i m w = (1, w)"

lemma acq_vq_fields:
  "vd_addr (vdesc acq_vq ! 0) = 0x1800" "vd_len (vdesc acq_vq ! 0) = 64" "vd_id (vdesc acq_vq ! 0) = 0"
  "vd_flags (vdesc acq_vq ! 0) = guest_flags 3 0" "g_pending_inuse_counter acq_vq = 0"
  unfolding acq_vq_def by code_simp+

lemma acq_vq_inv: "vq_inv 3 0 0 0 1 acq_vq"
  unfolding acq_vq_def using vring_packed_add_inv [OF vring_packed_init_inv [of 3]] by simp

lemma acq_vq_acquired: "acq_inv 3 0 0 1 1 (acquired 3 0 acq_vq)"
  using acquired_acq_inv [of 3 0 0 0 1 acq_vq] acq_vq_inv acq_vq_fields
  by (simp add: acq_inv_def acq_map_def)

text \<open>Witness of C34: the acquired buffer of the sample is released.\<close>

theorem vring_packed_txq_release_any_witness:
  "\<exists>vq'. vring_packed_txq_release 0 (acquired 3 0 acq_vq) = Some vq' \<and> acq_inv 3 0 1 1 1 vq'"
  using vring_packed_txq_release_any [OF acq_vq_acquired, of 0]
    acquired_inv(2) [OF acq_vq_inv] acq_vq_fields(3) by auto

text \<open>Witness of C38: the buffer of the sample is dropped and stays pending.\<close>

theorem vring_acquire_drop_lost_witness:
  "\<exists>l'. vring_packed_txq_acquire_iter MARK_MODE_NO_MARK (\<lambda>_. 0) enq_drop False acq_sample = Some (True, l') \<and>
    va_dropped l' = 1 \<and> vcompleted 3 (vl_vq l') = [] \<and> vpending 3 (vl_vq l') = [(7, 0x1800, 64)]"
proof -
  have k: "vkey acq_vq 0 = (7, 0x1800, 64)" unfolding acq_vq_def by code_simp
  have s: "vl_vq acq_sample = acq_vq" "vl_be acq_sample = mem_sample" "vl_count acq_sample = 0"
    "vl_guest acq_sample = []" "va_dropped acq_sample = 0"
    by (simp_all add: acq_sample_def)
  have "fst (translate_addr mem_sample 0x1800 64) \<noteq> 0"
    by (simp add: translate_addr_def mem_sample_def region_sample_def region_match_def upt_rec Let_def)
  then show ?thesis
    using vring_acquire_drop_lost [of 3 0 0 1 acq_sample "vdesc acq_vq ! 0" _ _ enq_drop
        MARK_MODE_NO_MARK "\<lambda>_. 0" False, OF _ _ _ _ _ _ surjective_pairing]
      acq_vq_inv acq_vq_fields k vring_lists(1,2) [OF acq_vq_inv]
    by (auto simp: s enq_drop_def)
qed

end
