(* ===== verification/Dn_Heap.thy ===== *)
theory Dn_Heap
  imports Prelude
begin

text \<open>
  The binary heap of the packet schedulers (\<open>sched16/dn_heap.c\<close>, \<open>sched16/dn_heap.h\<close>).
  Keys are 64-bit time stamps compared by the sign of their difference.  The array is a
  list of as many entries as were allocated; the number of entries in use is a field.

  A heap with a positive \<open>ofs\<close> stores the index of each entry inside the object it points
  to, so that an object can be extracted from the middle.  These fields are a function
  from objects to integers, threaded through the operations.  The allocator is an
  argument: it gives a block of the requested length with arbitrary contents, or fails.
\<close>

section \<open>Keys and entries\<close>

definition DN_KEY_LT :: "u64 \<Rightarrow> u64 \<Rightarrow> bool" where
  "DN_KEY_LT a b \<longleftrightarrow> sint (a - b) < 0"

definition DN_KEY_LEQ :: "u64 \<Rightarrow> u64 \<Rightarrow> bool" where
  "DN_KEY_LEQ a b \<longleftrightarrow> sint (a - b) \<le> 0"

record 'o dn_heap_entry =
  he_key :: u64
  he_object :: 'o

record 'o dn_heap =
  hp_size :: int
  hp_elements :: int
  hp_ofs :: int
  hp_p :: "'o dn_heap_entry list"

type_synonym 'o heap_malloc = "u32 \<Rightarrow> 'o dn_heap_entry list option"
type_synonym 'o positions = "'o \<Rightarrow> int"

definition HEAP_FATHER :: "nat \<Rightarrow> nat" where "HEAP_FATHER x = (x - 1) div 2"
definition HEAP_LEFT :: "nat \<Rightarrow> nat" where "HEAP_LEFT x = x + x + 1"
definition HEAP_SWAP :: "nat \<Rightarrow> nat \<Rightarrow> 'a list \<Rightarrow> 'a list" where
  "HEAP_SWAP a b p = p[a := p ! b, b := p ! a]"
definition HEAP_SCAN_DEL :: u32 where "HEAP_SCAN_DEL = 1"
definition HEAP_SCAN_END :: u32 where "HEAP_SCAN_END = 2"

section \<open>Allocation\<close>

text \<open>All bits below the highest one are set.\<close>

definition smear :: "u32 \<Rightarrow> u32" where
  "smear x =
    (let x = x OR drop_bit 1 x;
         x = x OR drop_bit 2 x;
         x = x OR drop_bit 4 x;
         x = x OR drop_bit 8 x
     in x OR drop_bit 16 x)"

text \<open>The first component is the C result: true on error.\<close>

definition heap_resize :: "'o heap_malloc \<Rightarrow> u32 \<Rightarrow> 'o dn_heap \<Rightarrow> bool \<times> 'o dn_heap" where
  "heap_resize malloc new_size h =
    (if new_size \<le> word_of_int (hp_size h) then (False, h)
     else let new_size = smear new_size in
       case malloc new_size of
         None \<Rightarrow> (True, h)
       | Some p \<Rightarrow>
           let p = (if hp_size h > 0 then take (nat (hp_size h)) (hp_p h) @ drop (nat (hp_size h)) p else p)
           in (False, h\<lparr>hp_p := p, hp_size := sint new_size\<rparr>))"

definition heap_init :: "'o heap_malloc \<Rightarrow> int \<Rightarrow> int \<Rightarrow> 'o dn_heap \<Rightarrow> bool \<times> 'o dn_heap" where
  "heap_init malloc sz ofs h =
    (case heap_resize malloc (word_of_int sz) h of
       (True, h) \<Rightarrow> (True, h)
     | (False, h) \<Rightarrow> (False, h\<lparr>hp_elements := 0, hp_ofs := ofs\<rparr>))"

definition heap_free :: "'o dn_heap \<Rightarrow> 'o dn_heap" where
  "heap_free h = \<lparr>hp_size = 0, hp_elements = 0, hp_ofs = 0, hp_p = []\<rparr>"

section \<open>Insertion\<close>

definition SET_OFFSET :: "int \<Rightarrow> nat \<Rightarrow> 'o dn_heap_entry list \<Rightarrow> 'o positions \<Rightarrow> 'o positions" where
  "SET_OFFSET ofs i p pos = (if ofs > 0 then pos(he_object (p ! i) := int i) else pos)"

definition RESET_OFFSET :: "int \<Rightarrow> nat \<Rightarrow> 'o dn_heap_entry list \<Rightarrow> 'o positions \<Rightarrow> 'o positions" where
  "RESET_OFFSET ofs i p pos = (if ofs > 0 then pos(he_object (p ! i) := -16) else pos)"

text \<open>The loop of \<open>heap_insert\<close>.\<close>

function heap_bubble :: "int \<Rightarrow> nat \<Rightarrow> 'o dn_heap_entry list \<Rightarrow> 'o positions
    \<Rightarrow> 'o dn_heap_entry list \<times> 'o positions" where
  "heap_bubble ofs son p pos =
    (if son > 0 \<and> \<not> DN_KEY_LT (he_key (p ! HEAP_FATHER son)) (he_key (p ! son))
     then let father = HEAP_FATHER son; p = HEAP_SWAP son father p
          in heap_bubble ofs father p (SET_OFFSET ofs son p pos)
     else (p, SET_OFFSET ofs son p pos))"
  by pat_completeness auto

termination heap_bubble
  by (relation "measure (\<lambda>(_, son, _, _). son)") (auto simp: HEAP_FATHER_def)

declare heap_bubble.simps [simp del]

text \<open>The object \<open>None\<close> is the null pointer: the entry is already there, and the key is
  its index.\<close>

definition heap_insert :: "'o heap_malloc \<Rightarrow> u64 \<Rightarrow> 'o option \<Rightarrow> 'o dn_heap \<Rightarrow> 'o positions
    \<Rightarrow> bool \<times> 'o dn_heap \<times> 'o positions" where
  "heap_insert malloc key1 obj h pos =
    (case obj of
       None \<Rightarrow>
         (case heap_bubble (hp_ofs h) (nat (sint (ucast key1 :: u32))) (hp_p h) pos of
            (p, pos) \<Rightarrow> (False, h\<lparr>hp_p := p\<rparr>, pos))
     | Some x \<Rightarrow>
         let son = nat (hp_elements h) in
         case (if hp_elements h = hp_size h
               then heap_resize malloc (word_of_int (hp_elements h + 16)) h else (False, h)) of
           (True, h) \<Rightarrow> (True, h, pos)
         | (False, h) \<Rightarrow>
             case heap_bubble (hp_ofs h) son ((hp_p h)[son := \<lparr>he_key = key1, he_object = x\<rparr>]) pos of
               (p, pos) \<Rightarrow> (False, h\<lparr>hp_p := p, hp_elements := hp_elements h + 1\<rparr>, pos))"

section \<open>Extraction\<close>

text \<open>The loop of \<open>heap_extract\<close> moves the hole \<open>father\<close> to the bottom level.\<close>

definition heap_child :: "nat \<Rightarrow> nat \<Rightarrow> 'o dn_heap_entry list \<Rightarrow> nat" where
  "heap_child father mx p =
    (let child = HEAP_LEFT father in
     if child \<noteq> mx \<and> DN_KEY_LT (he_key (p ! (child + 1))) (he_key (p ! child)) then child + 1 else child)"

function heap_hole :: "int \<Rightarrow> nat \<Rightarrow> nat \<Rightarrow> 'o dn_heap_entry list \<Rightarrow> 'o positions
    \<Rightarrow> nat \<times> 'o dn_heap_entry list \<times> 'o positions" where
  "heap_hole ofs mx father p pos =
    (if HEAP_LEFT father \<le> mx
     then let child = heap_child father mx p; p = p[father := p ! child]
          in heap_hole ofs mx child p (SET_OFFSET ofs father p pos)
     else (father, p, pos))"
  by pat_completeness auto

termination heap_hole
  by (relation "measure (\<lambda>(_, mx, father, _, _). Suc mx - father)")
    (auto simp: heap_child_def HEAP_LEFT_def Let_def)

declare heap_hole.simps [simp del]

text \<open>The value \<open>None\<close> is a panic.\<close>

definition heap_extract :: "'o option \<Rightarrow> 'o dn_heap \<Rightarrow> 'o positions \<Rightarrow> ('o dn_heap \<times> 'o positions) option" where
  "heap_extract obj h pos =
    (if hp_elements h - 1 < 0 then Some (h, pos)
     else let mx = nat (hp_elements h - 1) in do {
       father \<leftarrow> (case obj of
           None \<Rightarrow> Some 0
         | Some x \<Rightarrow> if hp_ofs h \<le> 0 \<or> pos x < 0 \<or> pos x \<ge> hp_elements h then None else Some (nat (pos x)));
       let pos = RESET_OFFSET (hp_ofs h) father (hp_p h) pos;
       let (father, p, pos) = heap_hole (hp_ofs h) mx father (hp_p h) pos;
       let h = h\<lparr>hp_p := p, hp_elements := hp_elements h - 1\<rparr>;
       if father \<noteq> mx then
         let h = h\<lparr>hp_p := (hp_p h)[father := hp_p h ! mx]\<rparr> in
         Some (snd (heap_insert (\<lambda>_. None) (of_nat father) None h pos))
       else Some (h, pos) })"

section \<open>Scans\<close>

definition heapify :: "'o dn_heap \<Rightarrow> 'o positions \<Rightarrow> 'o dn_heap \<times> 'o positions" where
  "heapify h pos = foldl (\<lambda>(h, pos) i. snd (heap_insert (\<lambda>_. None) (of_nat i) None h pos)) (h, pos)
     [0..<nat (hp_elements h)]"

text \<open>The callback has a state of its own.\<close>

function heap_scan_loop :: "('o \<Rightarrow> 's \<Rightarrow> u32 \<times> 's) \<Rightarrow> nat \<Rightarrow> nat \<Rightarrow> 'o dn_heap \<Rightarrow> 's
    \<Rightarrow> nat \<times> 'o dn_heap \<times> 's" where
  "heap_scan_loop fn i found h s =
    (if int i < hp_elements h then
       case fn (he_object (hp_p h ! i)) s of (ret, s) \<Rightarrow>
         let del = ret AND HEAP_SCAN_DEL \<noteq> 0;
             n = hp_elements h - 1;
             (h, found) = (if del then (h\<lparr>hp_elements := n, hp_p := (hp_p h)[i := hp_p h ! nat n]\<rparr>, found + 1)
                           else (h, found));
             i = (if del then i else i + 1)
         in if ret AND HEAP_SCAN_END \<noteq> 0 then (found, h, s) else heap_scan_loop fn i found h s
     else (found, h, s))"
  by pat_completeness auto

termination heap_scan_loop
  by (relation "measure (\<lambda>(_, i, _, h, _). nat (hp_elements h) - i)") auto

declare heap_scan_loop.simps [simp del]

definition heap_scan :: "('o \<Rightarrow> 's \<Rightarrow> u32 \<times> 's) \<Rightarrow> 'o dn_heap \<Rightarrow> 'o positions \<Rightarrow> 's
    \<Rightarrow> nat \<times> 'o dn_heap \<times> 'o positions \<times> 's" where
  "heap_scan fn h pos s =
    (case heap_scan_loop fn 0 0 h s of (found, h, s) \<Rightarrow>
       if found \<noteq> 0 then (case heapify h pos of (h, pos) \<Rightarrow> (found, h, pos, s))
       else (found, h, pos, s))"

end
