(* ===== verification/Dn_Heap_Contract.thy ===== *)
theory Dn_Heap_Contract
  imports Dn_Heap "HOL-Library.Multiset"
begin

text \<open>
  The heap is a priority queue.  Time stamps are compared by the sign of their
  difference, which is an order only for stamps less than half of the range apart; the
  lemmas assume that all of them lie within \<open>2 ^ 63\<close> above some base.
\<close>

section \<open>Keys in a window\<close>

definition koff :: "u64 \<Rightarrow> u64 \<Rightarrow> nat" where "koff base k = unat (k - base)"

lemma DN_KEY_window:
  assumes "koff base a < 2 ^ 63" "koff base b < 2 ^ 63"
  shows "DN_KEY_LT a b \<longleftrightarrow> koff base a < koff base b" "DN_KEY_LEQ a b \<longleftrightarrow> koff base a \<le> koff base b"
proof -
  define x y where "x = a - base" and "y = b - base"
  have small: "sint w = uint w" if "unat w < 2 ^ 63" for w :: u64
  proof -
    have "uint w < 2 ^ 63" using that by (metis nat_less_numeral_power_cancel_iff unat_eq_nat_uint)
    then show ?thesis by (simp add: sint_uint signed_take_bit_int_eq_self_iff order_trans [of _ 0])
  qed
  have xy: "uint x < 2 ^ 63" "uint y < 2 ^ 63"
    using assms unfolding koff_def x_def y_def
    by (metis nat_less_numeral_power_cancel_iff unat_eq_nat_uint)+
  have d: "a - b = x - y" by (simp add: x_def y_def)
  have "sint x = uint x" "sint y = uint y" using assms by (simp_all add: small koff_def x_def y_def)
  then have "sint (x - y) = signed_take_bit 63 (uint x - uint y)" by (simp add: sint_word_ariths)
  also have "\<dots> = uint x - uint y"
    by (rule signed_take_bit_int_eq_self) (use xy uint_ge_0 [of x] uint_ge_0 [of y] in linarith)+
  finally have s: "sint (a - b) = uint x - uint y" unfolding d .
  show "DN_KEY_LT a b \<longleftrightarrow> koff base a < koff base b"
    unfolding DN_KEY_LT_def s koff_def x_def [symmetric] y_def [symmetric]
    by (simp add: word_less_nat_alt [symmetric] word_less_def)
  show "DN_KEY_LEQ a b \<longleftrightarrow> koff base a \<le> koff base b"
    unfolding DN_KEY_LEQ_def s koff_def x_def [symmetric] y_def [symmetric]
    by (simp add: word_le_nat_alt [symmetric] word_le_def)
qed

abbreviation eoff :: "u64 \<Rightarrow> 'o dn_heap_entry \<Rightarrow> nat" where "eoff base e \<equiv> koff base (he_key e)"

definition in_window :: "u64 \<Rightarrow> nat \<Rightarrow> 'o dn_heap_entry list \<Rightarrow> bool" where
  "in_window base n p \<longleftrightarrow> (\<forall>e \<in> set (take n p). eoff base e < 2 ^ 63)"

section \<open>Rounding of sizes\<close>

lemma smear_step:
  fixes x y :: u32
  assumes "\<And>n. bit y n \<longleftrightarrow> (\<exists>m < k. bit x (n + m))"
  shows "bit (y OR drop_bit k y) n \<longleftrightarrow> (\<exists>m < k + k. bit x (n + m))"
proof -
  have "(\<exists>m < k + k. bit x (n + m)) \<longleftrightarrow> (\<exists>m < k. bit x (n + m)) \<or> (\<exists>m < k. bit x (k + n + m))"
  proof
    assume "\<exists>m < k + k. bit x (n + m)"
    then obtain m where "m < k + k" "bit x (n + m)" by blast
    then show "(\<exists>m < k. bit x (n + m)) \<or> (\<exists>m < k. bit x (k + n + m))"
    proof (cases "m < k")
      case False
      then have "k + n + (m - k) = n + m" "m - k < k" using \<open>m < k + k\<close> by simp_all
      then show ?thesis using \<open>bit x (n + m)\<close> by metis
    qed blast
  next
    assume "(\<exists>m < k. bit x (n + m)) \<or> (\<exists>m < k. bit x (k + n + m))"
    then show "\<exists>m < k + k. bit x (n + m)"
    proof
      assume "\<exists>m < k. bit x (k + n + m)"
      then obtain m where "m < k" "bit x (k + n + m)" by blast
      then show ?thesis by (intro exI [of _ "k + m"]) (simp add: algebra_simps)
    qed (meson trans_less_add1)
  qed
  then show ?thesis by (simp add: bit_or_iff bit_drop_bit_eq assms algebra_simps)
qed

lemma bit_smear: "bit (smear x) n \<longleftrightarrow> (\<exists>m < 32. bit x (n + m))"
proof -
  define y1 where "y1 = x OR drop_bit 1 x"
  define y2 where "y2 = y1 OR drop_bit 2 y1"
  define y3 where "y3 = y2 OR drop_bit 4 y2"
  define y4 where "y4 = y3 OR drop_bit 8 y3"
  have b1: "bit y1 n \<longleftrightarrow> (\<exists>m < 2. bit x (n + m))" for n
    using smear_step [of x 1 x n] by (simp add: y1_def numeral_2_eq_2)
  have b2: "bit y2 n \<longleftrightarrow> (\<exists>m < 4. bit x (n + m))" for n
    using smear_step [of y1 2 x n, OF b1] by (simp add: y2_def)
  have b3: "bit y3 n \<longleftrightarrow> (\<exists>m < 8. bit x (n + m))" for n
    using smear_step [of y2 4 x n, OF b2] by (simp add: y3_def)
  have b4: "bit y4 n \<longleftrightarrow> (\<exists>m < 16. bit x (n + m))" for n
    using smear_step [of y3 8 x n, OF b3] by (simp add: y4_def)
  have "smear x = y4 OR drop_bit 16 y4"
    by (simp add: smear_def y1_def y2_def y3_def y4_def Let_def)
  then show ?thesis using smear_step [of y4 16 x n, OF b4] by simp
qed

text \<open>The size is rounded up to a power of two minus one.\<close>

lemma smear_bounds:
  assumes "x \<noteq> 0"
  obtains k where "k < 32" "smear x = mask (Suc k)" "2 ^ k \<le> unat x" "unat x < 2 ^ Suc k"
proof -
  define k where "k = Max {m. bit x m}"
  have fin: "finite {m. bit x m}"
    by (rule finite_subset [of _ "{..<32}"]) (auto dest: bit_imp_le_length)
  have ne: "{m. bit x m} \<noteq> {}" using assms by (metis bit_eq_iff bit_0_eq bot_fun_def Collect_empty_eq bot_bool_def)
  have bk: "bit x k" using Max_in [OF fin ne] by (simp add: k_def)
  have top: "m \<le> k" if "bit x m" for m using Max_ge [OF fin, of m] that by (simp add: k_def)
  have k: "k < 32" using bk bit_imp_le_length by fastforce
  have "bit (smear x) n \<longleftrightarrow> bit (mask (Suc k) :: u32) n" if "n < 32" for n
    using bk top k that le_add_diff_inverse [of n k] unfolding bit_smear bit_mask_iff
    by (auto intro!: exI [of _ "k - n"]) (metis add_leD1 less_Suc_eq_le)
  then have m: "smear x = mask (Suc k)" by (intro bit_word_eqI) simp
  have tk: "take_bit (Suc k) x = x" using top k
    by (intro bit_word_eqI) (auto simp: bit_take_bit_iff less_Suc_eq_le)
  then have "unat x = take_bit (Suc k) (unat x)" by (metis unsigned_take_bit_eq)
  then have up: "unat x < 2 ^ Suc k" by (metis take_bit_nat_less_exp)
  have "bit (unat x) k" using bk k by (simp add: bit_unsigned_iff)
  then have lo: "2 ^ k \<le> unat x" by (metis bit_nat_def div_less even_zero not_le_imp_less bit_iff_odd)
  show ?thesis by (rule that [OF k m lo up])
qed

section \<open>The tree in the array\<close>

lemma HEAP_FATHER_iff:
  "0 < i \<Longrightarrow> HEAP_FATHER i = j \<longleftrightarrow> i = HEAP_LEFT j \<or> i = Suc (HEAP_LEFT j)"
  unfolding HEAP_FATHER_def HEAP_LEFT_def by presburger

lemma HEAP_FATHER_less: "0 < i \<Longrightarrow> HEAP_FATHER i < i"
  by (auto simp: HEAP_FATHER_def)

lemma HEAP_FATHER_LEFT [simp]: "HEAP_FATHER (HEAP_LEFT j) = j" "HEAP_FATHER (Suc (HEAP_LEFT j)) = j"
  by (simp_all add: HEAP_FATHER_def HEAP_LEFT_def)

lemma HEAP_LEFT_greater [simp]: "i < HEAP_LEFT i" "i \<noteq> HEAP_LEFT i" "HEAP_LEFT i \<noteq> i"
  by (simp_all add: HEAP_LEFT_def)

text \<open>The order holds on all edges that do not end in \<open>j\<close>.\<close>

definition ord_but :: "u64 \<Rightarrow> nat \<Rightarrow> nat \<Rightarrow> 'o dn_heap_entry list \<Rightarrow> bool" where
  "ord_but base n j p \<longleftrightarrow> (\<forall>i. 0 < i \<and> i < n \<and> i \<noteq> j \<longrightarrow> eoff base (p ! HEAP_FATHER i) \<le> eoff base (p ! i))"

definition heap_ord :: "u64 \<Rightarrow> nat \<Rightarrow> 'o dn_heap_entry list \<Rightarrow> bool" where
  "heap_ord base n p \<longleftrightarrow> (\<forall>i. 0 < i \<and> i < n \<longrightarrow> eoff base (p ! HEAP_FATHER i) \<le> eoff base (p ! i))"

text \<open>Below \<open>j\<close> nothing is smaller than the father of \<open>j\<close>.\<close>

definition above :: "u64 \<Rightarrow> nat \<Rightarrow> nat \<Rightarrow> 'o dn_heap_entry list \<Rightarrow> bool" where
  "above base n j p \<longleftrightarrow> (\<forall>i. 0 < j \<and> 0 < i \<and> i < n \<and> HEAP_FATHER i = j \<longrightarrow>
     eoff base (p ! HEAP_FATHER j) \<le> eoff base (p ! i))"

lemma heap_ord_above: "heap_ord base n p \<Longrightarrow> j < n \<Longrightarrow> above base n j p"
  unfolding heap_ord_def above_def by (metis order_trans)

lemma heap_ord_but: "heap_ord base n p \<Longrightarrow> ord_but base n j p"
  by (auto simp: heap_ord_def ord_but_def)

lemma heap_ord_Suc: "heap_ord base n p \<Longrightarrow> ord_but base (Suc n) n p \<and> above base (Suc n) n p"
  by (auto simp: heap_ord_def ord_but_def above_def less_Suc_eq dest: HEAP_FATHER_less)

lemma heap_top_min:
  assumes "heap_ord base n p" "i < n"
  shows "eoff base (p ! 0) \<le> eoff base (p ! i)"
  using assms(2)
proof (induction i rule: less_induct)
  case (less i)
  show ?case
  proof (cases "i = 0")
    case False
    then have f: "HEAP_FATHER i < i" by (simp add: HEAP_FATHER_less)
    then have "eoff base (p ! 0) \<le> eoff base (p ! HEAP_FATHER i)" using less by simp
    also have "\<dots> \<le> eoff base (p ! i)" using assms(1) less.prems False by (simp add: heap_ord_def)
    finally show ?thesis .
  qed simp
qed

lemma in_window_nth: "in_window base n p \<Longrightarrow> n \<le> length p \<Longrightarrow> i < n \<Longrightarrow> eoff base (p ! i) < 2 ^ 63"
  unfolding in_window_def by (metis length_take min.absorb2 nth_mem nth_take)

lemma set_take_mset: "mset (take n p) = mset (take n q) \<Longrightarrow> set (take n p) = set (take n q)"
  by (metis set_mset_mset)

section \<open>Moving up\<close>

lemma HEAP_SWAP_simps:
  assumes "a < n" "b < n" "n \<le> length p"
  shows "length (HEAP_SWAP a b p) = length p"
    and "i < length p \<Longrightarrow> HEAP_SWAP a b p ! i = p ! (if i = a then b else if i = b then a else i)"
    and "mset (take n (HEAP_SWAP a b p)) = mset (take n p)"
    and "drop n (HEAP_SWAP a b p) = drop n p"
  using assms mset_swap [of b "take n p" a]
  by (auto simp: HEAP_SWAP_def nth_list_update take_update_swap)


text \<open>A swap with a father that is not smaller moves the defect up.\<close>

lemma swap_up:
  assumes "ord_but base n son p" "above base n son p" "0 < son" "son < n" "n \<le> length p"
    and "eoff base (p ! son) \<le> eoff base (p ! HEAP_FATHER son)"
  shows "ord_but base n (HEAP_FATHER son) (HEAP_SWAP son (HEAP_FATHER son) p)"
    and "above base n (HEAP_FATHER son) (HEAP_SWAP son (HEAP_FATHER son) p)"
proof -
  let ?f = "HEAP_FATHER son"
  have f: "?f < son" using assms(3) by (rule HEAP_FATHER_less)
  have nth: "HEAP_SWAP son ?f p ! i = p ! (if i = son then ?f else if i = ?f then son else i)" if "i < n" for i
    using HEAP_SWAP_simps(2) [of son n ?f p i] that assms(4,5) f by simp
  have less: "HEAP_FATHER i < n" if "0 < i" "i < n" for i using HEAP_FATHER_less [OF that(1)] that(2) by simp
  have edge: "eoff base (p ! HEAP_FATHER i) \<le> eoff base (p ! i)" if "0 < i" "i < n" "i \<noteq> son" for i
    using assms(1) that by (simp add: ord_but_def)
  have below: "eoff base (p ! ?f) \<le> eoff base (p ! i)" if "0 < i" "i < n" "HEAP_FATHER i = son" for i
    using assms(2,3) that by (simp add: above_def)
  show "ord_but base n ?f (HEAP_SWAP son ?f p)"
    unfolding ord_but_def
  proof (intro allI impI)
    fix i assume i: "0 < i \<and> i < n \<and> i \<noteq> ?f"
    then have fi: "HEAP_FATHER i < i" by (simp add: HEAP_FATHER_less)
    consider "i = son" | "i \<noteq> son" "HEAP_FATHER i = son" | "i \<noteq> son" "HEAP_FATHER i = ?f"
      | "i \<noteq> son" "HEAP_FATHER i \<noteq> son" "HEAP_FATHER i \<noteq> ?f" by blast
    then show "eoff base (HEAP_SWAP son ?f p ! HEAP_FATHER i) \<le> eoff base (HEAP_SWAP son ?f p ! i)"
      using i f fi assms(6) edge [of i] below [of i] by cases (auto simp: nth less)
  qed
  show "above base n ?f (HEAP_SWAP son ?f p)"
    unfolding above_def
  proof (intro allI impI)
    fix i assume i: "0 < ?f \<and> 0 < i \<and> i < n \<and> HEAP_FATHER i = ?f"
    have ff: "HEAP_FATHER ?f < ?f" using i by (simp add: HEAP_FATHER_less)
    have "eoff base (p ! HEAP_FATHER ?f) \<le> eoff base (p ! ?f)" using edge [of ?f] i f assms(4) by simp
    then show "eoff base (HEAP_SWAP son ?f p ! HEAP_FATHER ?f) \<le> eoff base (HEAP_SWAP son ?f p ! i)"
      using i f ff assms(4) edge [of i] HEAP_FATHER_less [of i] by (cases "i = son") (auto simp: nth)
  qed
qed

lemma ord_but_ord:
  assumes "ord_but base n son p" "son = 0 \<or> eoff base (p ! HEAP_FATHER son) \<le> eoff base (p ! son)"
  shows "heap_ord base n p"
  using assms by (auto simp: ord_but_def heap_ord_def)

lemma heap_bubble_ord:
  assumes "heap_bubble ofs son p pos = (p', pos')" "son < n" "n \<le> length p" "in_window base n p"
    and "ord_but base n son p" "above base n son p"
  shows "heap_ord base n p' \<and> mset (take n p') = mset (take n p) \<and> drop n p' = drop n p \<and> length p' = length p"
  using assms
proof (induction ofs son p pos rule: heap_bubble.induct)
  case (1 ofs son p pos)
  let ?f = "HEAP_FATHER son"
  show ?case
  proof (cases "son > 0 \<and> \<not> DN_KEY_LT (he_key (p ! ?f)) (he_key (p ! son))")
    case True
    have f: "?f < n" using HEAP_FATHER_less [of son] True "1.prems"(2) by simp
    note sw = HEAP_SWAP_simps [OF "1.prems"(2) f "1.prems"(3)]
    have le: "eoff base (p ! son) \<le> eoff base (p ! ?f)"
      using True DN_KEY_window(1) [of base "he_key (p ! ?f)" "he_key (p ! son)"]
        in_window_nth [OF "1.prems"(4,3)] f "1.prems"(2) by auto
    have "in_window base n (HEAP_SWAP son ?f p)"
      using "1.prems"(4) set_take_mset [OF sw(3)] by (simp add: in_window_def)
    moreover have "heap_bubble ofs ?f (HEAP_SWAP son ?f p) (SET_OFFSET ofs son (HEAP_SWAP son ?f p) pos) = (p', pos')"
      using "1.prems"(1) True by (simp add: heap_bubble.simps [of ofs son p pos] Let_def)
    ultimately show ?thesis
      using "1.IH" [OF True refl refl] f sw "1.prems"(3) True
        swap_up [OF "1.prems"(5,6) _ "1.prems"(2,3) le] by simp
  next
    case False
    have "son = 0 \<or> eoff base (p ! ?f) \<le> eoff base (p ! son)"
      using False DN_KEY_window(1) [of base "he_key (p ! ?f)" "he_key (p ! son)"]
        in_window_nth [OF "1.prems"(4,3)] HEAP_FATHER_less [of son] "1.prems"(2) by fastforce
    moreover have "p' = p" using "1.prems"(1) False by (auto simp: heap_bubble.simps [of ofs son p pos])
    ultimately show ?thesis using ord_but_ord [OF "1.prems"(5)] by simp
  qed
qed


text \<open>The objects other than the one at \<open>j\<close> know their index.\<close>

definition pos_but :: "nat \<Rightarrow> nat \<Rightarrow> 'o dn_heap_entry list \<Rightarrow> 'o positions \<Rightarrow> bool" where
  "pos_but n j p pos \<longleftrightarrow> (\<forall>i < n. i \<noteq> j \<longrightarrow> pos (he_object (p ! i)) = int i)"

definition pos_all :: "nat \<Rightarrow> 'o dn_heap_entry list \<Rightarrow> 'o positions \<Rightarrow> bool" where
  "pos_all n p pos \<longleftrightarrow> (\<forall>i < n. pos (he_object (p ! i)) = int i)"

definition single :: "nat \<Rightarrow> nat \<Rightarrow> 'o dn_heap_entry list \<Rightarrow> bool" where
  "single n j p \<longleftrightarrow> (\<forall>i < n. i \<noteq> j \<longrightarrow> he_object (p ! i) \<noteq> he_object (p ! j))"

lemma pos_all_but: "pos_all n p pos \<Longrightarrow> pos_but n j p pos"
  by (simp add: pos_all_def pos_but_def)

lemma pos_all_single: "pos_all n p pos \<Longrightarrow> j < n \<Longrightarrow> single n j p"
  unfolding pos_all_def single_def by (metis of_nat_eq_iff)

lemma swap_pos:
  assumes "pos_but n son p pos" "single n son p" "son < n" "f < son" "n \<le> length p"
  shows "pos_but n f (HEAP_SWAP son f p) (pos(he_object (HEAP_SWAP son f p ! son) := int son))"
    and "single n f (HEAP_SWAP son f p)"
proof -
  have nth: "HEAP_SWAP son f p ! i = p ! (if i = son then f else if i = f then son else i)" if "i < n" for i
    using HEAP_SWAP_simps(2) [of son n f p i] that assms(3-5) by simp
  have "he_object (p ! i) \<noteq> he_object (p ! f)" if "i < n" "i \<noteq> son" "i \<noteq> f" for i
    using assms(1,3,4) that unfolding pos_but_def by (metis less_trans nat_neq_iff of_nat_eq_iff)
  then show "pos_but n f (HEAP_SWAP son f p) (pos(he_object (HEAP_SWAP son f p ! son) := int son))"
    using assms(1,3,4) by (auto simp: pos_but_def nth)
  show "single n f (HEAP_SWAP son f p)"
    using assms(2-4) by (auto simp: single_def nth)
qed

lemma heap_bubble_pos:
  assumes "heap_bubble ofs son p pos = (p', pos')" "0 < ofs" "son < n" "n \<le> length p"
    and "pos_but n son p pos" "single n son p"
  shows "pos_all n p' pos' \<and> (\<forall>x. x \<notin> he_object ` set (take n p) \<longrightarrow> pos' x = pos x)"
  using assms
proof (induction ofs son p pos rule: heap_bubble.induct)
  case (1 ofs son p pos)
  let ?f = "HEAP_FATHER son"
  have here: "he_object (p ! i) \<in> he_object ` set (take n p)" if "i < n" for i
    using that "1.prems"(4) by (metis image_eqI length_take min.absorb2 nth_mem nth_take)
  show ?case
  proof (cases "son > 0 \<and> \<not> DN_KEY_LT (he_key (p ! ?f)) (he_key (p ! son))")
    case True
    have f: "?f < son" using HEAP_FATHER_less [of son] True by simp
    let ?p = "HEAP_SWAP son ?f p"
    have fn: "?f < n" using f "1.prems"(3) by simp
    note sw = HEAP_SWAP_simps [OF "1.prems"(3) fn "1.prems"(4)]
    have s: "set (take n ?p) = set (take n p)" by (rule set_take_mset [OF sw(3)])
    have "heap_bubble ofs ?f ?p (SET_OFFSET ofs son ?p pos) = (p', pos')"
      using "1.prems"(1) True by (simp add: heap_bubble.simps [of ofs son p pos] Let_def)
    from "1.IH" [OF True refl refl this "1.prems"(2) fn]
    have "pos_all n p' pos' \<and> (\<forall>x. x \<notin> he_object ` set (take n p) \<longrightarrow> pos' x = SET_OFFSET ofs son ?p pos x)"
      using swap_pos [OF "1.prems"(5,6,3) f "1.prems"(4)] "1.prems"(2,4) sw(1) s
      by (simp add: SET_OFFSET_def del: fun_upd_apply)
    moreover have "he_object (?p ! son) = he_object (p ! ?f)"
      using sw(2) [of son] "1.prems"(3,4) by simp
    ultimately show ?thesis using here [OF fn] "1.prems"(2) by (auto simp: SET_OFFSET_def)
  next
    case False
    then have "p' = p" "pos' = pos(he_object (p ! son) := int son)"
      using "1.prems"(1,2) by (auto simp: heap_bubble.simps [of ofs son p pos] SET_OFFSET_def)
    then show ?thesis
      using "1.prems"(5,6) here [OF "1.prems"(3)] by (auto simp: pos_all_def pos_but_def single_def)
  qed
qed


section \<open>Moving a hole down\<close>

definition hole_ord :: "u64 \<Rightarrow> nat \<Rightarrow> nat \<Rightarrow> 'o dn_heap_entry list \<Rightarrow> bool" where
  "hole_ord base n f p \<longleftrightarrow> (\<forall>i. 0 < i \<and> i < n \<and> i \<noteq> f \<and> HEAP_FATHER i \<noteq> f \<longrightarrow>
     eoff base (p ! HEAP_FATHER i) \<le> eoff base (p ! i))"

lemma heap_child_cases:
  assumes "HEAP_LEFT f \<le> mx" "Suc mx \<le> length p" "in_window base (Suc mx) p"
  shows "HEAP_FATHER (heap_child f mx p) = f" "f < heap_child f mx p" "heap_child f mx p \<le> mx"
    and "0 < i \<Longrightarrow> i \<le> mx \<Longrightarrow> HEAP_FATHER i = f \<Longrightarrow> eoff base (p ! heap_child f mx p) \<le> eoff base (p ! i)"
proof -
  let ?c = "HEAP_LEFT f"
  have w: "eoff base (p ! i) < 2 ^ 63" if "i \<le> mx" for i
    using in_window_nth [OF assms(3,2)] that by simp
  have lt: "DN_KEY_LT (he_key (p ! Suc ?c)) (he_key (p ! ?c)) \<longleftrightarrow> eoff base (p ! Suc ?c) < eoff base (p ! ?c)"
    if "Suc ?c \<le> mx" using DN_KEY_window(1) w that by simp
  show "HEAP_FATHER (heap_child f mx p) = f" "f < heap_child f mx p" "heap_child f mx p \<le> mx"
    using assms(1) by (auto simp: heap_child_def Let_def less_SucI)
  show "eoff base (p ! heap_child f mx p) \<le> eoff base (p ! i)" if "0 < i" "i \<le> mx" "HEAP_FATHER i = f"
    using that assms(1) lt by (auto simp: heap_child_def Let_def HEAP_FATHER_iff)
qed

lemma hole_down:
  assumes "hole_ord base n f p" "above base n f p" "f < c" "c < n" "HEAP_FATHER c = f" "n \<le> length p"
    and "\<And>i. 0 < i \<Longrightarrow> i < n \<Longrightarrow> HEAP_FATHER i = f \<Longrightarrow> eoff base (p ! c) \<le> eoff base (p ! i)"
  shows "hole_ord base n c (p[f := p ! c])" "above base n c (p[f := p ! c])"
proof -
  have nth: "p[f := p ! c] ! i = (if i = f then p ! c else p ! i)" if "i < n" for i
    using that assms(3,4,6) by (simp add: nth_list_update)
  have less: "HEAP_FATHER i < n" if "0 < i" "i < n" for i using HEAP_FATHER_less [OF that(1)] that(2) by simp
  have up: "eoff base (p ! HEAP_FATHER f) \<le> eoff base (p ! c)" if "0 < f"
    using assms(2-5) that by (simp add: above_def)
  show "hole_ord base n c (p[f := p ! c])"
    unfolding hole_ord_def
  proof (intro allI impI)
    fix i assume i: "0 < i \<and> i < n \<and> i \<noteq> c \<and> HEAP_FATHER i \<noteq> c"
    then have "eoff base (p ! HEAP_FATHER i) \<le> eoff base (p ! i)" if "i \<noteq> f" "HEAP_FATHER i \<noteq> f"
      using assms(1) that by (simp add: hole_ord_def)
    then show "eoff base (p[f := p ! c] ! HEAP_FATHER i) \<le> eoff base (p[f := p ! c] ! i)"
      using i up assms(7) [of i] HEAP_FATHER_less [of i] by (auto simp: nth less)
  qed
  show "above base n c (p[f := p ! c])"
    unfolding above_def
  proof (intro allI impI)
    fix i assume i: "0 < c \<and> 0 < i \<and> i < n \<and> HEAP_FATHER i = c"
    then have "i \<noteq> f" "HEAP_FATHER i \<noteq> f" using assms(3) HEAP_FATHER_less [of i] by auto
    then show "eoff base (p[f := p ! c] ! HEAP_FATHER c) \<le> eoff base (p[f := p ! c] ! i)"
      using i assms(3-5) assms(1) [unfolded hole_ord_def, rule_format, of i] by (auto simp: nth)
  qed
qed

text \<open>Whatever is put into the hole, the entries are the same.\<close>

lemma mset_move_hole:
  assumes "f < n" "c < n" "f \<noteq> c" "n \<le> length p"
  shows "mset (take n (p[f := p ! c, c := x])) = mset (take n (p[f := x]))"
proof -
  let ?q = "take n (p[f := x])"
  have l: "f < length ?q" "c < length ?q" using assms by simp_all
  have "mset (?q[f := ?q ! c, c := ?q ! f]) = mset ?q"
    using mset_swap [OF l(2,1)] by simp
  then show ?thesis using assms by (simp add: take_update_swap list_update_swap)
qed


definition hole_inv :: "u64 \<Rightarrow> nat \<Rightarrow> nat \<Rightarrow> 'o dn_heap_entry list \<Rightarrow> bool" where
  "hole_inv base mx f p \<longleftrightarrow> f \<le> mx \<and> mx < length p \<and> in_window base (Suc mx) p \<and>
     hole_ord base (Suc mx) f p \<and> above base (Suc mx) f p"

lemma hole_inv_step:
  assumes "hole_inv base mx f p" "HEAP_LEFT f \<le> mx"
  shows "hole_inv base mx (heap_child f mx p) (p[f := p ! heap_child f mx p])"
proof -
  let ?c = "heap_child f mx p"
  have p: "f \<le> mx" "mx < length p" "in_window base (Suc mx) p" "hole_ord base (Suc mx) f p"
    "above base (Suc mx) f p" using assms(1) by (simp_all add: hole_inv_def)
  note c = heap_child_cases [OF assms(2) _ p(3)]
  have cc: "f < ?c" "?c \<le> mx" "HEAP_FATHER ?c = f" using c(1-3) p(2) by simp_all
  have "hole_ord base (Suc mx) ?c (p[f := p ! ?c]) \<and> above base (Suc mx) ?c (p[f := p ! ?c])"
    using hole_down [OF p(4,5) cc(1) _ cc(3)] c(4) cc(2) p(2) by simp
  moreover have "set (take (Suc mx) (p[f := p ! ?c])) \<subseteq> set (take (Suc mx) p)"
    using set_update_subset_insert [of "take (Suc mx) p" f "p ! ?c"] nth_mem [of ?c "take (Suc mx) p"] cc(2) p(2)
    by (auto simp: take_update_swap)
  ultimately show ?thesis using p cc by (auto simp: hole_inv_def in_window_def)
qed

lemma heap_hole_spec:
  assumes "heap_hole ofs mx f p pos = (f', p', pos')" "hole_inv base mx f p"
  shows "hole_inv base mx f' p' \<and> mx < HEAP_LEFT f' \<and> length p' = length p \<and>
    drop (Suc mx) p' = drop (Suc mx) p \<and> mset (take (Suc mx) (p'[f' := x])) = mset (take (Suc mx) (p[f := x]))"
  using assms
proof (induction ofs mx f p pos rule: heap_hole.induct)
  case (1 ofs mx f p pos)
  let ?c = "heap_child f mx p"
  show ?case
  proof (cases "HEAP_LEFT f \<le> mx")
    case True
    note st = hole_inv_step [OF "1.prems"(2) True]
    have len: "mx < length p" and w: "in_window base (Suc mx) p" and fm: "f \<le> mx"
      using "1.prems"(2) by (simp_all add: hole_inv_def)
    note c = heap_child_cases(2,3) [OF True Suc_leI [OF len] w]
    have "heap_hole ofs mx ?c (p[f := p ! ?c]) (SET_OFFSET ofs f (p[f := p ! ?c]) pos) = (f', p', pos')"
      using "1.prems"(1) True by (simp add: heap_hole.simps [of ofs mx f p pos] Let_def)
    from "1.IH" [OF True refl refl this st] show ?thesis
      using mset_move_hole [of f "Suc mx" ?c p x] c len fm by simp
  next
    case False
    then show ?thesis using "1.prems" by (simp add: heap_hole.simps [of ofs mx f p pos])
  qed
qed

lemma heap_hole_pos:
  assumes "heap_hole ofs mx f p pos = (f', p', pos')" "0 < ofs" "hole_inv base mx f p" "pos_but (Suc mx) f p pos"
  shows "pos_but (Suc mx) f' p' pos' \<and>
    (\<forall>x. x \<notin> (\<lambda>i. he_object (p ! i)) ` ({..mx} - {f}) \<longrightarrow> pos' x = pos x) \<and>
    (\<lambda>i. he_object (p' ! i)) ` ({..mx} - {f'}) = (\<lambda>i. he_object (p ! i)) ` ({..mx} - {f})"
  using assms
proof (induction ofs mx f p pos rule: heap_hole.induct)
  case (1 ofs mx f p pos)
  let ?c = "heap_child f mx p"
  let ?p = "p[f := p ! ?c]"
  show ?case
  proof (cases "HEAP_LEFT f \<le> mx")
    case True
    note st = hole_inv_step [OF "1.prems"(3) True]
    have len: "mx < length p" and w: "in_window base (Suc mx) p" and fm: "f \<le> mx"
      using "1.prems"(3) by (simp_all add: hole_inv_def)
    note c = heap_child_cases(2,3) [OF True Suc_leI [OF len] w]
    have s: "SET_OFFSET ofs f ?p pos = pos(he_object (p ! ?c) := int f)"
      using "1.prems"(2) len fm by (simp add: SET_OFFSET_def)
    have ne: "he_object (p ! i) \<noteq> he_object (p ! ?c)" if "i \<le> mx" "i \<noteq> f" "i \<noteq> ?c" for i
      using "1.prems"(4) that c unfolding pos_but_def by (metis le_imp_less_Suc nat_neq_iff of_nat_eq_iff)
    have pb: "pos_but (Suc mx) ?c ?p (SET_OFFSET ofs f ?p pos)"
      unfolding s using "1.prems"(4) ne c len by (auto simp: pos_but_def nth_list_update less_Suc_eq_le)
    have img: "(\<lambda>i. he_object (?p ! i)) ` ({..mx} - {?c}) = (\<lambda>i. he_object (p ! i)) ` ({..mx} - {f})"
    proof -
      have "{..mx} - {?c} = insert f ({..mx} - {f, ?c})" "{..mx} - {f} = insert ?c ({..mx} - {f, ?c})"
        using c fm by auto
      then show ?thesis using c fm len by simp
    qed
    have "heap_hole ofs mx ?c ?p (SET_OFFSET ofs f ?p pos) = (f', p', pos')"
      using "1.prems"(1) True by (simp add: heap_hole.simps [of ofs mx f p pos] Let_def)
    note ih = "1.IH" [OF True refl refl this "1.prems"(2) st pb]
    have "he_object (p ! ?c) \<in> (\<lambda>i. he_object (p ! i)) ` ({..mx} - {f})" using c by simp
    then have "pos' x = pos x" if "x \<notin> (\<lambda>i. he_object (p ! i)) ` ({..mx} - {f})" for x
      using ih that unfolding img s by (metis fun_upd_other)
    then show ?thesis using ih unfolding img by simp
  next
    case False
    then show ?thesis using "1.prems" by (simp add: heap_hole.simps [of ofs mx f p pos])
  qed
qed

end
