(* ===== verification/Dn_Heap_Queue.thy ===== *)
theory Dn_Heap_Queue
  imports Dn_Heap_Contract
begin

text \<open>
  The operations of the heap on its contents, a multiset of entries: insertion adds an
  entry, extraction removes the entry with the smallest key or a given object, a scan
  removes what the callback asks for.  A locale states the contract of a priority queue;
  that repeated extraction yields the entries in order is proved from it.
\<close>

section \<open>Invariant and contents\<close>

abbreviation heap_n :: "'o dn_heap \<Rightarrow> nat" where "heap_n h \<equiv> nat (hp_elements h)"

definition heap_shape :: "'o dn_heap \<Rightarrow> bool" where
  "heap_shape h \<longleftrightarrow> 0 \<le> hp_elements h \<and> hp_elements h \<le> hp_size h \<and> hp_size h = int (length (hp_p h)) \<and>
     hp_size h < 2 ^ 31"

definition heap_ok :: "u64 \<Rightarrow> 'o dn_heap \<Rightarrow> 'o positions \<Rightarrow> bool" where
  "heap_ok base h pos \<longleftrightarrow> heap_shape h \<and> in_window base (heap_n h) (hp_p h) \<and>
     heap_ord base (heap_n h) (hp_p h) \<and> (0 < hp_ofs h \<longrightarrow> pos_all (heap_n h) (hp_p h) pos)"

definition heap_contents :: "'o dn_heap \<Rightarrow> 'o dn_heap_entry multiset" where
  "heap_contents h = mset (take (heap_n h) (hp_p h))"

definition heap_objects :: "'o dn_heap \<Rightarrow> 'o set" where
  "heap_objects h = he_object ` set_mset (heap_contents h)"

text \<open>What the allocator promises.\<close>

definition malloc_spec :: "'o heap_malloc \<Rightarrow> bool" where
  "malloc_spec malloc \<longleftrightarrow> (\<forall>n p. malloc n = Some p \<longrightarrow> length p = unat n)"

lemma heap_shape_len: "heap_shape h \<Longrightarrow> heap_n h \<le> length (hp_p h)"
  by (auto simp: heap_shape_def)

lemma heap_objects_nth:
  "heap_shape h \<Longrightarrow> heap_objects h = (\<lambda>i. he_object (hp_p h ! i)) ` {..<heap_n h}"
  using heap_shape_len [of h]
  by (force simp: heap_objects_def heap_contents_def in_set_conv_nth)

lemma heap_contents_size: "heap_shape h \<Longrightarrow> size (heap_contents h) = heap_n h"
  using heap_shape_len [of h] by (simp add: heap_contents_def)

section \<open>Resizing\<close>

lemma smear_nat:
  assumes "0 < n" "n < 2 ^ 31"
  shows "n \<le> unat (smear (of_nat n))" "unat (smear (of_nat n)) < 2 ^ 31" "sint (smear (of_nat n)) = int (unat (smear (of_nat n)))"
proof -
  have u: "unat (of_nat n :: u32) = n" using assms(2) by (simp add: unat_of_nat)
  have "(of_nat n :: u32) \<noteq> 0" using u assms(1) by (metis gr_implies_not0 unat_0)
  then obtain k where k: "k < 32" "smear (of_nat n) = mask (Suc k)" "2 ^ k \<le> n" "n < 2 ^ Suc k"
    using smear_bounds u by metis
  have k31: "k < 31" using k(3) assms(2) by (metis le_less_trans nat_power_less_imp_less numeral_2_eq_2 zero_less_Suc)
  have m: "unat (smear (of_nat n)) = 2 ^ Suc k - 1"
  proof -
    have "mask (Suc k) < (2::nat) ^ 32"
      using k31 power_increasing [of "Suc k" 32 "2::nat"] by (simp add: mask_eq_exp_minus_1 less_le_trans)
    then have "unat (of_nat (mask (Suc k)) :: u32) = mask (Suc k)" by (simp add: unat_of_nat)
    then show ?thesis unfolding k(2) of_nat_mask_eq by (simp add: mask_eq_exp_minus_1)
  qed
  then show "n \<le> unat (smear (of_nat n))" using k(4) by simp
  have "(2::nat) ^ Suc k \<le> 2 ^ 31" using k31 by (intro power_increasing) simp_all
  then show l: "unat (smear (of_nat n)) < 2 ^ 31" unfolding m by (simp add: less_le_trans)
  then have "uint (smear (of_nat n)) < 2 ^ 31" by (metis nat_less_numeral_power_cancel_iff unat_eq_nat_uint)
  then show "sint (smear (of_nat n)) = int (unat (smear (of_nat n)))"
    by (simp add: sint_uint signed_take_bit_int_eq_self order_trans [of _ 0])
qed

lemma heap_resize_spec:
  assumes "heap_resize malloc (word_of_int n) h = (err, h')" "malloc_spec malloc"
    and "0 < n" "n < 2 ^ 31" "heap_shape h"
  shows "if err then h' = h \<and> malloc (smear (word_of_int n)) = None \<and> hp_size h < n
    else heap_shape h' \<and> n \<le> hp_size h' \<and> take (nat (hp_size h)) (hp_p h') = hp_p h \<and>
      hp_elements h' = hp_elements h \<and> hp_ofs h' = hp_ofs h"
proof -
  define m where "m = nat n"
  have m: "0 < m" "m < 2 ^ 31" "n = int m" using assms(3,4) by (simp_all add: m_def)
  define s where "s = nat (hp_size h)"
  have s: "hp_size h = int s" "s < 2 ^ 31" "length (hp_p h) = s" using assms(5) by (simp_all add: s_def heap_shape_def)
  have le: "(word_of_int n :: u32) \<le> word_of_int (hp_size h) \<longleftrightarrow> m \<le> s"
    using m s by (simp add: word_le_nat_alt unat_of_nat)
  obtain z where sm: "m \<le> z" "z < 2 ^ 31" "sint (smear (of_nat m)) = int z" "unat (smear (of_nat m)) = z"
    using smear_nat [OF m(1,2)] by blast
  show ?thesis
  proof (cases "m \<le> s")
    case True
    then show ?thesis using assms(1,5) le m(3) s by (auto simp: heap_resize_def)
  next
    case False
    show ?thesis
    proof (cases "malloc (smear (of_nat m))")
      case None
      then show ?thesis using assms(1) le False m(3) s by (auto simp: heap_resize_def)
    next
      case (Some p)
      then have lp: "length p = z" using assms(2) sm(4) by (simp add: malloc_spec_def)
      have "h' = h\<lparr>hp_p := hp_p h @ drop s p, hp_size := int z\<rparr>" "\<not> err"
        using assms(1) le False m(3) s Some sm(3) by (auto simp: heap_resize_def Let_def)
      then show ?thesis using assms(5) sm(1,2) False s m(3) lp by (auto simp: heap_shape_def)
    qed
  qed
qed


section \<open>Insertion\<close>

lemma sint_index: "i < 2 ^ 31 \<Longrightarrow> nat (sint (ucast (of_nat i :: u64) :: u32)) = i"
proof -
  assume i: "i < 2 ^ 31"
  have "uint (ucast (of_nat i :: u64) :: u32) = int i"
    using i by (simp add: unsigned_ucast_eq unsigned_of_nat take_bit_nat_eq_self take_bit_int_eq_self)
  then show ?thesis using i by (simp add: sint_uint signed_take_bit_int_eq_self order_trans [of _ 0])
qed

lemma heap_insert_at:
  assumes "i < 2 ^ 31" "heap_bubble (hp_ofs h) i (hp_p h) pos = (p', pos')"
  shows "heap_insert malloc (of_nat i) None h pos = (False, h\<lparr>hp_p := p'\<rparr>, pos')"
  using assms sint_index [OF assms(1)] by (simp add: heap_insert_def)

lemma in_window_Suc:
  assumes "in_window base n p" "n < length p"
  shows "in_window base (Suc n) p \<longleftrightarrow> eoff base (p ! n) < 2 ^ 63"
  using assms by (auto simp: in_window_def take_Suc_conv_app_nth)

text \<open>An entry behind the heap is taken in.\<close>

lemma bubble_in:
  assumes "heap_bubble ofs n p pos = (p', pos')" "n < length p" "in_window base n p" "heap_ord base n p"
    and "eoff base (p ! n) < 2 ^ 63" "0 < ofs \<longrightarrow> pos_but (Suc n) n p pos \<and> single (Suc n) n p"
  shows "heap_ord base (Suc n) p'" "mset (take (Suc n) p') = add_mset (p ! n) (mset (take n p))"
    "length p' = length p" "in_window base (Suc n) p'" "drop (Suc n) p' = drop (Suc n) p"
    "0 < ofs \<longrightarrow> pos_all (Suc n) p' pos'"
    "0 < ofs \<longrightarrow> (\<forall>x. x \<notin> he_object ` set (take (Suc n) p) \<longrightarrow> pos' x = pos x)"
proof -
  have w: "in_window base (Suc n) p" using assms(2,3,5) in_window_Suc by blast
  note o = heap_ord_Suc [OF assms(4)]
  have b: "heap_ord base (Suc n) p' \<and> mset (take (Suc n) p') = mset (take (Suc n) p) \<and>
      drop (Suc n) p' = drop (Suc n) p \<and> length p' = length p"
    using heap_bubble_ord [OF assms(1) lessI _ w] o assms(2) by simp
  show "heap_ord base (Suc n) p'" "length p' = length p" "drop (Suc n) p' = drop (Suc n) p" using b by simp_all
  show "mset (take (Suc n) p') = add_mset (p ! n) (mset (take n p))"
    unfolding b [THEN conjunct2, THEN conjunct1] using assms(2) by (simp add: take_Suc_conv_app_nth)
  show "in_window base (Suc n) p'" using w b set_take_mset unfolding in_window_def by metis
  show "0 < ofs \<longrightarrow> pos_all (Suc n) p' pos'"
    "0 < ofs \<longrightarrow> (\<forall>x. x \<notin> he_object ` set (take (Suc n) p) \<longrightarrow> pos' x = pos x)"
    using heap_bubble_pos [OF assms(1) _ lessI] assms(2,6) by auto
qed


lemma heap_insert_room:
  assumes "heap_shape h" "hp_elements h < hp_size h" "in_window base (heap_n h) (hp_p h)"
    and "heap_ord base (heap_n h) (hp_p h)" "0 < hp_ofs h \<longrightarrow> pos_all (heap_n h) (hp_p h) pos \<and> x \<notin> heap_objects h"
    and "koff base key < 2 ^ 63"
    and "heap_bubble (hp_ofs h) (heap_n h) ((hp_p h)[heap_n h := \<lparr>he_key = key, he_object = x\<rparr>]) pos = (p', pos')"
    and "h' = h\<lparr>hp_p := p', hp_elements := hp_elements h + 1\<rparr>"
  shows "heap_ok base h' pos'" "heap_contents h' = add_mset \<lparr>he_key = key, he_object = x\<rparr> (heap_contents h)"
    "0 < hp_ofs h \<Longrightarrow> y \<notin> insert x (heap_objects h) \<Longrightarrow> pos' y = pos y"
proof -
  let ?n = "heap_n h" and ?e = "\<lparr>he_key = key, he_object = x\<rparr>"
  let ?p = "(hp_p h)[?n := ?e]"
  have n: "?n < length (hp_p h)" and n': "heap_n h' = Suc ?n" using assms(1,2,8) by (auto simp: heap_shape_def)
  have obj: "heap_objects h = he_object ` set (take ?n (hp_p h))" by (simp add: heap_objects_def heap_contents_def)
  have nth: "?p ! i = hp_p h ! i" if "i < ?n" for i using that by simp
  have o: "heap_ord base ?n ?p"
    using assms(4) HEAP_FATHER_less by (auto simp: heap_ord_def) (metis less_trans nat_neq_iff nth nth_list_update_neq)
  have ps: "0 < hp_ofs h \<longrightarrow> pos_but (Suc ?n) ?n ?p pos \<and> single (Suc ?n) ?n ?p"
  proof
    assume "0 < hp_ofs h"
    then have "pos_all ?n (hp_p h) pos" "\<And>i. i < ?n \<Longrightarrow> he_object (hp_p h ! i) \<noteq> x"
      using assms(5) heap_objects_nth [OF assms(1)] by auto
    then show "pos_but (Suc ?n) ?n ?p pos \<and> single (Suc ?n) ?n ?p"
      using n by (auto simp: pos_all_def pos_but_def single_def less_Suc_eq)
  qed
  have "?n < length ?p" "in_window base ?n ?p" "eoff base (?p ! ?n) < 2 ^ 63"
    using n assms(3,6) by (simp_all add: in_window_def)
  note b = bubble_in [OF assms(7) this(1,2) o this(3) ps]
  show "heap_ok base h' pos'" unfolding heap_ok_def n'
    using b assms(1,2,8) by (auto simp: heap_shape_def)
  show "heap_contents h' = add_mset ?e (heap_contents h)"
    unfolding heap_contents_def n' using b(2) n assms(8) by simp
  show "pos' y = pos y" if "0 < hp_ofs h" "y \<notin> insert x (heap_objects h)"
    using b(7) that n unfolding obj by (auto simp: take_Suc_conv_app_nth)
qed


text \<open>The outcome of an insertion.\<close>

definition inserted :: "u64 \<Rightarrow> u64 \<Rightarrow> 'o \<Rightarrow> 'o dn_heap \<Rightarrow> 'o positions \<Rightarrow> 'o dn_heap \<Rightarrow> 'o positions \<Rightarrow> bool" where
  "inserted base key x h pos h' pos' \<longleftrightarrow> heap_ok base h' pos' \<and> hp_ofs h' = hp_ofs h \<and>
     heap_contents h' = add_mset \<lparr>he_key = key, he_object = x\<rparr> (heap_contents h) \<and>
     (0 < hp_ofs h \<longrightarrow> (\<forall>y. y \<notin> insert x (heap_objects h) \<longrightarrow> pos' y = pos y))"

lemma heap_insert_spec:
  assumes "heap_ok base h pos" "malloc_spec malloc" "koff base key < 2 ^ 63" "hp_elements h < 2 ^ 30"
    and "0 < hp_ofs h \<longrightarrow> x \<notin> heap_objects h"
    and ins: "heap_insert malloc key (Some x) h pos = (err, h', pos')"
  shows "if err then h' = h \<and> pos' = pos \<and> hp_elements h = hp_size h \<and>
      malloc (smear (word_of_int (hp_elements h + 16))) = None
    else inserted base key x h pos h' pos'"
proof -
  have ok: "heap_shape h" "in_window base (heap_n h) (hp_p h)" "heap_ord base (heap_n h) (hp_p h)"
    "0 < hp_ofs h \<longrightarrow> pos_all (heap_n h) (hp_p h) pos" using assms(1) by (simp_all add: heap_ok_def)
  obtain e1 h1 where r: "(if hp_elements h = hp_size h
      then heap_resize malloc (word_of_int (hp_elements h + 16)) h else (False, h)) = (e1, h1)" by fastforce
  have b: "0 < hp_elements h + 16" "hp_elements h + 16 < 2 ^ 31" using ok(1) assms(4) by (simp_all add: heap_shape_def)
  show ?thesis
  proof (cases e1)
    case True
    then have "heap_resize malloc (word_of_int (hp_elements h + 16)) h = (True, h1)" "hp_elements h = hp_size h"
      using r by (auto split: if_splits)
    then show ?thesis
      using heap_resize_spec [OF _ assms(2) b ok(1), of True h1] ins by (simp add: heap_insert_def Let_def)
  next
    case False
    have h1: "heap_shape h1 \<and> hp_elements h1 < hp_size h1 \<and> take (length (hp_p h)) (hp_p h1) = hp_p h \<and>
        hp_elements h1 = hp_elements h \<and> hp_ofs h1 = hp_ofs h"
    proof (cases "hp_elements h = hp_size h")
      case True
      then have "heap_resize malloc (word_of_int (hp_elements h + 16)) h = (False, h1)" using r False by simp
      then show ?thesis using heap_resize_spec [OF _ assms(2) b ok(1), of False h1] ok(1) True
        by (auto simp: heap_shape_def)
    qed (use r ok(1) in \<open>auto simp: heap_shape_def\<close>)
    have tk: "take (heap_n h1) (hp_p h1) = take (heap_n h) (hp_p h)"
      using h1 heap_shape_len [OF ok(1)] by (metis min.absorb1 take_take)
    have cont: "heap_contents h1 = heap_contents h" "heap_objects h1 = heap_objects h"
      using tk by (simp_all add: heap_contents_def heap_objects_def)
    have nth: "hp_p h1 ! i = hp_p h ! i" if "i < heap_n h" for i
      using tk that h1 by (metis nth_take)
    have "heap_ord base (heap_n h1) (hp_p h1)"
      using ok(3) h1 nth HEAP_FATHER_less unfolding heap_ord_def by (metis less_trans)
    moreover have "in_window base (heap_n h1) (hp_p h1)" using ok(2) tk by (simp add: in_window_def)
    moreover have "0 < hp_ofs h1 \<longrightarrow> pos_all (heap_n h1) (hp_p h1) pos \<and> x \<notin> heap_objects h1"
      using ok(4) assms(5) h1 nth cont by (simp add: pos_all_def)
    moreover obtain p' where "heap_bubble (hp_ofs h1) (heap_n h1)
        ((hp_p h1)[heap_n h1 := \<lparr>he_key = key, he_object = x\<rparr>]) pos = (p', pos')"
      "h' = h1\<lparr>hp_p := p', hp_elements := hp_elements h1 + 1\<rparr>" "\<not> err"
      using ins r False h1 by (auto simp: heap_insert_def Let_def split: prod.splits)
    ultimately have "inserted base key x h1 pos h' pos'" "\<not> err"
      using heap_insert_room [of h1 base pos x key p' pos' h'] h1 assms(3) by (auto simp: inserted_def)
    then show ?thesis using cont h1 by (simp add: inserted_def)
  qed
qed

section \<open>Extraction\<close>

lemma mset_fill:
  assumes "f \<le> m" "m < length p"
  shows "mset (take (Suc m) (p[f := x])) = add_mset x (mset (take m (p[f := p ! m])))"
proof (cases "f = m")
  case True
  then show ?thesis using assms(2) by (simp add: take_Suc_conv_app_nth)
next
  case False
  then have f: "f < length (take m p)" using assms by simp
  then have "p[f := x] ! m = p ! m" by simp
  then show ?thesis
    using assms False f mset_update [OF f, of x] mset_update [OF f, of "p ! m"]
    by (simp add: take_Suc_conv_app_nth take_update_swap list_update_append1)
qed


text \<open>The hole has reached the bottom, and the last entry is put into it.\<close>

lemma hole_filled:
  assumes "hole_inv base mx f p" "mx < HEAP_LEFT f" "q = p[f := p ! mx]"
  shows "in_window base mx q" "f \<noteq> mx \<Longrightarrow> ord_but base mx f q \<and> above base mx f q"
    "f = mx \<Longrightarrow> heap_ord base mx q"
proof -
  have p: "f \<le> mx" "mx < length p" "in_window base (Suc mx) p" "hole_ord base (Suc mx) f p"
    using assms(1) by (simp_all add: hole_inv_def)
  have nth: "q ! i = p ! i" if "i < mx" "i \<noteq> f" for i using that assms(3) by simp
  have child: "HEAP_FATHER i \<noteq> f" if "0 < i" "i < mx" for i
    using HEAP_FATHER_iff [OF that(1), of f] that(2) assms(2) by auto
  have edge: "eoff base (q ! HEAP_FATHER i) \<le> eoff base (q ! i)" if "0 < i" "i < mx" "i \<noteq> f" for i
    using p(4) that child [OF that(1,2)] HEAP_FATHER_less [OF that(1)] by (simp add: hole_ord_def nth)
  have "set (take mx q) \<subseteq> set (take (Suc mx) p)"
    using p(2) set_update_subset_insert [of "take mx p" f "p ! mx"] assms(3)
    by (auto simp: take_Suc_conv_app_nth take_update_swap)
  then show "in_window base mx q" using p(3) by (auto simp: in_window_def)
  show "f \<noteq> mx \<Longrightarrow> ord_but base mx f q \<and> above base mx f q"
    using edge child by (auto simp: ord_but_def above_def)
  show "f = mx \<Longrightarrow> heap_ord base mx q" using edge by (auto simp: heap_ord_def)
qed

lemma heap_ok_hole:
  assumes "heap_ok base h pos" "f < heap_n h"
  shows "hole_inv base (heap_n h - 1) f (hp_p h)"
proof -
  have n: "Suc (heap_n h - 1) = heap_n h" using assms(2) by simp
  show ?thesis unfolding hole_inv_def n
    using assms heap_ord_above [of base "heap_n h" "hp_p h" f] heap_shape_len [of h]
    by (auto simp: heap_ok_def hole_ord_def heap_ord_def)
qed

text \<open>The outcome of an extraction.\<close>

definition extracted :: "u64 \<Rightarrow> 'o dn_heap_entry \<Rightarrow> 'o dn_heap \<Rightarrow> 'o positions \<Rightarrow> 'o dn_heap \<Rightarrow> 'o positions \<Rightarrow> bool" where
  "extracted base e h pos h' pos' \<longleftrightarrow> heap_ok base h' pos' \<and> hp_ofs h' = hp_ofs h \<and>
     heap_contents h = add_mset e (heap_contents h') \<and>
     (0 < hp_ofs h \<longrightarrow> pos' (he_object e) = -16 \<and> (\<forall>y. y \<notin> heap_objects h \<longrightarrow> pos' y = pos y))"

definition heap_extract_at :: "nat \<Rightarrow> 'o dn_heap \<Rightarrow> 'o positions \<Rightarrow> 'o dn_heap \<times> 'o positions" where
  "heap_extract_at f h pos =
    (case heap_hole (hp_ofs h) (nat (hp_elements h - 1)) f (hp_p h) (RESET_OFFSET (hp_ofs h) f (hp_p h) pos) of
       (f, p, pos) \<Rightarrow>
         let mx = nat (hp_elements h - 1); h = h\<lparr>hp_p := p, hp_elements := hp_elements h - 1\<rparr> in
         if f \<noteq> mx then snd (heap_insert (\<lambda>_. None) (of_nat f) None (h\<lparr>hp_p := (hp_p h)[f := hp_p h ! mx]\<rparr>) pos)
         else (h, pos))"

lemma heap_extract_eq:
  "heap_extract obj h pos =
    (if hp_elements h < 1 then Some (h, pos)
     else case obj of
       None \<Rightarrow> Some (heap_extract_at 0 h pos)
     | Some x \<Rightarrow> if 0 < hp_ofs h \<and> 0 \<le> pos x \<and> pos x < hp_elements h
         then Some (heap_extract_at (nat (pos x)) h pos) else None)"
  by (auto simp: heap_extract_def heap_extract_at_def Let_def split: option.splits prod.splits)


text \<open>The last entry at its new place, moved up as far as needed.\<close>

lemma bubble_filled:
  assumes "hole_inv base mx f p" "mx < HEAP_LEFT f" "q = p[f := p ! mx]" "mx < 2 ^ 31"
    and "0 < ofs \<longrightarrow> pos_but (Suc mx) f p pos"
    and "(p', pos') = (if f \<noteq> mx then heap_bubble ofs f q pos else (p, pos))"
  shows "heap_ord base mx p'" "mset (take mx p') = mset (take mx q)" "length p' = length p"
    "in_window base mx p'" "0 < ofs \<longrightarrow> pos_all mx p' pos'"
    "0 < ofs \<longrightarrow> (\<forall>x. x \<notin> (\<lambda>i. he_object (p ! i)) ` ({..mx} - {f}) \<longrightarrow> pos' x = pos x)"
proof -
  note q = hole_filled [OF assms(1-3)]
  have f: "f \<le> mx" and len: "mx < length p" using assms(1) by (simp_all add: hole_inv_def)
  have "heap_ord base mx p' \<and> mset (take mx p') = mset (take mx q) \<and> length p' = length p \<and>
     (0 < ofs \<longrightarrow> pos_all mx p' pos' \<and> (\<forall>x. x \<notin> (\<lambda>i. he_object (p ! i)) ` ({..mx} - {f}) \<longrightarrow> pos' x = pos x))"
  proof (cases "f = mx")
    case True
    then have "q = p" "p' = p" "pos' = pos" using assms(3,6) by simp_all
    then show ?thesis using q(3) True assms(5) by (auto simp: pos_but_def pos_all_def)
  next
    case False
    then have b: "heap_bubble ofs f q pos = (p', pos')" using assms(6) by simp
    have fm: "f < mx" "mx \<le> length q" using False f len assms(3) by simp_all
    have o: "heap_ord base mx p' \<and> mset (take mx p') = mset (take mx q) \<and> drop mx p' = drop mx q \<and> length p' = length q"
      using heap_bubble_ord [OF b fm q(1)] q(2) False by simp
    have "pos_all mx p' pos' \<and> (\<forall>x. x \<notin> (\<lambda>i. he_object (p ! i)) ` ({..mx} - {f}) \<longrightarrow> pos' x = pos x)" if "0 < ofs"
    proof -
      have pb: "pos (he_object (p ! i)) = int i" if "i \<le> mx" "i \<noteq> f" for i
        using assms(5) \<open>0 < ofs\<close> that by (simp add: pos_but_def)
      have nth: "q ! i = (if i = f then p ! mx else p ! i)" if "i < mx" for i
        using that assms(3) len fm by (simp add: nth_list_update)
      have "pos_but mx f q pos" "single mx f q"
        using pb fm(1) by (auto simp: pos_but_def single_def nth) (metis le_refl less_imp_le nat_neq_iff of_nat_eq_iff)
      from heap_bubble_pos [OF b that fm this]
      have r: "pos_all mx p' pos'" "\<And>x. x \<notin> he_object ` set (take mx q) \<Longrightarrow> pos' x = pos x" by blast+
      have "he_object ` set (take mx q) \<subseteq> (\<lambda>i. he_object (p ! i)) ` ({..mx} - {f})"
        using fm by (auto simp: in_set_conv_nth nth image_iff) 
          (fastforce+)
      then show ?thesis using r by blast
    qed
    then show ?thesis using o assms(3) by simp
  qed
  then show "heap_ord base mx p'" "mset (take mx p') = mset (take mx q)" "length p' = length p"
    "0 < ofs \<longrightarrow> pos_all mx p' pos'"
    "0 < ofs \<longrightarrow> (\<forall>x. x \<notin> (\<lambda>i. he_object (p ! i)) ` ({..mx} - {f}) \<longrightarrow> pos' x = pos x)" by simp_all
  then show "in_window base mx p'" using q(1) set_take_mset unfolding in_window_def by metis
qed


lemma heap_extract_at_spec:
  assumes "heap_ok base h pos" "f < heap_n h" "heap_extract_at f h pos = (h', pos')"
  shows "extracted base (hp_p h ! f) h pos h' pos'"
proof -
  define mx where "mx = nat (hp_elements h - 1)"
  have n: "heap_n h = Suc mx" and el: "nat (hp_elements h - 1) = mx" and sh: "heap_shape h"
    using assms(1,2) by (simp_all add: mx_def heap_ok_def heap_shape_def)
  let ?pos0 = "RESET_OFFSET (hp_ofs h) f (hp_p h) pos"
  obtain f1 p1 pos1 where hole: "heap_hole (hp_ofs h) mx f (hp_p h) ?pos0 = (f1, p1, pos1)" by (metis prod_cases3)
  have hi: "hole_inv base mx f (hp_p h)" using heap_ok_hole [OF assms(1,2)] n by simp
  note hs = heap_hole_spec [OF hole hi, of "hp_p h ! f"]
  let ?q = "p1[f1 := p1 ! mx]"
  have f1: "f1 \<le> mx" "mx < length p1" and mx31: "mx < 2 ^ 31" using hs sh n by (auto simp: hole_inv_def heap_shape_def)
  obtain p' where p': "(p', pos') = (if f1 \<noteq> mx then heap_bubble (hp_ofs h) f1 ?q pos1 else (p1, pos1))"
    and h': "h' = h\<lparr>hp_elements := hp_elements h - 1, hp_p := p'\<rparr>"
  proof (cases "f1 = mx")
    case True
    then show ?thesis using that [of p1] assms(3) hole el by (auto simp: heap_extract_at_def)
  next
    case False
    obtain p2 pos2 where b: "heap_bubble (hp_ofs h) f1 ?q pos1 = (p2, pos2)" by fastforce
    then show ?thesis
      using that [of p2] False assms(3) hole el f1 mx31
        heap_insert_at [of f1 "h\<lparr>hp_elements := hp_elements h - 1, hp_p := ?q\<rparr>" pos1 p2 pos2 "\<lambda>_. None"]
      by (simp add: heap_extract_at_def)
  qed
  have p0: "pos_but (Suc mx) f (hp_p h) ?pos0" if "0 < hp_ofs h"
    using that assms(1,2) pos_all_single [of "Suc mx" "hp_p h" pos f] n
    by (auto simp: heap_ok_def pos_all_def pos_but_def single_def RESET_OFFSET_def)
  note hp = heap_hole_pos [OF hole _ hi p0]
  have "0 < hp_ofs h \<longrightarrow> pos_but (Suc mx) f1 p1 pos1" using hp by blast
  note b = bubble_filled [OF _ _ refl mx31 this p', of base]
  have ok: "heap_ok base h' pos'" "heap_contents h = add_mset (hp_p h ! f) (heap_contents h')"
    using b hs sh n el h' mset_fill [OF f1, of "hp_p h ! f"]
    by (auto simp: heap_ok_def heap_shape_def heap_contents_def)
  have "pos' (he_object (hp_p h ! f)) = -16 \<and> (\<forall>y. y \<notin> heap_objects h \<longrightarrow> pos' y = pos y)" if o: "0 < hp_ofs h"
  proof -
    have fr: "pos' y = ?pos0 y" if "y \<notin> (\<lambda>i. he_object (hp_p h ! i)) ` ({..mx} - {f})" for y
      using b(6) hs hp [OF o o] o that by simp
    have "he_object (hp_p h ! f) \<notin> (\<lambda>i. he_object (hp_p h ! i)) ` ({..mx} - {f})"
      using assms(1,2) o pos_all_single [of "Suc mx" "hp_p h" pos f] n
      by (auto simp: heap_ok_def single_def) (metis less_Suc_eq_le)
    then have "pos' (he_object (hp_p h ! f)) = -16" using fr o by (simp add: RESET_OFFSET_def)
    moreover have "pos' y = pos y" if "y \<notin> heap_objects h" for y
    proof -
      have i: "y \<noteq> he_object (hp_p h ! i)" if "i \<le> mx" for i
        using \<open>y \<notin> heap_objects h\<close> that heap_objects_nth [OF sh] n by (auto simp: less_Suc_eq_le)
      then show ?thesis using fr [of y] i [of f] assms(2) n o by (auto simp: RESET_OFFSET_def)
    qed
    ultimately show ?thesis by blast
  qed
  then show ?thesis using ok h' by (simp add: extracted_def)
qed


text \<open>The smallest entry is at the top.\<close>

definition is_min :: "u64 \<Rightarrow> 'o dn_heap_entry \<Rightarrow> 'o dn_heap \<Rightarrow> bool" where
  "is_min base e h \<longleftrightarrow> e \<in># heap_contents h \<and> (\<forall>e' \<in># heap_contents h. eoff base e \<le> eoff base e')"

lemma heap_nth_contents: "heap_shape h \<Longrightarrow> i < heap_n h \<Longrightarrow> hp_p h ! i \<in># heap_contents h"
  using heap_shape_len [of h] by (auto simp: heap_contents_def in_set_conv_nth)

lemma heap_top_is_min:
  assumes "heap_ok base h pos" "hp_elements h > 0"
  shows "is_min base (hp_p h ! 0) h"
  using assms heap_top_min [of base "heap_n h" "hp_p h"] heap_shape_len [of h] heap_nth_contents [of h 0]
  by (auto simp: is_min_def heap_ok_def heap_contents_def in_set_conv_nth)

lemma heap_extract_top:
  assumes "heap_ok base h pos" "hp_elements h > 0"
  shows "\<exists>h' pos'. heap_extract None h pos = Some (h', pos') \<and> extracted base (hp_p h ! 0) h pos h' pos'"
  using heap_extract_at_spec [OF assms(1), of 0] assms(2)
  by (cases "heap_extract_at 0 h pos") (simp add: heap_extract_eq)

lemma heap_extract_object:
  assumes "heap_ok base h pos" "0 < hp_ofs h" "x \<in> heap_objects h"
  shows "\<exists>e h' pos'. heap_extract (Some x) h pos = Some (h', pos') \<and> he_object e = x \<and>
    extracted base e h pos h' pos'"
proof -
  have sh: "heap_shape h" "pos_all (heap_n h) (hp_p h) pos" using assms(1,2) by (simp_all add: heap_ok_def)
  obtain i where i: "i < heap_n h" "x = he_object (hp_p h ! i)"
    using assms(3) heap_objects_nth [OF sh(1)] by auto
  then have pos: "pos x = int i" using sh(2) by (simp add: pos_all_def)
  obtain h' pos' where r: "heap_extract_at i h pos = (h', pos')" by fastforce
  then have "heap_extract (Some x) h pos = Some (h', pos')"
    using pos i(1) assms(2) zless_nat_eq_int_zless [of i "hp_elements h"] by (simp add: heap_extract_eq)
  then show ?thesis using heap_extract_at_spec [OF assms(1) i(1) r] i(2) by blast
qed

section \<open>Rebuilding\<close>

definition scan_inv :: "u64 \<Rightarrow> 'o dn_heap \<Rightarrow> bool" where
  "scan_inv base h \<longleftrightarrow> heap_shape h \<and> in_window base (heap_n h) (hp_p h) \<and>
     (0 < hp_ofs h \<longrightarrow> distinct (map he_object (take (heap_n h) (hp_p h))))"

lemma heap_ok_scan_inv: "heap_ok base h pos \<Longrightarrow> scan_inv base h"
  unfolding scan_inv_def heap_ok_def pos_all_def using heap_shape_len [of h]
  by (auto simp: distinct_conv_nth) (metis nat_neq_iff of_nat_eq_iff)

lemma heapify_steps:
  assumes "scan_inv base h" "m \<le> heap_n h"
    and "foldl (\<lambda>(h, pos) i. snd (heap_insert (\<lambda>_. None) (of_nat i) None h pos)) (h, pos) [0..<m] = (h', pos')"
  shows "heap_ord base m (hp_p h') \<and> (0 < hp_ofs h \<longrightarrow> pos_all m (hp_p h') pos') \<and>
    mset (take (heap_n h) (hp_p h')) = mset (take (heap_n h) (hp_p h)) \<and> (\<exists>p. h' = h\<lparr>hp_p := p\<rparr> \<and> length p = length (hp_p h))"
  using assms(2,3)
proof (induction m arbitrary: h' pos')
  case 0
  then show ?case by (auto simp: heap_ord_def pos_all_def intro!: exI [of _ "hp_p h"])
next
  case (Suc m)
  let ?n = "heap_n h"
  obtain h1 pos1 where r: "foldl (\<lambda>(h, pos) i. snd (heap_insert (\<lambda>_. None) (of_nat i) None h pos)) (h, pos) [0..<m] = (h1, pos1)"
    by fastforce
  have ih: "heap_ord base m (hp_p h1)" "0 < hp_ofs h \<longrightarrow> pos_all m (hp_p h1) pos1"
      "mset (take ?n (hp_p h1)) = mset (take ?n (hp_p h))" "hp_ofs h1 = hp_ofs h"
    and ex: "\<exists>p. h1 = h\<lparr>hp_p := p\<rparr> \<and> length p = length (hp_p h)"
    using Suc.IH [OF _ r] Suc.prems(1) by auto
  obtain p where p: "h1 = h\<lparr>hp_p := p\<rparr>" "length p = length (hp_p h)" using ex by blast
  obtain p' pos'' where b: "heap_bubble (hp_ofs h1) m (hp_p h1) pos1 = (p', pos'')" by fastforce
  have sh: "heap_shape h" using assms(1) by (simp add: scan_inv_def)
  have mn: "m < ?n" "m < length p" "m < 2 ^ 31" using Suc.prems(1) heap_shape_len [OF sh] sh p(2)
    by (auto simp: heap_shape_def)
  have h': "h' = h1\<lparr>hp_p := p'\<rparr>" "pos' = pos''"
    using Suc.prems(2) r heap_insert_at [OF mn(3) b] by auto
  have w: "in_window base ?n p" using assms(1) set_take_mset [OF ih(3)] p by (simp add: scan_inv_def in_window_def)
  have dist: "0 < hp_ofs h \<longrightarrow> distinct (map he_object (take ?n p))"
    using assms(1) ih(3) p(1) mset_eq_imp_distinct_iff [of "map he_object (take ?n p)" "map he_object (take ?n (hp_p h))"]
    by (auto simp: scan_inv_def)
  have "0 < hp_ofs h1 \<longrightarrow> pos_but (Suc m) m p pos1 \<and> single (Suc m) m p"
    using ih(2,4) p dist mn heap_shape_len [OF sh]
    by (auto simp: pos_all_def pos_but_def single_def distinct_conv_nth less_Suc_eq)
  moreover have "in_window base m p" using w mn(1) set_take_subset_set_take [of m ?n p] by (auto simp: in_window_def)
  moreover have "eoff base (p ! m) < 2 ^ 63" using in_window_nth [OF w] mn heap_shape_len [OF sh] p(2) by simp
  ultimately have r: "heap_ord base (Suc m) p'" "mset (take (Suc m) p') = add_mset (p ! m) (mset (take m p))"
    "length p' = length p" "drop (Suc m) p' = drop (Suc m) p" "0 < hp_ofs h1 \<longrightarrow> pos_all (Suc m) p' pos''"
    using bubble_in [OF b, of base] ih(1) p mn(2) by auto
  have "mset (take ?n p') = mset (take ?n p)"
  proof -
    have tk: "take ?n q = take (Suc m) q @ take (?n - Suc m) (drop (Suc m) q)" for q :: "'a dn_heap_entry list"
      using mn(1) by (metis Suc_leI le_add_diff_inverse take_add)
    show ?thesis unfolding tk [of p'] tk [of p] r(4) using r(2) mn(2) by (simp add: take_Suc_conv_app_nth)
  qed
  then show ?case using h' p r ih by auto
qed

lemma heapify_spec:
  assumes "scan_inv base h" "heapify h pos = (h', pos')"
  shows "heap_ok base h' pos' \<and> heap_contents h' = heap_contents h \<and> hp_ofs h' = hp_ofs h"
proof -
  have st: "heap_ord base (heap_n h) (hp_p h') \<and> (0 < hp_ofs h \<longrightarrow> pos_all (heap_n h) (hp_p h') pos') \<and>
      mset (take (heap_n h) (hp_p h')) = mset (take (heap_n h) (hp_p h)) \<and>
      (\<exists>p. h' = h\<lparr>hp_p := p\<rparr> \<and> length p = length (hp_p h))"
    by (rule heapify_steps [OF assms(1) order_refl assms(2) [unfolded heapify_def]])
  then have "set (take (heap_n h) (hp_p h')) = set (take (heap_n h) (hp_p h))" by (intro set_take_mset) simp
  with st show ?thesis using assms(1)
    by (auto simp: scan_inv_def heap_ok_def heap_shape_def heap_contents_def in_window_def)
qed

section \<open>Scanning\<close>

text \<open>A callback that decides on the object alone and does not end the scan.\<close>

definition scan_verdict :: "('o \<Rightarrow> 's \<Rightarrow> u32 \<times> 's) \<Rightarrow> ('o \<Rightarrow> bool) \<Rightarrow> bool" where
  "scan_verdict fn D \<longleftrightarrow> (\<forall>x s. fst (fn x s) = (if D x then HEAP_SCAN_DEL else 0))"

lemma heap_scan_loop_cases:
  assumes "scan_verdict fn D"
  shows "\<not> int i < hp_elements h \<Longrightarrow> heap_scan_loop fn i found h s = (found, h, s)"
    and "int i < hp_elements h \<Longrightarrow> \<not> D (he_object (hp_p h ! i)) \<Longrightarrow> \<exists>s1.
      heap_scan_loop fn i found h s = heap_scan_loop fn (Suc i) found h s1"
    and "int i < hp_elements h \<Longrightarrow> D (he_object (hp_p h ! i)) \<Longrightarrow> \<exists>s1.
      heap_scan_loop fn i found h s = heap_scan_loop fn i (Suc found)
        (h\<lparr>hp_elements := hp_elements h - 1, hp_p := (hp_p h)[i := hp_p h ! nat (hp_elements h - 1)]\<rparr>) s1"
proof -
  obtain v s1 where fn: "fn (he_object (hp_p h ! i)) s = (v, s1)" by fastforce
  then have v: "v = (if D (he_object (hp_p h ! i)) then HEAP_SCAN_DEL else 0)"
    using assms unfolding scan_verdict_def by (metis fst_conv)
  show "\<not> int i < hp_elements h \<Longrightarrow> heap_scan_loop fn i found h s = (found, h, s)"
    by (simp add: heap_scan_loop.simps [of fn i found h s])
  show "int i < hp_elements h \<Longrightarrow> \<not> D (he_object (hp_p h ! i)) \<Longrightarrow> \<exists>s1.
      heap_scan_loop fn i found h s = heap_scan_loop fn (Suc i) found h s1"
    using fn v by (auto simp: heap_scan_loop.simps [of fn i found h s] intro!: exI [of _ s1])
  show "int i < hp_elements h \<Longrightarrow> D (he_object (hp_p h ! i)) \<Longrightarrow> \<exists>s1.
      heap_scan_loop fn i found h s = heap_scan_loop fn i (Suc found)
        (h\<lparr>hp_elements := hp_elements h - 1, hp_p := (hp_p h)[i := hp_p h ! nat (hp_elements h - 1)]\<rparr>) s1"
    using fn v by (auto simp: heap_scan_loop.simps [of fn i found h s] HEAP_SCAN_DEL_def HEAP_SCAN_END_def
        Let_def intro!: exI [of _ s1])
qed

text \<open>Deleting entry \<open>i\<close> moves the last entry to its place.\<close>

lemma scan_delete:
  assumes "scan_inv base h" "i < heap_n h"
    and "h' = h\<lparr>hp_elements := hp_elements h - 1, hp_p := (hp_p h)[i := hp_p h ! nat (hp_elements h - 1)]\<rparr>"
  shows "scan_inv base h'" "heap_contents h = add_mset (hp_p h ! i) (heap_contents h')" "heap_n h = Suc (heap_n h')"
proof -
  define m where "m = nat (hp_elements h - 1)"
  have sh: "heap_shape h" using assms(1) by (simp add: scan_inv_def)
  have n: "heap_n h = Suc m" "heap_n h' = m" using assms(2,3) by (auto simp: m_def)
  have m: "i \<le> m" "m < length (hp_p h)" "0 < hp_elements h" using n assms(2) heap_shape_len [OF sh] by simp_all
  have h': "hp_p h' = (hp_p h)[i := hp_p h ! m]" "hp_ofs h' = hp_ofs h" using assms(3) by (simp_all add: m_def)
  show c: "heap_contents h = add_mset (hp_p h ! i) (heap_contents h')"
    unfolding heap_contents_def n h' using mset_fill [OF m(1,2), of "hp_p h ! i"] m by simp
  show "heap_n h = Suc (heap_n h')" using n by simp
  have sub: "set (take m (hp_p h')) \<subseteq> set (take (Suc m) (hp_p h))"
    using c unfolding heap_contents_def n by (metis set_mset_add_mset_insert set_mset_mset subset_insertI)
  have "mset (map he_object (take (Suc m) (hp_p h))) = mset (he_object (hp_p h ! i) # map he_object (take m (hp_p h')))"
    using c unfolding heap_contents_def n by simp
  from mset_eq_imp_distinct_iff [OF this]
  have "distinct (map he_object (take (Suc m) (hp_p h))) \<Longrightarrow> distinct (map he_object (take m (hp_p h')))" by simp
  then show "scan_inv base h'"
    using assms(1) sub h' n sh assms(3) m(3) unfolding scan_inv_def in_window_def n
    by (auto simp: heap_shape_def)
qed

lemma heap_scan_loop_spec:
  assumes "scan_verdict fn D" "heap_scan_loop fn i found h s = (found', h', s')" "scan_inv base h" "i \<le> heap_n h"
    and "\<forall>j < i. \<not> D (he_object (hp_p h ! j))"
  shows "scan_inv base h' \<and> heap_contents h' = filter_mset (\<lambda>e. \<not> D (he_object e)) (heap_contents h) \<and>
    heap_n h + found = heap_n h' + found' \<and> found \<le> found' \<and> hp_ofs h' = hp_ofs h \<and> (found' = found \<longrightarrow> h' = h)"
  using assms(2-)
proof (induction "heap_n h - i" arbitrary: i found h s rule: less_induct)
  case less
  let ?n = "heap_n h" and ?p = "hp_p h"
  note cs = heap_scan_loop_cases [OF assms(1), of i h found s]
  have len: "?n \<le> length ?p" using less.prems(2) heap_shape_len by (auto simp: scan_inv_def)
  consider "\<not> int i < hp_elements h" | "i < ?n" "int i < hp_elements h" "\<not> D (he_object (?p ! i))"
    | "i < ?n" "int i < hp_elements h" "D (he_object (?p ! i))" by fastforce
  then show ?case
  proof cases
    case 1
    then have r: "i = ?n" "h' = h" "found' = found" using less.prems(1,3) cs(1) by auto
    have "\<not> D (he_object e)" if "e \<in> set (take ?n ?p)" for e
      using that less.prems(4) r(1) len by (auto simp: in_set_conv_nth)
    then have "filter_mset (\<lambda>e. \<not> D (he_object e)) (heap_contents h) = heap_contents h"
      by (simp add: heap_contents_def filter_mset_eq_conv)
    then show ?thesis using r less.prems(2) by simp
  next
    case 2
    obtain s1 where "heap_scan_loop fn (Suc i) found h s1 = (found', h', s')" using cs(2) 2 less.prems(1) by auto
    moreover have "\<forall>j < Suc i. \<not> D (he_object (?p ! j))" using less.prems(4) 2 by (auto simp: less_Suc_eq)
    ultimately show ?thesis using less.hyps [of h "Suc i" found s1] 2(1) less.prems(2) by simp
  next
    case 3
    let ?h = "h\<lparr>hp_elements := hp_elements h - 1, hp_p := ?p[i := ?p ! nat (hp_elements h - 1)]\<rparr>"
    obtain s1 where l: "heap_scan_loop fn i (Suc found) ?h s1 = (found', h', s')" using cs(3) 3 less.prems(1) by auto
    note d = scan_delete [OF less.prems(2) 3(1) refl]
    have "\<forall>j < i. \<not> D (he_object (hp_p ?h ! j))" using less.prems(4) by simp
    moreover have "heap_n ?h - i < heap_n h - i" "i \<le> heap_n ?h" using d(3) 3(1) by linarith+
    ultimately have "scan_inv base h' \<and>
        heap_contents h' = filter_mset (\<lambda>e. \<not> D (he_object e)) (heap_contents ?h) \<and>
        heap_n ?h + Suc found = heap_n h' + found' \<and> Suc found \<le> found' \<and> hp_ofs h' = hp_ofs ?h"
      using less.hyps [OF _ l d(1)] by blast
    then show ?thesis using d(2,3) 3(3) by auto
  qed
qed

lemma heap_scan_spec:
  assumes "scan_verdict fn D" "heap_scan fn h pos s = (found, h', pos', s')" "heap_ok base h pos"
  shows "heap_ok base h' pos'" "heap_contents h' = filter_mset (\<lambda>e. \<not> D (he_object e)) (heap_contents h)"
    "heap_n h = heap_n h' + found"
proof -
  obtain h1 s1 f1 where l: "heap_scan_loop fn 0 0 h s = (f1, h1, s1)" by (metis prod_cases3)
  note sp = heap_scan_loop_spec [OF assms(1) l heap_ok_scan_inv [OF assms(3)]]
  have "heap_ok base h' pos' \<and> heap_contents h' = heap_contents h1 \<and> found = f1"
  proof (cases "f1 = 0")
    case True
    then show ?thesis using assms(2,3) l sp by (auto simp: heap_scan_def)
  next
    case False
    then obtain r where "heapify h1 pos = r" "found = f1" "h' = fst r" "pos' = snd r"
      using assms(2) l by (auto simp: heap_scan_def split: prod.splits)
    then show ?thesis using heapify_spec [of base h1 pos h' pos'] sp by auto
  qed
  moreover have "size (heap_contents h') = heap_n h'" if "heap_ok base h' pos'"
    using that heap_contents_size by (auto simp: heap_ok_def)
  moreover have "size (heap_contents h1) = heap_n h1" using sp heap_contents_size [of h1] unfolding scan_inv_def by blast
  ultimately show "heap_ok base h' pos'" "heap_contents h' = filter_mset (\<lambda>e. \<not> D (he_object e)) (heap_contents h)"
    "heap_n h = heap_n h' + found" using sp by auto
qed


section \<open>The contract of a priority queue\<close>

primrec pop_all :: "('q \<Rightarrow> 'e) \<Rightarrow> ('q \<Rightarrow> 'q) \<Rightarrow> nat \<Rightarrow> 'q \<Rightarrow> 'e list" where
  "pop_all front del 0 q = []"
| "pop_all front del (Suc n) q = front q # pop_all front del n (del q)"

locale prio_queue =
  fixes invar :: "'q \<Rightarrow> bool" and contents :: "'q \<Rightarrow> 'e multiset" and key :: "'e \<Rightarrow> nat"
    and ok :: "'e \<Rightarrow> 'q \<Rightarrow> bool" and put :: "'e \<Rightarrow> 'q \<Rightarrow> 'q option"
    and front :: "'q \<Rightarrow> 'e" and del :: "'q \<Rightarrow> 'q"
  assumes put_law: "invar q \<Longrightarrow> ok e q \<Longrightarrow> put e q = Some q' \<Longrightarrow> invar q' \<and> contents q' = add_mset e (contents q)"
    and top_law: "invar q \<Longrightarrow> contents q \<noteq> {#} \<Longrightarrow> e \<in># contents q \<Longrightarrow> key (front q) \<le> key e"
    and del_law: "invar q \<Longrightarrow> contents q \<noteq> {#} \<Longrightarrow> invar (del q) \<and> contents q = add_mset (front q) (contents (del q))"
begin

lemma pop_all_sorted:
  assumes "invar q" "n = size (contents q)"
  shows "mset (pop_all front del n q) = contents q \<and> sorted (map key (pop_all front del n q))"
  using assms
proof (induction n arbitrary: q)
  case (Suc n)
  then have ne: "contents q \<noteq> {#}" by auto
  note d = del_law [OF Suc.prems(1) ne]
  then have s: "size (contents (del q)) = n" using Suc.prems(2) by (metis add_diff_cancel_left' plus_1_eq_Suc size_add_mset)
  note ih = Suc.IH [OF conjunct1 [OF d] s [symmetric]]
  have "key (front q) \<le> key e" if "e \<in> set (pop_all front del n (del q))" for e
    using top_law [OF Suc.prems(1) ne, of e] d ih that by (metis insert_iff set_mset_add_mset_insert set_mset_mset)
  then show ?case using ih d by simp
qed simp

text \<open>What was put into a queue comes out in the order of the keys.\<close>

lemma put_pop:
  assumes "invar q" "ok e q" "put e q = Some q'"
  shows "mset (pop_all front del (Suc (size (contents q))) q') = add_mset e (contents q) \<and>
    sorted (map key (pop_all front del (Suc (size (contents q))) q'))"
  using pop_all_sorted [of q' "Suc (size (contents q))"] put_law [OF assms] by simp

end

definition heap_top :: "'o dn_heap \<times> 'o positions \<Rightarrow> 'o dn_heap_entry" where
  "heap_top s = hp_p (fst s) ! 0"

definition heap_del :: "'o dn_heap \<times> 'o positions \<Rightarrow> 'o dn_heap \<times> 'o positions" where
  "heap_del s = (case heap_extract None (fst s) (snd s) of None \<Rightarrow> s | Some s' \<Rightarrow> s')"

definition heap_put :: "'o heap_malloc \<Rightarrow> 'o dn_heap_entry \<Rightarrow> 'o dn_heap \<times> 'o positions \<Rightarrow> ('o dn_heap \<times> 'o positions) option" where
  "heap_put malloc e s = (case heap_insert malloc (he_key e) (Some (he_object e)) (fst s) (snd s) of
     (True, _) \<Rightarrow> None | (False, s') \<Rightarrow> Some s')"

definition heap_admits :: "u64 \<Rightarrow> 'o heap_malloc \<Rightarrow> 'o dn_heap_entry \<Rightarrow> 'o dn_heap \<times> 'o positions \<Rightarrow> bool" where
  "heap_admits base malloc e s \<longleftrightarrow> malloc_spec malloc \<and> eoff base e < 2 ^ 63 \<and> hp_elements (fst s) < 2 ^ 30 \<and>
     (0 < hp_ofs (fst s) \<longrightarrow> he_object e \<notin> heap_objects (fst s))"

interpretation dn_heap: prio_queue
  "\<lambda>s. heap_ok base (fst s) (snd s)" "\<lambda>s. heap_contents (fst s)" "eoff base"
  "heap_admits base malloc" "heap_put malloc" heap_top heap_del
  for base :: u64 and malloc :: "'o heap_malloc"
proof (unfold_locales, goal_cases)
  case (1 q e q')
  then obtain h' pos' where "heap_insert malloc (he_key e) (Some (he_object e)) (fst q) (snd q) = (False, h', pos')" "q' = (h', pos')"
    by (auto simp: heap_put_def split: prod.splits bool.splits)
  then show ?case
    using heap_insert_spec [of base "fst q" "snd q" malloc "he_key e" "he_object e" False h' pos'] 1
    by (simp add: inserted_def heap_admits_def)
next
  case (2 q e)
  then have "hp_elements (fst q) > 0" by (auto simp: heap_contents_def heap_ok_def heap_shape_def)
  then show ?case using heap_top_is_min [OF 2(1)] 2(3) by (simp add: is_min_def heap_top_def)
next
  case (3 q)
  then have "hp_elements (fst q) > 0" by (auto simp: heap_contents_def heap_ok_def heap_shape_def)
  then show ?case using heap_extract_top [OF 3(1)] by (auto simp: extracted_def heap_del_def heap_top_def)
qed

end
