(* ===== verification/Dn_Heap_Props.thy ===== *)
theory Dn_Heap_Props
  imports Dn_Heap_Queue
begin

text \<open>
  The properties of the schedulers' heap (\<open>sched16/dn_heap.c\<close>), with a sample heap on
  which each of them is applied.
\<close>

section \<open>A sample heap\<close>

definition malloc_sample :: "nat heap_malloc" where
  "malloc_sample n = Some (replicate (unat n) \<lparr>he_key = 0, he_object = 0\<rparr>)"

definition heap_sample :: "nat dn_heap" where
  "heap_sample = \<lparr>hp_size = 0, hp_elements = 0, hp_ofs = 8, hp_p = []\<rparr>"

lemma malloc_sample_spec: "malloc_spec malloc_sample"
  by (simp add: malloc_spec_def malloc_sample_def)

lemma heap_sample_ok: "heap_ok 0 heap_sample pos"
  by (simp add: heap_ok_def heap_shape_def heap_sample_def in_window_def heap_ord_def pos_all_def)

lemma heap_sample_contents: "heap_contents heap_sample = {#}" "heap_objects heap_sample = {}"
    "hp_elements heap_sample = 0" "hp_ofs heap_sample = 8"
  by (simp_all add: heap_objects_def heap_contents_def heap_sample_def)

text \<open>Two entries are put into the sample; the second one has the smaller key.\<close>

lemma heap_sample_two:
  obtains h pos where "heap_ok 0 h pos" "hp_ofs h = 8" "hp_elements h = 2"
    "heap_contents h = {#\<lparr>he_key = 5, he_object = 7 :: nat\<rparr>, \<lparr>he_key = 3, he_object = 8\<rparr>#}"
proof -
  obtain e1 h1 pos1 where i1: "heap_insert malloc_sample 5 (Some 7) heap_sample (\<lambda>_. 0) = (e1, h1, pos1)"
    by (metis prod_cases3)
  have a: "\<not> e1" "inserted 0 5 7 heap_sample (\<lambda>_. 0) h1 pos1"
    using heap_insert_spec [OF heap_sample_ok malloc_sample_spec _ _ _ i1]
    by (auto simp: heap_sample_contents koff_def malloc_sample_def split: if_splits)
  then have o1: "heap_ok 0 h1 pos1" "hp_ofs h1 = 8" "heap_contents h1 = {#\<lparr>he_key = 5, he_object = 7\<rparr>#}"
    by (simp_all add: inserted_def heap_sample_contents)
  then have n1: "hp_elements h1 = 1" using heap_contents_size [of h1] by (simp add: heap_ok_def heap_shape_def)
  obtain e2 h2 pos2 where i2: "heap_insert malloc_sample 3 (Some 8) h1 pos1 = (e2, h2, pos2)"
    by (metis prod_cases3)
  have b: "inserted 0 3 8 h1 pos1 h2 pos2"
    using heap_insert_spec [OF o1(1) malloc_sample_spec _ _ _ i2] n1
    by (auto simp: heap_objects_def o1 koff_def malloc_sample_def split: if_splits)
  then have "heap_ok 0 h2 pos2" "hp_ofs h2 = 8"
    "heap_contents h2 = {#\<lparr>he_key = 5, he_object = 7\<rparr>, \<lparr>he_key = 3, he_object = 8\<rparr>#}"
    using o1 by (simp_all add: inserted_def)
  moreover have "hp_elements h2 = 2"
    using calculation heap_contents_size [of h2] by (simp add: heap_ok_def heap_shape_def)
  ultimately show ?thesis using that by blast
qed

section \<open>Properties\<close>

text \<open>C23: an insertion fails only when the array is full and no memory is given, and
  then nothing has changed; otherwise the heap keeps its invariant (the order of the
  keys, the bounds of the array, and the position that every object stores) and holds
  the new entry besides the old ones.\<close>

theorem heap_insert_adds:
  assumes "heap_ok base h pos" "malloc_spec malloc" "koff base key < 2 ^ 63" "hp_elements h < 2 ^ 30"
    and "0 < hp_ofs h \<longrightarrow> x \<notin> heap_objects h"
    and "heap_insert malloc key (Some x) h pos = (err, h', pos')"
  shows "if err then h' = h \<and> pos' = pos \<and> hp_elements h = hp_size h \<and>
      malloc (smear (word_of_int (hp_elements h + 16))) = None
    else heap_ok base h' pos' \<and> heap_contents h' = add_mset \<lparr>he_key = key, he_object = x\<rparr> (heap_contents h)"
  using heap_insert_spec [OF assms] by (cases err) (auto simp: inserted_def)

text \<open>Witness of C23: an entry is put into the empty sample heap.\<close>

theorem heap_insert_adds_witness:
  "\<exists>h' pos'. heap_insert malloc_sample 5 (Some 7) heap_sample (\<lambda>_. 0) = (False, h', pos') \<and>
    heap_ok 0 h' pos' \<and> heap_contents h' = {#\<lparr>he_key = 5, he_object = 7\<rparr>#}"
proof -
  obtain e h' pos' where i: "heap_insert malloc_sample 5 (Some 7) heap_sample (\<lambda>_. 0) = (e, h', pos')"
    by (metis prod_cases3)
  then show ?thesis
    using heap_insert_adds [OF heap_sample_ok malloc_sample_spec _ _ _ i]
    by (auto simp: heap_sample_contents koff_def malloc_sample_def split: if_splits)
qed

text \<open>C22: extracting the top until the heap is empty yields exactly its entries, in the
  order of their keys.\<close>

theorem heap_extracts_in_order:
  assumes "heap_ok base h pos"
  shows "mset (pop_all heap_top heap_del (nat (hp_elements h)) (h, pos)) = heap_contents h \<and>
    sorted (map (\<lambda>e. koff base (he_key e)) (pop_all heap_top heap_del (nat (hp_elements h)) (h, pos)))"
  using dn_heap.pop_all_sorted [of base "(h, pos)" "heap_n h"] assms heap_contents_size [of h]
  by (simp add: heap_ok_def)

text \<open>Witness of C22: the two entries of the sample.\<close>

theorem heap_extracts_in_order_witness:
  "\<exists>h pos. hp_elements h = 2 \<and> mset (pop_all heap_top heap_del 2 (h, pos)) =
      {#\<lparr>he_key = 5, he_object = (7::nat)\<rparr>, \<lparr>he_key = 3, he_object = 8\<rparr>#} \<and>
    sorted (map (\<lambda>e. koff 0 (he_key e)) (pop_all heap_top heap_del 2 (h, pos)))"
proof -
  obtain h pos where h: "heap_ok 0 h pos" "hp_elements h = 2"
    "heap_contents h = {#\<lparr>he_key = 5, he_object = (7::nat)\<rparr>, \<lparr>he_key = 3, he_object = 8\<rparr>#}"
    by (rule heap_sample_two)
  then show ?thesis using heap_extracts_in_order [OF h(1)] by auto
qed

text \<open>C24: an object anywhere in the heap can be extracted through the position it
  stores: exactly its entry is removed, the rest is again a heap, and the stored
  position becomes invalid.\<close>

theorem heap_extract_removes:
  assumes "heap_ok base h pos" "0 < hp_ofs h" "x \<in> heap_objects h"
  shows "\<exists>k h' pos'. heap_extract (Some x) h pos = Some (h', pos') \<and> heap_ok base h' pos' \<and>
    heap_contents h = add_mset \<lparr>he_key = k, he_object = x\<rparr> (heap_contents h') \<and> pos' x = -16"
proof -
  obtain e h' pos' where e: "heap_extract (Some x) h pos = Some (h', pos')" "he_object e = x"
    "extracted base e h pos h' pos'" using heap_extract_object [OF assms] by blast
  moreover have "e = \<lparr>he_key = he_key e, he_object = x\<rparr>" using e(2) by simp
  ultimately show ?thesis using assms(2) unfolding extracted_def by metis
qed

text \<open>Witness of C24: the object below the top of the sample.\<close>

theorem heap_extract_removes_witness:
  "\<exists>h pos h' pos' k. heap_extract (Some 7) h pos = Some (h', pos') \<and> pos' 7 = -16 \<and> hp_elements h = 2 \<and>
    heap_contents h = add_mset \<lparr>he_key = k, he_object = (7::nat)\<rparr> (heap_contents h')"
proof -
  obtain h pos where h: "heap_ok 0 h pos" "hp_ofs h = 8" "hp_elements h = 2"
    "heap_contents h = {#\<lparr>he_key = 5, he_object = (7::nat)\<rparr>, \<lparr>he_key = 3, he_object = 8\<rparr>#}"
    by (rule heap_sample_two)
  then have "7 \<in> heap_objects h" by (simp add: heap_objects_def)
  then show ?thesis using heap_extract_removes [OF h(1), of 7] h(2,3) by force
qed

text \<open>C25: a scan whose callback asks for the deletion of the objects with \<open>D\<close> removes
  exactly their entries, returns their number, and leaves a heap.\<close>

theorem heap_scan_filters:
  assumes "heap_ok base h pos" "heap_scan fn h pos s = (found, h', pos', s')"
    and "\<And>x s. fst (fn x s) = (if D x then HEAP_SCAN_DEL else 0)"
  shows "heap_ok base h' pos' \<and> heap_contents h' = filter_mset (\<lambda>e. \<not> D (he_object e)) (heap_contents h) \<and>
    found = size (filter_mset (\<lambda>e. D (he_object e)) (heap_contents h))"
proof -
  have "scan_verdict fn D" using assms(3) by (simp add: scan_verdict_def)
  note sp = heap_scan_spec [OF this assms(2,1)]
  have "size (heap_contents h) = heap_n h" "size (heap_contents h') = heap_n h'"
    using heap_contents_size assms(1) sp(1) by (auto simp: heap_ok_def)
  moreover have "size (heap_contents h) = size (filter_mset (\<lambda>e. D (he_object e)) (heap_contents h)) +
      size (filter_mset (\<lambda>e. \<not> D (he_object e)) (heap_contents h))"
    by (metis multiset_partition size_union)
  ultimately show ?thesis using sp by simp
qed

text \<open>Witness of C25: the object 7 is removed from the sample.\<close>

theorem heap_scan_filters_witness:
  "\<exists>h pos h' pos'. hp_elements h = 2 \<and>
    heap_scan (\<lambda>x s. (if x = (7::nat) then HEAP_SCAN_DEL else 0, s)) h pos () = (1, h', pos', ()) \<and>
    heap_contents h' = {#\<lparr>he_key = 3, he_object = 8\<rparr>#}"
proof -
  let ?fn = "\<lambda>x s. (if x = (7::nat) then HEAP_SCAN_DEL else 0, s)"
  obtain h pos where h: "heap_ok 0 h pos" "hp_elements h = 2"
    "heap_contents h = {#\<lparr>he_key = 5, he_object = (7::nat)\<rparr>, \<lparr>he_key = 3, he_object = 8\<rparr>#}"
    by (rule heap_sample_two)
  obtain f h' pos' where s: "heap_scan ?fn h pos () = (f, h', pos', ())"
    by (cases "heap_scan ?fn h pos ()") auto
  have "f = 1 \<and> heap_contents h' = {#\<lparr>he_key = 3, he_object = 8\<rparr>#}"
    using heap_scan_filters [OF h(1) s, of "\<lambda>x. x = 7"] h(3) by simp
  then have "hp_elements h = 2 \<and> heap_scan ?fn h pos () = (1, h', pos', ()) \<and>
      heap_contents h' = {#\<lparr>he_key = 3, he_object = 8\<rparr>#}" using h(2) s by simp
  then show ?thesis by (intro exI)
qed

end
