(* ===== verification/Dn_Hash.thy ===== *)
theory Dn_Hash
  imports Dn_Heap
begin

text \<open>
  The hash table of \<open>sched16/dn_heap.c\<close>.  A bucket is a chain linked through a field of
  the objects and is modelled as the list of the objects on it, by their addresses; a
  null pointer is the address 0.  The callbacks that hash a key, compare it with an
  object and create an object are fields of the table, as in the code.  The allocator is
  an argument that gives the contents of the new memory: the number of entries and the
  chains.
\<close>

type_synonym ptr = u64

definition DNHT_SCAN_DEL :: u32 where "DNHT_SCAN_DEL = 0x0001"
definition DNHT_SCAN_END :: u32 where "DNHT_SCAN_END = 0x0002"
definition DNHT_KEY_IS_OBJ :: u32 where "DNHT_KEY_IS_OBJ = 0x0004"
definition DNHT_MATCH_PTR :: u32 where "DNHT_MATCH_PTR = 0x0008"
definition DNHT_INSERT :: u32 where "DNHT_INSERT = 0x0010"
definition DNHT_UNIQUE :: u32 where "DNHT_UNIQUE = 0x0020"
definition DNHT_REMOVE :: u32 where "DNHT_REMOVE = 0x0040"

lemmas dnht_flags = DNHT_SCAN_DEL_def DNHT_SCAN_END_def DNHT_KEY_IS_OBJ_def DNHT_MATCH_PTR_def
  DNHT_INSERT_def DNHT_UNIQUE_def DNHT_REMOVE_def

record 'a dn_ht =
  t_buckets :: int
  t_entries :: int
  t_ofs :: int
  t_hash :: "ptr \<Rightarrow> u32 \<Rightarrow> 'a \<Rightarrow> u32"
  t_match :: "ptr \<Rightarrow> ptr \<Rightarrow> u32 \<Rightarrow> 'a \<Rightarrow> bool"
  t_newh :: "(ptr \<Rightarrow> u32 \<Rightarrow> 'a \<Rightarrow> ptr) option"
  t_ht :: "ptr list list"

section \<open>Initialisation\<close>

text \<open>The number of buckets minus one: the next power of two minus one, or the one before
  it when the requested number is not greater than four thirds of that.\<close>

definition dn_ht_round :: "int \<Rightarrow> int" where
  "dn_ht_round buckets =
    (let b_max = uint (smear (word_of_int buckets));
         b_min = b_max div 2
     in if b_min * 4000 div 3000 < buckets then b_max else b_min)"

definition dn_ht_init ::
  "(nat \<Rightarrow> (int \<times> ptr list list) option) \<Rightarrow> 'a dn_ht option \<Rightarrow> int \<Rightarrow> int \<Rightarrow> (ptr \<Rightarrow> u32 \<Rightarrow> 'a \<Rightarrow> u32) option
    \<Rightarrow> (ptr \<Rightarrow> ptr \<Rightarrow> u32 \<Rightarrow> 'a \<Rightarrow> bool) option \<Rightarrow> (ptr \<Rightarrow> u32 \<Rightarrow> 'a \<Rightarrow> ptr) option \<Rightarrow> 'a dn_ht option" where
  "dn_ht_init malloc ht buckets ofs h match newh =
    (case (h, match) of
       (Some h, Some match) \<Rightarrow>
         if buckets < 1 \<or> buckets > 65536 then None
         else let buckets = dn_ht_round buckets;
                  mem = (case ht of
                      Some ht \<Rightarrow> if buckets \<le> t_buckets ht then Some (t_entries ht, t_ht ht)
                                  else malloc (nat (buckets + 1))
                    | None \<Rightarrow> malloc (nat (buckets + 1)))
              in (case mem of
                    None \<Rightarrow> None
                  | Some (entries, cells) \<Rightarrow>
                      Some \<lparr>t_buckets = buckets, t_entries = entries, t_ofs = ofs, t_hash = h,
                        t_match = match, t_newh = newh, t_ht = cells\<rparr>)
     | _ \<Rightarrow> None)"

definition dn_ht_entries :: "'a dn_ht option \<Rightarrow> int" where
  "dn_ht_entries ht = (case ht of None \<Rightarrow> 0 | Some ht \<Rightarrow> t_entries ht)"

section \<open>Lookup, insertion and removal\<close>

definition dn_ht_bucket :: "ptr \<Rightarrow> u32 \<Rightarrow> 'a \<Rightarrow> 'a dn_ht \<Rightarrow> nat" where
  "dn_ht_bucket key flags arg ht =
    (if t_buckets ht = 1 then 0 else unat (t_hash ht key flags arg AND word_of_int (t_buckets ht)))"

definition dn_ht_hit :: "ptr \<Rightarrow> u32 \<Rightarrow> 'a \<Rightarrow> 'a dn_ht \<Rightarrow> ptr \<Rightarrow> bool" where
  "dn_ht_hit key flags arg ht p =
    (if flags AND DNHT_MATCH_PTR \<noteq> 0 then key = p else t_match ht p key flags arg)"

definition dn_ht_find :: "'a dn_ht option \<Rightarrow> ptr \<Rightarrow> u32 \<Rightarrow> 'a \<Rightarrow> ptr \<times> 'a dn_ht option" where
  "dn_ht_find ht key flags arg =
    (case ht of
       None \<Rightarrow> (0, None)
     | Some ht \<Rightarrow>
         let i = dn_ht_bucket key flags arg ht;
             chain = t_ht ht ! i;
             miss = (\<lambda>p. \<not> dn_ht_hit key flags arg ht p)
         in case dropWhile miss chain of
              p # rest \<Rightarrow>
                if flags AND DNHT_REMOVE \<noteq> 0
                then (p, Some (ht\<lparr>t_ht := (t_ht ht)[i := takeWhile miss chain @ rest],
                                 t_entries := t_entries ht - 1\<rparr>))
                else (p, Some ht)
            | [] \<Rightarrow>
                if flags AND DNHT_INSERT \<noteq> 0
                then let p = (case t_newh ht of Some newh \<Rightarrow> newh key flags arg | None \<Rightarrow> key)
                     in if p \<noteq> 0
                        then (p, Some (ht\<lparr>t_entries := t_entries ht + 1, t_ht := (t_ht ht)[i := p # chain]\<rparr>))
                        else (p, Some ht)
                else (0, Some ht))"

section \<open>Scans\<close>

text \<open>One chain: the objects left, the number of those deleted, and whether the callback
  ended the scan.\<close>

fun dn_ht_scan_chain :: "(ptr \<Rightarrow> 's \<Rightarrow> u32 \<times> 's) \<Rightarrow> ptr list \<Rightarrow> 's \<Rightarrow> ptr list \<times> nat \<times> bool \<times> 's" where
  "dn_ht_scan_chain fn [] s = ([], 0, False, s)"
| "dn_ht_scan_chain fn (cur # next) s =
    (let (ret, s) = fn cur s; del = ret AND DNHT_SCAN_DEL \<noteq> 0 in
     if ret AND DNHT_SCAN_END \<noteq> 0
     then (if del then next else cur # next, if del then 1 else 0, True, s)
     else let (left, found, fin, s) = dn_ht_scan_chain fn next s
          in (if del then left else cur # left, if del then found + 1 else found, fin, s))"

fun dn_ht_scan_from :: "(ptr \<Rightarrow> 's \<Rightarrow> u32 \<times> 's) \<Rightarrow> nat list \<Rightarrow> nat \<Rightarrow> 'a dn_ht \<Rightarrow> 's \<Rightarrow> nat \<times> 'a dn_ht \<times> 's" where
  "dn_ht_scan_from fn [] found ht s = (found, ht, s)"
| "dn_ht_scan_from fn (i # is) found ht s =
    (let (left, n, fin, s) = dn_ht_scan_chain fn (t_ht ht ! i) s;
         ht = ht\<lparr>t_ht := (t_ht ht)[i := left], t_entries := t_entries ht - int n\<rparr>
     in if fin then (found + n, ht, s) else dn_ht_scan_from fn is (found + n) ht s)"

definition dn_ht_scan :: "(ptr \<Rightarrow> 's \<Rightarrow> u32 \<times> 's) option \<Rightarrow> 'a dn_ht option \<Rightarrow> 's \<Rightarrow> nat \<times> 'a dn_ht option \<times> 's" where
  "dn_ht_scan fn ht s =
    (case (ht, fn) of
       (Some ht, Some fn) \<Rightarrow>
         (case dn_ht_scan_from fn [0..<nat (t_buckets ht + 1)] 0 ht s of (found, ht, s) \<Rightarrow> (found, Some ht, s))
     | _ \<Rightarrow> (0, ht, s))"

text \<open>The bucket number is an in-out argument.\<close>

definition dn_ht_scan_bucket :: "(ptr \<Rightarrow> 's \<Rightarrow> u32 \<times> 's) option \<Rightarrow> 'a dn_ht option \<Rightarrow> int \<Rightarrow> 's
    \<Rightarrow> nat \<times> int \<times> 'a dn_ht option \<times> 's" where
  "dn_ht_scan_bucket fn ht bucket s =
    (case (ht, fn) of
       (Some ht, Some fn) \<Rightarrow>
         let bucket = (if bucket > t_buckets ht then 0 else bucket) in
         (case dn_ht_scan_from fn [nat bucket] 0 ht s of (found, ht, s) \<Rightarrow> (found, bucket, Some ht, s))
     | _ \<Rightarrow> (0, bucket, ht, s))"

definition do_del :: "ptr \<Rightarrow> unit \<Rightarrow> u32 \<times> unit" where
  "do_del obj s = (DNHT_SCAN_DEL, s)"

text \<open>The result \<open>None\<close> is a table that has been freed.\<close>

definition dn_ht_free :: "'a dn_ht option \<Rightarrow> u32 \<Rightarrow> 'a dn_ht option" where
  "dn_ht_free ht flags =
    (case ht of
       None \<Rightarrow> None
     | Some ht \<Rightarrow> if flags AND DNHT_REMOVE \<noteq> 0 then fst (snd (dn_ht_scan (Some do_del) (Some ht) ()))
                   else None)"

section \<open>The table as a map\<close>

definition new_object :: "ptr \<Rightarrow> u32 \<Rightarrow> 'a \<Rightarrow> 'a dn_ht \<Rightarrow> ptr" where
  "new_object k fl arg ht = (case t_newh ht of Some newh \<Rightarrow> newh k fl arg | None \<Rightarrow> k)"

text \<open>The callbacks identify an object by a key.\<close>

definition keyed :: "(ptr \<Rightarrow> ptr) \<Rightarrow> (ptr \<Rightarrow> nat) \<Rightarrow> 'a \<Rightarrow> 'a dn_ht \<Rightarrow> bool" where
  "keyed key_of bucket_of arg ht \<longleftrightarrow> (\<forall>p k fl. t_match ht p k fl arg \<longleftrightarrow> key_of p = k) \<and>
     (\<forall>k fl. dn_ht_bucket k fl arg ht = bucket_of k) \<and>
     (\<forall>k fl. key_of (new_object k fl arg ht) = k)"

definition ht_ok :: "(ptr \<Rightarrow> ptr) \<Rightarrow> (ptr \<Rightarrow> nat) \<Rightarrow> 'a dn_ht \<Rightarrow> bool" where
  "ht_ok key_of bucket_of ht \<longleftrightarrow> (\<forall>k. bucket_of k < length (t_ht ht)) \<and>
     (\<forall>i < length (t_ht ht). distinct (map key_of (t_ht ht ! i)) \<and>
       (\<forall>p \<in> set (t_ht ht ! i). p \<noteq> 0 \<and> bucket_of (key_of p) = i)) \<and>
     t_entries ht = int (sum_list (map length (t_ht ht)))"

definition ht_map :: "(ptr \<Rightarrow> ptr) \<Rightarrow> (ptr \<Rightarrow> nat) \<Rightarrow> 'a dn_ht \<Rightarrow> ptr \<Rightarrow> ptr option" where
  "ht_map key_of bucket_of ht k = find (\<lambda>p. key_of p = k) (t_ht ht ! bucket_of k)"


lemma find_app: "find P (xs @ ys) = (case find P xs of None \<Rightarrow> find P ys | Some x \<Rightarrow> Some x)"
  by (induction xs) auto

lemma find_split:
  assumes "find P xs = Some x"
  obtains as bs where "xs = as @ x # bs" "P x" "\<forall>y \<in> set as. \<not> P y"
    "takeWhile (\<lambda>y. \<not> P y) xs = as" "dropWhile (\<lambda>y. \<not> P y) xs = x # bs"
proof -
  have "\<exists>y \<in> set xs. P y" using assms by (metis find_None_iff option.distinct(1))
  then obtain as y bs where s: "xs = as @ y # bs" "P y" "\<forall>z \<in> set as. \<not> P z"
    using split_list_first_prop [of xs P] by blast
  then have "find P as = None" by (simp add: find_None_iff)
  then have "y = x" using assms s(1,2) by (simp add: find_app)
  then have "xs = as @ x # bs" "P x" "\<forall>y \<in> set as. \<not> P y" using s by simp_all
  then show ?thesis using that by (simp add: takeWhile_append dropWhile_append)
qed

lemma find_none_dropWhile: "find P xs = None \<Longrightarrow> dropWhile (\<lambda>y. \<not> P y) xs = []"
  by (simp add: find_None_iff dropWhile_eq_Nil_conv)

text \<open>Replacing one chain of a well-formed table.\<close>

lemma ht_ok_update:
  assumes "ht_ok key_of bucket_of ht" "i < length (t_ht ht)" "distinct (map key_of xs)"
    and "\<forall>p \<in> set xs. p \<noteq> 0 \<and> bucket_of (key_of p) = i"
    and "ht' = ht\<lparr>t_ht := (t_ht ht)[i := xs], t_entries := t_entries ht + int (length xs) - int (length (t_ht ht ! i))\<rparr>"
  shows "ht_ok key_of bucket_of ht'"
proof -
  have "sum_list ((map length (t_ht ht))[i := length xs]) + length (t_ht ht ! i) = sum_list (map length (t_ht ht)) + length xs"
    using sum_list_update [of i "map length (t_ht ht)" "length xs"] assms(2)
      member_le_sum_list [of "length (t_ht ht ! i)" "map length (t_ht ht)"] by simp
  then show ?thesis
    using assms by (auto simp: ht_ok_def nth_list_update map_update [symmetric] simp flip: of_nat_add)
qed

lemma ht_map_update:
  assumes "ht_ok key_of bucket_of ht" "i < length (t_ht ht)" "t_ht ht' = (t_ht ht)[i := xs]"
    and "\<And>k'. bucket_of k' = i \<Longrightarrow> k' \<noteq> k \<Longrightarrow> find (\<lambda>p. key_of p = k') xs = find (\<lambda>p. key_of p = k') (t_ht ht ! i)"
    and "bucket_of k = i"
  shows "ht_map key_of bucket_of ht' = (ht_map key_of bucket_of ht)(k := find (\<lambda>p. key_of p = k) xs)"
proof (rule ext)
  fix k' show "ht_map key_of bucket_of ht' k' =
      ((ht_map key_of bucket_of ht)(k := find (\<lambda>p. key_of p = k) xs)) k'"
    using assms by (cases "bucket_of k' = i") (auto simp: ht_map_def nth_list_update)
qed


lemma keyed_fields:
  assumes "keyed key_of bucket_of arg ht" "t_match ht' = t_match ht" "t_hash ht' = t_hash ht" "t_newh ht' = t_newh ht"
    "t_buckets ht' = t_buckets ht"
  shows "keyed key_of bucket_of arg ht'"
proof -
  have "dn_ht_bucket k fl arg ht' = dn_ht_bucket k fl arg ht" "new_object k fl arg ht' = new_object k fl arg ht" for k fl
    using assms by (simp_all add: dn_ht_bucket_def new_object_def)
  then show ?thesis using assms by (simp add: keyed_def)
qed

lemma keyed_hit:
  "keyed key_of bucket_of arg ht \<Longrightarrow> flags AND DNHT_MATCH_PTR = 0 \<Longrightarrow>
    dn_ht_hit k flags arg ht = (\<lambda>p. key_of p = k) \<and> dn_ht_bucket k flags arg ht = bucket_of k"
  by (auto simp: keyed_def dn_ht_hit_def)

lemma dn_ht_find_hit:
  assumes "keyed key_of bucket_of arg ht" "ht_ok key_of bucket_of ht" "flags AND DNHT_MATCH_PTR = 0"
    and "ht_map key_of bucket_of ht k = Some p"
  shows "flags AND DNHT_REMOVE = 0 \<Longrightarrow> dn_ht_find (Some ht) k flags arg = (p, Some ht)"
    and "flags AND DNHT_REMOVE \<noteq> 0 \<Longrightarrow> \<exists>ht'. dn_ht_find (Some ht) k flags arg = (p, Some ht') \<and>
      keyed key_of bucket_of arg ht' \<and> ht_ok key_of bucket_of ht' \<and>
      ht_map key_of bucket_of ht' = (ht_map key_of bucket_of ht)(k := None) \<and> t_entries ht' = t_entries ht - 1"
proof -
  let ?i = "bucket_of k" and ?miss = "\<lambda>q. key_of q \<noteq> k"
  let ?c = "t_ht ht ! ?i"
  note kh = keyed_hit [OF assms(1,3), of k]
  have i: "?i < length (t_ht ht)" using assms(2) by (simp add: ht_ok_def)
  obtain as bs where c: "?c = as @ p # bs" "key_of p = k" "takeWhile ?miss ?c = as" "dropWhile ?miss ?c = p # bs"
    by (rule find_split [OF assms(4) [unfolded ht_map_def]])
  have d: "distinct (map key_of ?c)" and b: "\<forall>q \<in> set ?c. q \<noteq> 0 \<and> bucket_of (key_of q) = ?i"
    using assms(2) i by (auto simp: ht_ok_def)
  show "flags AND DNHT_REMOVE = 0 \<Longrightarrow> dn_ht_find (Some ht) k flags arg = (p, Some ht)"
    using c(4) kh by (simp add: dn_ht_find_def Let_def)
  let ?ht = "ht\<lparr>t_ht := (t_ht ht)[?i := as @ bs], t_entries := t_entries ht - 1\<rparr>"
  have ok: "ht_ok key_of bucket_of ?ht"
    by (rule ht_ok_update [OF assms(2) i, of "as @ bs"]) (use d b c(1) in auto)
  have "find (\<lambda>q. key_of q = k) (as @ bs) = None"
    using d c(1,2) by (auto simp: find_None_iff image_iff)
  moreover have "find (\<lambda>q. key_of q = k') (as @ bs) = find (\<lambda>q. key_of q = k') ?c" if "k' \<noteq> k" for k'
    using that c(1,2) by (auto simp: find_app split: option.splits)
  ultimately have "ht_map key_of bucket_of ?ht = (ht_map key_of bucket_of ht)(k := None)"
    using ht_map_update [OF assms(2) i, of ?ht "as @ bs" k] by simp
  then show "flags AND DNHT_REMOVE \<noteq> 0 \<Longrightarrow> \<exists>ht'. dn_ht_find (Some ht) k flags arg = (p, Some ht') \<and>
      keyed key_of bucket_of arg ht' \<and> ht_ok key_of bucket_of ht' \<and>
      ht_map key_of bucket_of ht' = (ht_map key_of bucket_of ht)(k := None) \<and> t_entries ht' = t_entries ht - 1"
    using ok c(3,4) kh keyed_fields [OF assms(1), of ?ht]
    by (intro exI [of _ ?ht]) (simp add: dn_ht_find_def Let_def)
qed

lemma dn_ht_find_miss:
  assumes "keyed key_of bucket_of arg ht" "ht_ok key_of bucket_of ht" "flags AND DNHT_MATCH_PTR = 0"
    and "ht_map key_of bucket_of ht k = None" "p = new_object k flags arg ht"
  shows "flags AND DNHT_INSERT = 0 \<Longrightarrow> dn_ht_find (Some ht) k flags arg = (0, Some ht)"
    and "p = 0 \<Longrightarrow> dn_ht_find (Some ht) k flags arg = (0, Some ht)"
    and "flags AND DNHT_INSERT \<noteq> 0 \<Longrightarrow> p \<noteq> 0 \<Longrightarrow> \<exists>ht'. dn_ht_find (Some ht) k flags arg = (p, Some ht') \<and>
      keyed key_of bucket_of arg ht' \<and> ht_ok key_of bucket_of ht' \<and>
      ht_map key_of bucket_of ht' = (ht_map key_of bucket_of ht)(k \<mapsto> p) \<and> t_entries ht' = t_entries ht + 1"
proof -
  let ?i = "bucket_of k"
  let ?c = "t_ht ht ! ?i"
  note kh = keyed_hit [OF assms(1,3), of k]
  have i: "?i < length (t_ht ht)" using assms(2) by (simp add: ht_ok_def)
  note m = find_none_dropWhile [OF assms(4) [unfolded ht_map_def]]
  have new: "key_of p = k" using assms(1,5) by (simp add: keyed_def)
  have d: "distinct (map key_of ?c)" and b: "\<forall>q \<in> set ?c. q \<noteq> 0 \<and> bucket_of (key_of q) = ?i"
    using assms(2) i by (auto simp: ht_ok_def)
  show "flags AND DNHT_INSERT = 0 \<Longrightarrow> dn_ht_find (Some ht) k flags arg = (0, Some ht)"
    "p = 0 \<Longrightarrow> dn_ht_find (Some ht) k flags arg = (0, Some ht)"
    using kh assms(5) by (simp_all add: dn_ht_find_def Let_def new_object_def m)
  assume f: "flags AND DNHT_INSERT \<noteq> 0" "p \<noteq> 0"
  let ?ht = "ht\<lparr>t_ht := (t_ht ht)[?i := p # ?c], t_entries := t_entries ht + 1\<rparr>"
  have "k \<notin> key_of ` set ?c" using assms(4) by (auto simp: ht_map_def find_None_iff)
  then have ok: "ht_ok key_of bucket_of ?ht"
    by (intro ht_ok_update [OF assms(2) i, of "p # ?c"]) (use d b new f(2) in auto)
  have "ht_map key_of bucket_of ?ht = (ht_map key_of bucket_of ht)(k \<mapsto> p)"
    using ht_map_update [OF assms(2) i, of ?ht "p # ?c" k] new by simp
  then show "\<exists>ht'. dn_ht_find (Some ht) k flags arg = (p, Some ht') \<and>
      keyed key_of bucket_of arg ht' \<and> ht_ok key_of bucket_of ht' \<and>
      ht_map key_of bucket_of ht' = (ht_map key_of bucket_of ht)(k \<mapsto> p) \<and> t_entries ht' = t_entries ht + 1"
    using ok kh f keyed_fields [OF assms(1), of ?ht] assms(5)
    by (intro exI [of _ ?ht]) (simp add: dn_ht_find_def Let_def new_object_def m)
qed


section \<open>Properties\<close>

text \<open>C26: inserting an absent key creates an object that a lookup then finds, without
  disturbing the other keys; removing it again returns the object and restores the
  table's contents and its count of entries.\<close>

theorem dn_ht_roundtrip:
  assumes "keyed key_of bucket_of arg ht" "ht_ok key_of bucket_of ht" "ht_map key_of bucket_of ht k = None"
    and "p = new_object k DNHT_INSERT arg ht" "p \<noteq> 0"
  shows "\<exists>ht1 ht2. dn_ht_find (Some ht) k DNHT_INSERT arg = (p, Some ht1) \<and>
    ht_ok key_of bucket_of ht1 \<and> (\<forall>k'. k' \<noteq> k \<longrightarrow> ht_map key_of bucket_of ht1 k' = ht_map key_of bucket_of ht k') \<and>
    dn_ht_find (Some ht1) k 0 arg = (p, Some ht1) \<and>
    dn_ht_find (Some ht1) k DNHT_REMOVE arg = (p, Some ht2) \<and> ht_ok key_of bucket_of ht2 \<and>
    ht_map key_of bucket_of ht2 = ht_map key_of bucket_of ht \<and> t_entries ht2 = t_entries ht"
proof -
  obtain ht1 where h1: "dn_ht_find (Some ht) k DNHT_INSERT arg = (p, Some ht1)" "keyed key_of bucket_of arg ht1"
    "ht_ok key_of bucket_of ht1" "ht_map key_of bucket_of ht1 = (ht_map key_of bucket_of ht)(k \<mapsto> p)"
    "t_entries ht1 = t_entries ht + 1"
    using dn_ht_find_miss(3) [OF assms(1,2) _ assms(3,4)] assms(5) by (auto simp: dnht_flags)
  have m: "ht_map key_of bucket_of ht1 k = Some p" using h1(4) by simp
  obtain ht2 where h2: "dn_ht_find (Some ht1) k DNHT_REMOVE arg = (p, Some ht2)" "ht_ok key_of bucket_of ht2"
    "ht_map key_of bucket_of ht2 = (ht_map key_of bucket_of ht1)(k := None)" "t_entries ht2 = t_entries ht1 - 1"
    using dn_ht_find_hit(2) [OF h1(2,3) _ m, of DNHT_REMOVE] by (auto simp: dnht_flags)
  have "dn_ht_find (Some ht1) k 0 arg = (p, Some ht1)"
    using dn_ht_find_hit(1) [OF h1(2,3) _ m] by simp
  moreover have "ht_map key_of bucket_of ht2 = ht_map key_of bucket_of ht"
    using h2(3) h1(4) assms(3) by (simp add: fun_upd_idem)
  ultimately show ?thesis using h1 h2 by (intro exI [of _ ht1] exI [of _ ht2]) simp
qed

definition ht_sample :: "unit dn_ht" where
  "ht_sample = \<lparr>t_buckets = 3, t_entries = 0, t_ofs = 0, t_hash = (\<lambda>k fl a. ucast k),
     t_match = (\<lambda>p k fl a. p = k), t_newh = None, t_ht = [[], [], [], []]\<rparr>"

definition sample_bucket :: "ptr \<Rightarrow> nat" where
  "sample_bucket k = unat (ucast k AND (3 :: u32))"

text \<open>Witness of C26: the key 5 in a table of four buckets.\<close>

theorem dn_ht_roundtrip_witness:
  "\<exists>ht1 ht2. dn_ht_find (Some ht_sample) 5 DNHT_INSERT () = (5, Some ht1) \<and>
    dn_ht_find (Some ht1) 5 0 () = (5, Some ht1) \<and>
    dn_ht_find (Some ht1) 5 DNHT_REMOVE () = (5, Some ht2) \<and> t_entries ht2 = 0"
proof -
  have "sample_bucket k < 4" for k
  proof -
    have "(ucast k AND (3 :: u32)) \<le> 3" by (rule word_and_le1)
    then show ?thesis by (simp add: sample_bucket_def word_le_nat_alt)
  qed
  then have "ht_ok (\<lambda>p. p) sample_bucket ht_sample"
    by (auto simp: ht_ok_def ht_sample_def nth_Cons' eval_nat_numeral)
  moreover have "keyed (\<lambda>p. p) sample_bucket () ht_sample"
    by (simp add: keyed_def ht_sample_def dn_ht_bucket_def new_object_def sample_bucket_def)
  moreover have "ht_map (\<lambda>p. p) sample_bucket ht_sample 5 = None"
    using calculation(1) by (simp add: ht_map_def ht_sample_def sample_bucket_def)
  moreover have "(5 :: ptr) = new_object 5 DNHT_INSERT () ht_sample" "(5 :: ptr) \<noteq> 0" "t_entries ht_sample = 0"
    by (simp_all add: new_object_def ht_sample_def)
  ultimately show ?thesis using dn_ht_roundtrip [of "\<lambda>p. p" sample_bucket "()" ht_sample 5 5] by auto
qed

end
