(* ===== verification/Dn_Sched.thy ===== *)
theory Dn_Sched
  imports Prelude
begin

text \<open>
  What the packet schedulers share: packets, flow queues and their statistics
  (\<open>sched16/sched16.h\<close>, \<open>sched16/dn_sched.h\<close>, \<open>sched16/dn_test.h\<close>,
  \<open>sched16/test_dn_sched.c\<close>), the FIFO scheduler (\<open>sched16/dn_sched_fifo.c\<close>), and the
  contract of a packet scheduler.

  A queue of packets linked through \<open>m_nextpkt\<close> is the list of the packets; a packet
  carries its own address, which is what the code compares.  The queues of the flows are
  an array, and a pointer to a queue is its index (\<open>FI2Q\<close>).
\<close>

section \<open>Packets and queues\<close>

record mbuf =
  m_addr :: u64
  m_iov_base :: u64
  m_iov_len :: u64
  m_be :: u64
  m_txq :: u64
  m_idx :: u64
  m_flow_id :: u16

record dn_flow =
  tot_pkts :: u64
  tot_bytes :: u64
  fl_length :: u32
  len_bytes :: u32
  fl_drops :: u32
  fl_bytes :: u64
  sch_bytes :: u64

record dn_fs =
  par0 :: int
  par1 :: int
  fs_index :: int
  fs_n_flows :: int
  first_flow :: int
  next_flow :: int
  fs_cur :: int
  fs_y :: int
  base_y :: int
  next_y :: int

text \<open>\<open>q_si\<close> says whether the queue is linked to a scheduler instance; \<open>q_fs\<close> is the index of
  its flowset, \<open>None\<close> for the null pointer.\<close>

record dn_queue =
  q_ni :: dn_flow
  q_mq :: "mbuf list"
  mq_count :: u32
  q_si :: bool
  q_fs :: "nat option"
  q_time :: u64

record 'q dn_sch_inst =
  si_ni :: dn_flow
  si_q :: "'q list"
  si_fs :: "dn_fs list"

text \<open>\<open>dn_cfg\<close> is a zero-initialised global whose time is never written.\<close>

definition curr_time :: u64 where "curr_time = 0"

definition mq_append :: "mbuf \<Rightarrow> ('a) dn_queue_scheme \<Rightarrow> 'a dn_queue_scheme" where
  "mq_append m q = q\<lparr>q_mq := q_mq q @ [m]\<rparr>"

definition mq_peek :: "'a dn_queue_scheme \<Rightarrow> mbuf option" where
  "mq_peek q = (case q_mq q of [] \<Rightarrow> None | m # _ \<Rightarrow> Some m)"

definition mq_dequeue :: "'a dn_queue_scheme \<Rightarrow> mbuf option \<times> 'a dn_queue_scheme" where
  "mq_dequeue q = (case mq_peek q of
       None \<Rightarrow> (None, q)
     | Some m \<Rightarrow> (Some m, q\<lparr>q_mq := tl (q_mq q), mq_count := mq_count q - 1\<rparr>))"

text \<open>The test \<open>m == q->mq.head\<close>.\<close>

definition is_mq_head :: "mbuf \<Rightarrow> 'a dn_queue_scheme \<Rightarrow> bool" where
  "is_mq_head m q = (case mq_peek q of None \<Rightarrow> False | Some h \<Rightarrow> m_addr h = m_addr m)"

definition dn_queue_max :: u32 where "dn_queue_max = 20000"

text \<open>The first component is the result: true when the packet is dropped.\<close>

definition dn_enqueue :: "mbuf \<Rightarrow> bool \<Rightarrow> 'a dn_queue_scheme \<Rightarrow> bool \<times> 'a dn_queue_scheme" where
  "dn_enqueue m dropped q =
    (if dropped \<or> fl_length (q_ni q) \<ge> dn_queue_max
     then (True, q\<lparr>q_ni := (q_ni q)\<lparr>fl_drops := fl_drops (q_ni q) + 1\<rparr>\<rparr>)
     else let q = mq_append m q in
       (False, q\<lparr>q_ni := (q_ni q)\<lparr>fl_length := fl_length (q_ni q) + 1,
          tot_bytes := tot_bytes (q_ni q) + m_iov_len m, tot_pkts := tot_pkts (q_ni q) + 1\<rparr>\<rparr>))"

definition flow_deq :: "mbuf \<Rightarrow> dn_flow \<Rightarrow> dn_flow" where
  "flow_deq m ni = ni\<lparr>fl_length := fl_length ni - 1, len_bytes := len_bytes ni - ucast (m_iov_len m)\<rparr>"

text \<open>The statistics of the queue and of its scheduler instance.\<close>

definition dn_dequeue :: "'a dn_queue_scheme \<Rightarrow> dn_flow \<Rightarrow> mbuf option \<times> 'a dn_queue_scheme \<times> dn_flow" where
  "dn_dequeue q si =
    (case mq_dequeue q of
       (None, q) \<Rightarrow> (None, q, si)
     | (Some m, q) \<Rightarrow>
         let q = q\<lparr>q_ni := flow_deq m (q_ni q)\<rparr>;
             si = (if q_si q then flow_deq m si else si);
             q = (if fl_length (q_ni q) = 0 then q\<lparr>q_time := curr_time\<rparr> else q)
         in (Some m, q, si))"

definition ipdn_bound_var :: "int \<Rightarrow> int \<Rightarrow> int \<Rightarrow> int \<Rightarrow> int" where
  "ipdn_bound_var v dflt lo hi = (if v < lo then dflt else if v > hi then hi else v)"

text \<open>The index of the queue of a packet.\<close>

definition flow_id :: "mbuf \<Rightarrow> nat" where "flow_id m = unat (m_flow_id m)"

text \<open>Operations on the queue with index \<open>i\<close>.\<close>

definition upd_q :: "nat \<Rightarrow> ('q \<Rightarrow> 'q) \<Rightarrow> ('q, 'z) dn_sch_inst_scheme \<Rightarrow> ('q, 'z) dn_sch_inst_scheme" where
  "upd_q i f s = s\<lparr>si_q := (si_q s)[i := f (si_q s ! i)]\<rparr>"

definition si_dequeue :: "nat \<Rightarrow> ('a dn_queue_scheme, 'z) dn_sch_inst_scheme
    \<Rightarrow> mbuf option \<times> ('a dn_queue_scheme, 'z) dn_sch_inst_scheme" where
  "si_dequeue i s = (case dn_dequeue (si_q s ! i) (si_ni s) of
     (m, q, ni) \<Rightarrow> (m, s\<lparr>si_ni := ni, si_q := (si_q s)[i := q]\<rparr>))"

definition zero_flow :: dn_flow where
  "zero_flow = \<lparr>tot_pkts = 0, tot_bytes = 0, fl_length = 0, len_bytes = 0, fl_drops = 0,
     fl_bytes = 0, sch_bytes = 0\<rparr>"

definition zero_queue :: dn_queue where
  "zero_queue = \<lparr>q_ni = zero_flow, q_mq = [], mq_count = 0, q_si = False, q_fs = None, q_time = 0\<rparr>"

section \<open>The FIFO scheduler\<close>

text \<open>The only queue in use is a part of the scheduler instance.\<close>

record fifo_si = "dn_queue dn_sch_inst" +
  fifo_q :: dn_queue

definition fifo_enqueue :: "nat \<Rightarrow> mbuf \<Rightarrow> fifo_si \<Rightarrow> bool \<times> fifo_si" where
  "fifo_enqueue q m s = (case dn_enqueue m False (fifo_q s) of (r, q) \<Rightarrow> (r, s\<lparr>fifo_q := q\<rparr>))"

definition fifo_dequeue :: "fifo_si \<Rightarrow> (mbuf option \<times> fifo_si) option" where
  "fifo_dequeue s = (case dn_dequeue (fifo_q s) (si_ni s) of
     (m, q, ni) \<Rightarrow> Some (m, s\<lparr>si_ni := ni, fifo_q := q\<rparr>))"

text \<open>The flowset of the scheduler template is a null pointer: no code sets it.\<close>

definition fifo_new_sched :: "fifo_si \<Rightarrow> fifo_si" where
  "fifo_new_sched s = s\<lparr>fifo_q := (fifo_q s)\<lparr>q_si := True, q_fs := None\<rparr>\<rparr>"

definition fifo_free_sched :: "fifo_si \<Rightarrow> fifo_si" where
  "fifo_free_sched s = s\<lparr>fifo_q := zero_queue\<rparr>"

end
