(* ===== verification/Sched_Flowsets.thy ===== *)
theory Sched_Flowsets
  imports Dn_Sched "HOL-Library.Signed_Division"
begin

text \<open>
  The configuration of a scheduler from its command line (\<open>sched16/sched_main.c\<close>):
  numbers with a suffix, the list of flowsets, and the options of \<open>init\<close>.

  An \<open>int\<close> is an integer with its wrap-around at 32 bits written out, a \<open>long\<close> one at 64
  bits.  The value \<open>None\<close> of an operation is a trap of the division instruction.
\<close>

definition i32 :: "int \<Rightarrow> int" where "i32 x = sint (word_of_int x :: u32)"
definition i64 :: "int \<Rightarrow> int" where "i64 x = sint (word_of_int x :: u64)"

section \<open>Numbers\<close>

text \<open>The library functions \<open>isspace\<close> and \<open>strtol\<close> in base 0: the number and what follows it.\<close>

definition isspace :: "char \<Rightarrow> bool" where
  "isspace c \<longleftrightarrow> c = CHR '' '' \<or> (9 \<le> (of_char c :: nat) \<and> (of_char c :: nat) \<le> 13)"

definition digit_val :: "char \<Rightarrow> nat" where
  "digit_val c =
    (let n = of_char c :: nat in
     if 48 \<le> n \<and> n \<le> 57 then n - 48
     else if 97 \<le> n \<and> n \<le> 122 then n - 87
     else if 65 \<le> n \<and> n \<le> 90 then n - 55
     else 99)"

fun strtol_digits :: "nat \<Rightarrow> nat \<Rightarrow> string \<Rightarrow> nat \<times> string" where
  "strtol_digits base acc [] = (acc, [])"
| "strtol_digits base acc (c # cs) =
    (if digit_val c < base then strtol_digits base (acc * base + digit_val c) cs else (acc, c # cs))"

definition strtol_base :: "string \<Rightarrow> nat \<times> string" where
  "strtol_base t =
    (case t of
       z # x # d # _ \<Rightarrow>
         if z = CHR ''0'' \<and> (x = CHR ''x'' \<or> x = CHR ''X'') \<and> digit_val d < 16 then (16, drop 2 t)
         else (if z = CHR ''0'' then 8 else 10, t)
     | z # _ \<Rightarrow> (if z = CHR ''0'' then 8 else 10, t)
     | [] \<Rightarrow> (10, t))"

definition strtol :: "string \<Rightarrow> int \<times> string" where
  "strtol s =
    (let t = dropWhile isspace s;
         neg = (t \<noteq> [] \<and> hd t = CHR ''-'');
         t = (if t \<noteq> [] \<and> (hd t = CHR ''-'' \<or> hd t = CHR ''+'') then tl t else t);
         (base, t) = strtol_base t
     in if t = [] \<or> \<not> digit_val (hd t) < base then (0, s)
        else case strtol_digits base 0 t of (n, e) \<Rightarrow>
          let l = (if neg then - int n else int n)
          in (max (- (2 ^ 63)) (min (2 ^ 63 - 1) l), e))"

text \<open>The second component is what \<open>getnum\<close> stores in \<open>*next\<close>.\<close>

definition getnum_suffix :: "int \<Rightarrow> string \<Rightarrow> int \<times> string" where
  "getnum_suffix l e =
    (if hd e = CHR ''n'' then (i64 (- l), tl e)
     else if hd e = CHR ''K'' then (i64 (l * 1000), tl e)
     else if hd e = CHR ''M'' then (i64 (l * 1000000), tl e)
     else if hd e = CHR ''k'' then (i64 (l * 1024), tl e)
     else if hd e = CHR ''m'' then (i64 (l * 1024 * 1024), tl e)
     else if hd e = CHR ''w'' then (l, tl e)
     else (l, e))"

definition getnum :: "string option \<Rightarrow> int \<times> string option" where
  "getnum s =
    (case s of
       None \<Rightarrow> (0, None)
     | Some s \<Rightarrow>
         if s = [] then (0, None)
         else case strtol s of (l, e) \<Rightarrow>
           if l < 0 then (0, None)
           else if e = [] then (l, None)
           else case getnum_suffix l e of (l, e) \<Rightarrow> (l, if e = [] then None else Some e))"

text \<open>The result as an \<open>int\<close>.\<close>

definition getint :: "string option \<Rightarrow> int \<times> string option" where
  "getint s = (case getnum s of (l, p) \<Rightarrow> (i32 l, p))"

section \<open>Flowsets\<close>

text \<open>\<open>strsep\<close> with one separator: the token and what is left.\<close>

definition strsep :: "char \<Rightarrow> string option \<Rightarrow> string option \<times> string option" where
  "strsep d s =
    (case s of
       None \<Rightarrow> (None, None)
     | Some s \<Rightarrow> (Some (takeWhile (\<lambda>c. c \<noteq> d) s),
         case dropWhile (\<lambda>c. c \<noteq> d) s of [] \<Rightarrow> None | _ # r \<Rightarrow> Some r))"

text \<open>The numbers of one entry \<open>weight:maxlen:flows\<close>.\<close>

record flowspec =
  fw :: int
  fw_h :: int
  fw_steps :: int
  flen :: int
  flen_h :: int
  fl_steps :: int
  fflows :: int

text \<open>A range \<open>low-high-steps\<close>, with the default for the low end.\<close>

definition parse_range :: "int \<Rightarrow> string option \<Rightarrow> int \<times> int \<times> int" where
  "parse_range dflt t =
    (let (w, p) = getint t;
         w = (if w \<le> 0 then dflt else w);
         (w_h, p) = (case p of None \<Rightarrow> (w, None) | Some p \<Rightarrow> getint (Some (tl p)));
         (steps, p) = (case p of None \<Rightarrow> (if w_h = w then 1 else 2, None) | Some p \<Rightarrow> getint (Some (tl p)))
     in (w, w_h, steps))"

definition parse_entry :: "string \<Rightarrow> flowspec" where
  "parse_entry cur =
    (let (t, cur) = strsep (CHR '':'') (Some cur);
         (w, w_h, w_steps) = parse_range 1 t;
         (t, cur) = strsep (CHR '':'') cur;
         (len, len_h, l_steps) = parse_range 1000 t;
         (t, cur) = strsep (CHR '':'') cur;
         flows = fst (getint t);
         flows = (if flows = 0 then 1 else flows)
     in \<lparr>fw = w, fw_h = w_h, fw_steps = w_steps, flen = len, flen_h = len_h, fl_steps = l_steps, fflows = flows\<rparr>)"

definition wrong_entry :: "flowspec \<Rightarrow> bool" where
  "wrong_entry f \<longleftrightarrow> fw f = 0 \<or> fw_h f < fw f \<or> flen f = 0 \<or> flen_h f < flen f \<or> fflows f = 0"

text \<open>The local variables of \<open>parse_flowsets\<close> and the array of flowsets.  \<open>ps_prev\<close> is a copy
  of what \<open>prev\<close> points to.\<close>

record parse_state =
  ps_flows :: int
  ps_fs :: nat
  ps_wsum :: int
  ps_prev :: "dn_fs option"
  ps_arr :: "dn_fs list"

text \<open>The \<open>i\<close>-th of \<open>n\<close> steps between \<open>lo\<close> and \<open>hi\<close>.\<close>

definition range_step :: "int \<Rightarrow> int \<Rightarrow> int \<Rightarrow> nat \<Rightarrow> int" where
  "range_step lo hi n i = i32 (lo + i32 (i32 (hi - lo) * int i) sdiv (if n = 1 then 1 else n - 1))"

definition fill_fs :: "nat \<Rightarrow> int \<Rightarrow> int \<Rightarrow> int \<Rightarrow> int \<Rightarrow> dn_fs option \<Rightarrow> dn_fs \<Rightarrow> dn_fs" where
  "fill_fs n wi li x flows prev fs =
    (let first = (case prev of None \<Rightarrow> 0 | Some p \<Rightarrow> next_flow p);
         base = (case prev of None \<Rightarrow> 0 | Some p \<Rightarrow> next_y p);
         y = i32 (x * flows)
     in fs\<lparr>par0 := wi, par1 := li, fs_index := int n, fs_n_flows := flows, fs_cur := first, first_flow := first,
          next_flow := i32 (first + flows), fs_y := y, base_y := base, next_y := i32 (base + y)\<rparr>)"

text \<open>The division of \<open>a\<close> by \<open>b\<close> traps.\<close>

definition div_traps :: "int \<Rightarrow> int \<Rightarrow> bool" where
  "div_traps a b \<longleftrightarrow> b = 0 \<or> (a = - (2 ^ 31) \<and> b = -1)"

text \<open>The body of the inner loop.  The flag is false when the function returns early.\<close>

definition ps_cell :: "bool \<Rightarrow> int \<Rightarrow> flowspec \<Rightarrow> nat \<times> nat \<Rightarrow> parse_state \<Rightarrow> (bool \<times> parse_state) option" where
  "ps_cell pass flowsets f ij st =
    (let wi = range_step (fw f) (fw_h f) (fw_steps f) (fst ij);
         li = range_step (flen f) (flen_h f) (fl_steps f) (snd ij);
         n = ps_fs st
     in if div_traps (i32 (wi * 2048)) li then None
        else if \<not> pass then Some (True, st\<lparr>ps_fs := n + 1\<rparr>)
        else if flowsets \<le> int n then Some (False, st)
        else
          let fs = fill_fs n wi li (i32 (wi * 2048) sdiv li) (fflows f) (ps_prev st) (ps_arr st ! n)
          in Some (True, st\<lparr>ps_wsum := i32 (ps_wsum st + wi * fflows f), ps_arr := (ps_arr st)[n := fs],
               ps_prev := Some fs, ps_fs := n + 1\<rparr>))"

fun ps_cells :: "bool \<Rightarrow> int \<Rightarrow> flowspec \<Rightarrow> (nat \<times> nat) list \<Rightarrow> parse_state \<Rightarrow> (bool \<times> parse_state) option" where
  "ps_cells pass flowsets f [] st = Some (True, st)"
| "ps_cells pass flowsets f (ij # ijs) st =
    (case ps_cell pass flowsets f ij st of
       None \<Rightarrow> None
     | Some (go, st) \<Rightarrow> if go then ps_cells pass flowsets f ijs st else Some (False, st))"

definition entry_cells :: "flowspec \<Rightarrow> (nat \<times> nat) list" where
  "entry_cells f = List.product [0..<nat (fw_steps f)] [0..<nat (fl_steps f)]"

definition ps_entry :: "bool \<Rightarrow> int \<Rightarrow> string \<Rightarrow> parse_state \<Rightarrow> (bool \<times> parse_state) option" where
  "ps_entry pass flowsets cur st =
    (let f = parse_entry cur in
     if wrong_entry f then Some (False, st)
     else ps_cells pass flowsets f (entry_cells f)
       (st\<lparr>ps_flows := i32 (ps_flows st + fflows f * fw_steps f * fl_steps f)\<rparr>))"

text \<open>The loop over the comma-separated entries.\<close>

function ps_loop :: "bool \<Rightarrow> int \<Rightarrow> string option \<Rightarrow> parse_state \<Rightarrow> (bool \<times> parse_state) option" where
  "ps_loop pass flowsets next st =
    (case strsep (CHR '','') next of
       (None, _) \<Rightarrow> Some (True, st)
     | (Some cur, next) \<Rightarrow>
         (case ps_entry pass flowsets cur st of
            None \<Rightarrow> None
          | Some (go, st) \<Rightarrow> if go then ps_loop pass flowsets next st else Some (False, st)))"
  by pat_completeness auto

lemma strsep_shorter:
  assumes "strsep d s = (Some t, r)"
  shows "(case r of None \<Rightarrow> 0 | Some x \<Rightarrow> Suc (length x)) < (case s of None \<Rightarrow> 0 | Some x \<Rightarrow> Suc (length x))"
proof -
  obtain x where x: "s = Some x" using assms by (cases s) (auto simp: strsep_def)
  show ?thesis
  proof (cases "dropWhile (\<lambda>c. c \<noteq> d) x")
    case (Cons c y)
    have "length (dropWhile (\<lambda>c. c \<noteq> d) x) \<le> length x" by (rule length_dropWhile_le)
    then show ?thesis using assms x Cons by (auto simp: strsep_def)
  next
    case Nil
    have "r = None" using assms unfolding x strsep_def by (simp add: Nil del: dropWhile_eq_Nil_conv)
    then show ?thesis using x by simp
  qed
qed

termination ps_loop
  by (relation "measure (\<lambda>(_, _, s, _). case s of None \<Rightarrow> 0 | Some x \<Rightarrow> Suc (length x))") (auto dest: strsep_shorter [OF sym])

declare ps_loop.simps [simp del]

text \<open>The start of the function.\<close>

definition parse_start :: "dn_fs list \<Rightarrow> parse_state" where
  "parse_start arr = \<lparr>ps_flows = 0, ps_fs = 0, ps_wsum = 0, ps_prev = None, ps_arr = arr\<rparr>"

section \<open>Options\<close>

datatype sched_alg = Alg_null | Alg_rr | Alg_wf2qp | Alg_fifo | Alg_qfq

record cfg_opts =
  o_loops :: int
  o_th_min :: int
  o_th_max :: int
  o_lmin :: int
  o_lmax :: int
  o_flows :: int
  o_flowsets :: int
  o_wsum :: int
  o_fs_config :: "string option"
  o_alg :: sched_alg
  o_shm_name :: "string option"

text \<open>The first pass counts flowsets and flows.\<close>

definition parse_flowsets_count :: "string \<Rightarrow> cfg_opts \<Rightarrow> cfg_opts option" where
  "parse_flowsets_count fs c = do {
     let c = c\<lparr>o_fs_config := Some fs\<rparr>;
     (done, st) \<leftarrow> ps_loop False (o_flowsets c) (Some fs) (parse_start []);
     Some (if done then c\<lparr>o_flows := ps_flows st, o_flowsets := int (ps_fs st), o_wsum := ps_wsum st\<rparr> else c) }"

text \<open>The option \<open>-d\<close> sets the level of the debug messages.\<close>

definition init_option :: "string \<Rightarrow> string \<Rightarrow> cfg_opts \<Rightarrow> cfg_opts option" where
  "init_option a v c =
    (let n = fst (getint (Some v)) in
     if a = ''-n'' then Some (c\<lparr>o_loops := n\<rparr>)
     else if a = ''-alg'' then Some (c\<lparr>o_alg :=
       (if v = ''rr'' then Alg_rr else if v = ''wf2qp'' then Alg_wf2qp
        else if v = ''fifo'' then Alg_fifo else if v = ''qfq'' then Alg_qfq else Alg_null)\<rparr>)
     else if a = ''-len'' then Some (c\<lparr>o_lmin := n, o_lmax := n\<rparr>)
     else if a = ''-qmax'' then Some (c\<lparr>o_th_max := n\<rparr>)
     else if a = ''-qmin'' then Some (c\<lparr>o_th_min := n\<rparr>)
     else if a = ''-flows'' then Some (c\<lparr>o_flows := n\<rparr>)
     else if a = ''-flowsets'' then parse_flowsets_count v c
     else if a = ''-shmem'' then Some (c\<lparr>o_shm_name := Some v\<rparr>)
     else Some c)"

fun init_options :: "string list \<Rightarrow> cfg_opts \<Rightarrow> cfg_opts option" where
  "init_options (a # v # av) c = do { c \<leftarrow> init_option a v c; init_options av c }"
| "init_options av c = Some c"

definition default_opts :: cfg_opts where
  "default_opts = \<lparr>o_loops = 0, o_th_min = -1, o_th_max = -20, o_lmin = 1280, o_lmax = 1280,
     o_flows = 1, o_flowsets = 1, o_wsum = 0, o_fs_config = None, o_alg = Alg_null, o_shm_name = None\<rparr>"

definition at_least_1 :: "int \<Rightarrow> int" where "at_least_1 x = (if x \<le> 0 then 1 else x)"

text \<open>The corrections after the options are read.\<close>

definition init_limits :: "cfg_opts \<Rightarrow> cfg_opts" where
  "init_limits c =
    (let c = c\<lparr>o_loops := at_least_1 (o_loops c), o_flows := at_least_1 (o_flows c),
           o_flowsets := at_least_1 (o_flowsets c), o_lmin := at_least_1 (o_lmin c), o_lmax := at_least_1 (o_lmax c)\<rparr>;
         c = (if o_th_min c < 0 then c\<lparr>o_th_min := i32 (o_flows c * - o_th_min c)\<rparr> else c);
         c = (if o_th_max c < 0 then c\<lparr>o_th_max := i32 (o_flows c * - o_th_max c)\<rparr> else c)
     in if o_th_max c \<le> o_th_min c then c\<lparr>o_th_max := i32 (o_th_min c + 1)\<rparr> else c)"

end
