(* ===== verification/Dn_Sched_Contract.thy ===== *)
theory Dn_Sched_Contract
  imports Dn_Sched "HOL-Library.Multiset"
begin

text \<open>
  The contract of a packet scheduler: an accepted packet is put at the end of its flow,
  a dropped one changes nothing, and a dequeue returns (the loops end) and gives the first
  packet of some flow, or nothing when no flow has a packet.  Over any sequence of
  operations the packets of each flow then leave in the order in which they were
  accepted, none is lost or duplicated, and the link is never idle while a packet waits.
\<close>

section \<open>Runs\<close>

text \<open>The packets accepted and those given out so far.\<close>

inductive sched_run :: "(mbuf \<Rightarrow> 's \<Rightarrow> bool) \<Rightarrow> (mbuf \<Rightarrow> 's \<Rightarrow> bool \<times> 's) \<Rightarrow> ('s \<Rightarrow> (mbuf option \<times> 's) option)
    \<Rightarrow> 's \<Rightarrow> mbuf list \<Rightarrow> mbuf list \<Rightarrow> 's \<Rightarrow> bool"
  for ok enq deq s0 where
  run_init: "sched_run ok enq deq s0 [] [] s0"
| run_accept: "sched_run ok enq deq s0 ins os s \<Longrightarrow> ok m s \<Longrightarrow> enq m s = (False, s') \<Longrightarrow>
    sched_run ok enq deq s0 (ins @ [m]) os s'"
| run_drop: "sched_run ok enq deq s0 ins os s \<Longrightarrow> ok m s \<Longrightarrow> enq m s = (True, s') \<Longrightarrow>
    sched_run ok enq deq s0 ins os s'"
| run_out: "sched_run ok enq deq s0 ins os s \<Longrightarrow> deq s = Some (Some m, s') \<Longrightarrow>
    sched_run ok enq deq s0 ins (os @ [m]) s'"
| run_idle: "sched_run ok enq deq s0 ins os s \<Longrightarrow> deq s = Some (None, s') \<Longrightarrow>
    sched_run ok enq deq s0 ins os s'"

locale packet_sched =
  fixes invar :: "'s \<Rightarrow> bool" and backlog :: "'s \<Rightarrow> nat \<Rightarrow> mbuf list" and flow_of :: "mbuf \<Rightarrow> nat"
    and ok :: "mbuf \<Rightarrow> 's \<Rightarrow> bool" and enq :: "mbuf \<Rightarrow> 's \<Rightarrow> bool \<times> 's"
    and deq :: "'s \<Rightarrow> (mbuf option \<times> 's) option"
  assumes enq_law: "invar s \<Longrightarrow> ok m s \<Longrightarrow> enq m s = (d, s') \<Longrightarrow> invar s' \<and>
      backlog s' = (if d then backlog s else (backlog s)(flow_of m := backlog s (flow_of m) @ [m]))"
    and deq_law: "invar s \<Longrightarrow> \<exists>r s'. deq s = Some (r, s') \<and> invar s' \<and>
      (case r of
         None \<Rightarrow> (\<forall>f. backlog s f = []) \<and> backlog s' = backlog s
       | Some m \<Rightarrow> backlog s (flow_of m) = m # backlog s' (flow_of m) \<and>
           (\<forall>f. f \<noteq> flow_of m \<longrightarrow> backlog s' f = backlog s f))"
begin

lemma run_invar:
  assumes "sched_run ok enq deq s0 ins os s" "invar s0" "\<And>f. backlog s0 f = []"
  shows "invar s \<and> (\<forall>f. filter (\<lambda>m. flow_of m = f) ins = filter (\<lambda>m. flow_of m = f) os @ backlog s f)"
  using assms(1)
proof (induction rule: sched_run.induct)
  case (run_out ins os s m s')
  then have d: "invar s'" "backlog s (flow_of m) = m # backlog s' (flow_of m)"
    "\<And>f. f \<noteq> flow_of m \<Longrightarrow> backlog s' f = backlog s f" using deq_law [of s] by auto
  then show ?case using run_out.IH by auto
next
  case (run_idle ins os s s')
  then show ?case using deq_law [of s] by auto
next
  case (run_accept ins os s m s')
  then show ?case using enq_law [of s m False s'] by auto
next
  case (run_drop ins os s m s')
  then show ?case using enq_law [of s m True s'] by auto
qed (use assms in auto)

text \<open>Each flow is served in order and without loss.\<close>

lemma run_flow_order:
  assumes "sched_run ok enq deq s0 ins os s" "invar s0" "\<And>f. backlog s0 f = []"
  shows "filter (\<lambda>m. flow_of m = f) ins = filter (\<lambda>m. flow_of m = f) os @ backlog s f"
  using run_invar [OF assms] by blast

lemma filter_flows_mset:
  assumes "\<And>f. filter (\<lambda>m. flow_of m = f) xs = filter (\<lambda>m. flow_of m = f) ys"
  shows "mset xs = mset ys"
proof (rule multiset_eqI)
  fix m
  have "count (mset zs) m = count (mset (filter (\<lambda>x. flow_of x = flow_of m) zs)) m" for zs
    by (induction zs) auto
  then show "count (mset xs) m = count (mset ys) m" using assms [of "flow_of m"] by metis
qed

text \<open>The scheduler gives a packet whenever fewer were given than accepted.\<close>

lemma run_work_conserving:
  assumes "sched_run ok enq deq s0 ins os s" "invar s0" "\<And>f. backlog s0 f = []"
  shows "\<exists>r s'. deq s = Some (r, s') \<and> (r = None \<longleftrightarrow> length os = length ins)"
proof -
  note i = run_invar [OF assms]
  obtain r s' where r: "deq s = Some (r, s')" "case r of None \<Rightarrow> \<forall>f. backlog s f = []
      | Some m \<Rightarrow> backlog s (flow_of m) = m # backlog s' (flow_of m)"
    using deq_law [of s] i by (auto split: option.splits)
  have "length os = length ins" if "r = None"
  proof -
    have "mset os = mset ins" by (rule filter_flows_mset) (use r i that in simp)
    then show ?thesis by (metis size_mset)
  qed
  moreover have "length os < length ins" if "r = Some m" for m
  proof -
    have "m \<in># mset ins - mset os"
    proof -
      have "filter (\<lambda>x. flow_of x = flow_of m) ins = filter (\<lambda>x. flow_of x = flow_of m) os @ m # backlog s' (flow_of m)"
        using i r that by simp
      then have "count (mset (filter (\<lambda>x. flow_of x = flow_of m) os)) m < count (mset (filter (\<lambda>x. flow_of x = flow_of m) ins)) m"
        by simp
      then show ?thesis by (simp add: mset_filter in_diff_count)
    qed
    moreover have "mset os \<subseteq># mset ins"
    proof (rule mset_subset_eqI)
      fix a
      have "count (mset (filter (\<lambda>x. flow_of x = flow_of a) os)) a \<le> count (mset (filter (\<lambda>x. flow_of x = flow_of a) ins)) a"
        using i by simp
      then show "count (mset os) a \<le> count (mset ins) a" by (simp add: mset_filter)
    qed
    ultimately have "mset os \<subset># mset ins" by (metis empty_iff set_mset_empty cancel_comm_monoid_add_class.diff_cancel subset_mset.le_neq_trans)
    then show ?thesis by (metis mset_subset_size size_mset)
  qed
  ultimately show ?thesis using r by (cases r) force+
qed

end

section \<open>Queues\<close>

lemma dn_enqueue_simps:
  "dn_enqueue m False q = (d, q') \<Longrightarrow> q_mq q' = (if d then q_mq q else q_mq q @ [m])"
  by (auto simp: dn_enqueue_def mq_append_def Let_def split: if_splits)

lemma dn_dequeue_simps:
  "dn_dequeue q si = (r, q', si') \<Longrightarrow> (case q_mq q of [] \<Rightarrow> r = None \<and> q' = q | m # ms \<Rightarrow> r = Some m \<and> q_mq q' = ms)"
  by (auto simp: dn_dequeue_def mq_dequeue_def mq_peek_def Let_def split: list.splits if_splits)

section \<open>FIFO\<close>

definition fifo_backlog :: "fifo_si \<Rightarrow> nat \<Rightarrow> mbuf list" where
  "fifo_backlog s f = (if f = 0 then q_mq (fifo_q s) else [])"

interpretation fifo: packet_sched
  "\<lambda>s. True" fifo_backlog "\<lambda>m. 0" "\<lambda>m s. True"
  "\<lambda>m. fifo_enqueue (flow_id m) m" fifo_dequeue
proof (unfold_locales, goal_cases)
  case (1 s m d s')
  then show ?case using dn_enqueue_simps [of m "fifo_q s"]
    by (auto simp: fifo_enqueue_def fifo_backlog_def fun_eq_iff split: prod.splits)
next
  case (2 s)
  obtain r q ni where d: "dn_dequeue (fifo_q s) (si_ni s) = (r, q, ni)" by (metis prod_cases3)
  then show ?case using dn_dequeue_simps [OF d]
    by (auto simp: fifo_dequeue_def fifo_backlog_def split: list.splits option.splits)
qed

end
