(* ===== verification/Dn_Sched_Rr.thy ===== *)
theory Dn_Sched_Rr
  imports Dn_Sched_Contract "HOL-Library.Monad_Syntax"
begin

text \<open>
  The deficit round robin scheduler (\<open>sched16/dn_sched_rr.c\<close>).  The backlogged queues are
  on a circular list linked by \<open>qnext\<close>; pointers to queues are indices, and \<open>None\<close> is the
  null pointer.
\<close>

section \<open>Structures\<close>

record rr_queue = dn_queue +
  rr_status :: bool
  rr_credit :: u32
  rr_quantum :: u32
  rr_qnext :: "nat option"

record rr_schk =
  min_q :: u32
  max_q :: u32
  q_bytes :: u32

record rr_si = "rr_queue dn_sch_inst" +
  rr_head :: "nat option"
  rr_tail :: "nat option"
  q_tot :: u64

section \<open>The circular list\<close>

definition rr_append :: "nat \<Rightarrow> rr_si \<Rightarrow> rr_si" where
  "rr_append q si =
    (let si = upd_q q (\<lambda>x. x\<lparr>rr_status := True, rr_credit := rr_quantum x\<rparr>) si;
         si = si\<lparr>q_tot := q_tot si + ucast (rr_quantum (si_q si ! q))\<rparr>;
         si = (case rr_head si of
             None \<Rightarrow> si\<lparr>rr_head := Some q\<rparr>
           | Some _ \<Rightarrow> (case rr_tail si of
               None \<Rightarrow> si
             | Some t \<Rightarrow> upd_q t (\<lambda>x. x\<lparr>rr_qnext := Some q\<rparr>) si));
         si = si\<lparr>rr_tail := Some q\<rparr>
     in upd_q q (\<lambda>x. x\<lparr>rr_qnext := rr_head si\<rparr>) si)"

definition rr_remove_head :: "rr_si \<Rightarrow> rr_si" where
  "rr_remove_head si =
    (case rr_head si of
       None \<Rightarrow> si
     | Some h \<Rightarrow>
         let si = upd_q h (\<lambda>x. x\<lparr>rr_status := False\<rparr>) si;
             si = si\<lparr>q_tot := q_tot si - ucast (rr_quantum (si_q si ! h))\<rparr>
         in if rr_head si = rr_tail si then si\<lparr>rr_head := None, rr_tail := None\<rparr>
            else let si = si\<lparr>rr_head := rr_qnext (si_q si ! h)\<rparr>
                 in case rr_tail si of
                      None \<Rightarrow> si
                    | Some t \<Rightarrow> upd_q t (\<lambda>x. x\<lparr>rr_qnext := rr_head si\<rparr>) si)"

text \<open>The search for the predecessor follows the circular list until it finds it.\<close>

partial_function (option) rr_find_prev :: "nat \<Rightarrow> nat option \<Rightarrow> rr_si \<Rightarrow> nat option option" where
  "rr_find_prev q prev si =
    (case prev of
       None \<Rightarrow> Some None
     | Some p \<Rightarrow> if rr_qnext (si_q si ! p) \<noteq> Some q then rr_find_prev q (rr_qnext (si_q si ! p)) si
                  else Some (Some p))"

definition remove_queue_q :: "nat \<Rightarrow> rr_si \<Rightarrow> rr_si option" where
  "remove_queue_q q si =
    (if \<not> rr_status (si_q si ! q) then Some si
     else if rr_head si = Some q then Some (rr_remove_head si)
     else do {
       prev \<leftarrow> rr_find_prev q (rr_head si) si;
       Some (case prev of
           None \<Rightarrow> si
         | Some p \<Rightarrow>
             let si = upd_q p (\<lambda>x. x\<lparr>rr_qnext := rr_qnext (si_q si ! q)\<rparr>) si;
                 si = (if rr_tail si = Some q then si\<lparr>rr_tail := Some p\<rparr> else si)
             in upd_q q (\<lambda>x. x\<lparr>rr_status := False\<rparr>) si) })"

definition next_pointer :: "rr_si \<Rightarrow> rr_si" where
  "next_pointer si =
    (case rr_head si of
       None \<Rightarrow> si
     | Some h \<Rightarrow> si\<lparr>rr_head := rr_qnext (si_q si ! h),
         rr_tail := (case rr_tail si of None \<Rightarrow> None | Some t \<Rightarrow> rr_qnext (si_q si ! t))\<rparr>)"

section \<open>Enqueue and dequeue\<close>

definition rr_activate :: "nat \<Rightarrow> rr_si \<Rightarrow> rr_si" where
  "rr_activate q si = (if rr_status (si_q si ! q) then si else rr_append q si)"

definition rr_enqueue :: "nat \<Rightarrow> mbuf \<Rightarrow> rr_si \<Rightarrow> bool \<times> rr_si" where
  "rr_enqueue q m si =
    (if \<not> is_mq_head m (si_q si ! q) then
       case dn_enqueue m False (si_q si ! q) of (dropped, x) \<Rightarrow>
         let si = upd_q q (\<lambda>_. x) si in
         if dropped then (True, si)
         else if \<not> is_mq_head m x then (False, si)
         else (False, rr_activate q si)
     else (False, rr_activate q si))"

text \<open>One iteration of the loop of \<open>rr_dequeue\<close>: it goes on, or it ends with a result.\<close>

definition rr_step :: "rr_si \<Rightarrow> rr_si + (mbuf option \<times> rr_si)" where
  "rr_step si =
    (case rr_head si of
       None \<Rightarrow> Inr (None, si)
     | Some h \<Rightarrow>
         let rrq = si_q si ! h in
         case mq_peek rrq of
           None \<Rightarrow> Inl (rr_remove_head si)
         | Some m \<Rightarrow>
             if m_iov_len m > ucast (rr_credit rrq)
             then Inl (next_pointer (upd_q h (\<lambda>x. x\<lparr>rr_credit := rr_credit x + rr_quantum x\<rparr>) si))
             else Inr (si_dequeue h (upd_q h (\<lambda>x. x\<lparr>rr_credit := rr_credit x - ucast (m_iov_len m)\<rparr>) si)))"

partial_function (option) rr_dequeue :: "rr_si \<Rightarrow> (mbuf option \<times> rr_si) option" where
  "rr_dequeue si = (case rr_step si of Inl si \<Rightarrow> rr_dequeue si | Inr r \<Rightarrow> Some r)"

section \<open>Configuration\<close>

definition rr_config :: rr_schk where
  "rr_config = \<lparr>min_q = 60, max_q = 2048, q_bytes = 1500\<rparr>"

definition rr_new_sched :: "rr_si \<Rightarrow> rr_si" where
  "rr_new_sched si = si\<lparr>rr_head := None, rr_tail := None\<rparr>"

definition rr_free_sched :: "rr_si \<Rightarrow> rr_si" where
  "rr_free_sched si = si"

definition rr_new_fsk :: "rr_schk \<Rightarrow> dn_fs \<Rightarrow> dn_fs" where
  "rr_new_fsk schk fs =
    (let fs = fs\<lparr>par0 := ipdn_bound_var (par0 fs) 1 1 65536\<rparr>
     in fs\<lparr>par1 := ipdn_bound_var (par1 fs) (uint (q_bytes schk)) (uint (min_q schk)) (uint (max_q schk))\<rparr>)"

text \<open>A null flowset is a memory error.\<close>

definition rr_new_queue :: "nat \<Rightarrow> rr_si \<Rightarrow> rr_si option" where
  "rr_new_queue q si = do {
    f \<leftarrow> q_fs (si_q si ! q);
    let fs = si_fs si ! f;
    let quantum = (word_of_int (par0 fs) * word_of_int (par1 fs) :: u64);
    let quantum = (if quantum \<ge> push_bit 32 1 then push_bit 32 1 - 1 else quantum);
    let si = upd_q q (\<lambda>x. x\<lparr>rr_quantum := ucast quantum, rr_credit := ucast quantum, rr_status := False\<rparr>) si;
    Some (if q_mq (si_q si ! q) \<noteq> [] then rr_append q si else si) }"

definition rr_free_queue :: "nat \<Rightarrow> rr_si \<Rightarrow> rr_si option" where
  "rr_free_queue q si = (if rr_status (si_q si ! q) then remove_queue_q q si else Some si)"

end
