(* ===== verification/Sched_Main.thy ===== *)
theory Sched_Main
  imports Sched_Flowsets Dn_Sched_Rr
begin

text \<open>
  The driver of the packet schedulers (\<open>sched16/sched_main.c\<close>): the setup of the queues, the
  flowsets and the chosen scheduler, and the two operations that the other programs call.

  A scheduler is a record of its functions (\<open>struct dn_alg\<close>).  Its state is a scheduler
  instance with the array of flow queues and the array of flowsets.  The worst-case fair
  index, a floating-point statistic that is only printed, is left out.
\<close>

section \<open>Structures\<close>

text \<open>\<open>alg_calloc\<close> gives the zero-initialised instance with the given numbers of queues and
  flowsets; it stands for the sizes \<open>si_datalen\<close> and \<open>q_datalen\<close>.\<close>

record 's dn_alg =
  alg_calloc :: "nat \<Rightarrow> nat \<Rightarrow> 's"
  alg_enqueue :: "nat \<Rightarrow> mbuf \<Rightarrow> 's \<Rightarrow> bool \<times> 's"
  alg_dequeue :: "'s \<Rightarrow> (mbuf option \<times> 's) option"
  alg_new_sched :: "'s \<Rightarrow> 's"
  alg_new_fsk :: "dn_fs \<Rightarrow> dn_fs"
  alg_new_queue :: "nat \<Rightarrow> 's \<Rightarrow> 's option"

record 's cfg_s =
  c_opts :: cfg_opts
  c_enqueue :: u32
  c_drop :: u32
  c_pending :: u32
  c_dequeue :: u32
  c_alg :: "'s dn_alg"
  c_si :: 's

type_synonym ('a, 'z) sched_inst = "('a dn_queue_scheme, 'z) dn_sch_inst_scheme"

definition zero_fs :: dn_fs where
  "zero_fs = \<lparr>par0 = 0, par1 = 0, fs_index = 0, fs_n_flows = 0, first_flow = 0, next_flow = 0,
     fs_cur = 0, fs_y = 0, base_y = 0, next_y = 0\<rparr>"

definition zero_fifo :: "nat \<Rightarrow> nat \<Rightarrow> fifo_si" where
  "zero_fifo n k = \<lparr>si_ni = zero_flow, si_q = replicate n zero_queue, si_fs = replicate k zero_fs, fifo_q = zero_queue\<rparr>"

definition zero_rr_queue :: rr_queue where
  "zero_rr_queue = dn_queue.extend zero_queue \<lparr>rr_status = False, rr_credit = 0, rr_quantum = 0, rr_qnext = None\<rparr>"

definition zero_rr :: "nat \<Rightarrow> nat \<Rightarrow> rr_si" where
  "zero_rr n k = \<lparr>si_ni = zero_flow, si_q = replicate n zero_rr_queue, si_fs = replicate k zero_fs,
     rr_head = None, rr_tail = None, q_tot = 0\<rparr>"

definition fifo_desc :: "fifo_si dn_alg" where
  "fifo_desc = \<lparr>alg_calloc = zero_fifo, alg_enqueue = fifo_enqueue, alg_dequeue = fifo_dequeue,
     alg_new_sched = fifo_new_sched, alg_new_fsk = (\<lambda>fs. fs), alg_new_queue = (\<lambda>q si. Some si)\<rparr>"

definition rr_desc :: "rr_si dn_alg" where
  "rr_desc = \<lparr>alg_calloc = zero_rr, alg_enqueue = rr_enqueue, alg_dequeue = rr_dequeue,
     alg_new_sched = rr_new_sched, alg_new_fsk = rr_new_fsk rr_config, alg_new_queue = rr_new_queue\<rparr>"

section \<open>Initialisation\<close>

text \<open>The flows of each flowset are linked to it; an index outside the array of queues is a
  memory error.\<close>

fun link_flows :: "(nat \<times> int) list \<Rightarrow> ('a, 'z) sched_inst \<Rightarrow> ('a, 'z) sched_inst option" where
  "link_flows [] si = Some si"
| "link_flows ((i, j) # ps) si =
    (if 0 \<le> j \<and> j < int (length (si_q si)) then link_flows ps (upd_q (nat j) (\<lambda>x. x\<lparr>q_fs := Some i\<rparr>) si)
     else None)"

definition flow_links :: "dn_fs list \<Rightarrow> nat \<Rightarrow> (nat \<times> int) list" where
  "flow_links fs n = concat (map (\<lambda>i. map (Pair i) [first_flow (fs ! i)..next_flow (fs ! i) - 1]) [0..<n])"

text \<open>The second pass.\<close>

definition parse_flowsets_link :: "cfg_opts \<Rightarrow> ('a, 'z) sched_inst \<Rightarrow> (cfg_opts \<times> ('a, 'z) sched_inst) option" where
  "parse_flowsets_link c si =
    (case o_fs_config c of
       None \<Rightarrow> Some (c, si)
     | Some s \<Rightarrow> do {
         (done, st) \<leftarrow> ps_loop True (o_flowsets c) (Some s) (parse_start (si_fs si));
         let si = si\<lparr>si_fs := ps_arr st\<rparr>;
         if \<not> done then Some (c, si)
         else do {
           si \<leftarrow> link_flows (flow_links (si_fs si) (ps_fs st)) si;
           Some (c\<lparr>o_flows := ps_flows st, o_flowsets := int (ps_fs st), o_wsum := ps_wsum st\<rparr>, si) } })"

definition setup_fsk :: "'s dn_alg \<Rightarrow> dn_fs \<Rightarrow> dn_fs" where
  "setup_fsk p fs = alg_new_fsk p (if par1 fs = 0 then fs\<lparr>par1 := 1000\<rparr> else fs)"

definition setup_queue :: "('a, 'z) sched_inst dn_alg \<Rightarrow> nat \<Rightarrow> ('a, 'z) sched_inst \<Rightarrow> ('a, 'z) sched_inst option" where
  "setup_queue p i si =
    (if i < length (si_q si) then
       alg_new_queue p i (upd_q i (\<lambda>x. x\<lparr>q_fs := (case q_fs x of None \<Rightarrow> Some 0 | Some f \<Rightarrow> Some f), q_si := True\<rparr>) si)
     else None)"

fun setup_queues :: "('a, 'z) sched_inst dn_alg \<Rightarrow> nat list \<Rightarrow> ('a, 'z) sched_inst \<Rightarrow> ('a, 'z) sched_inst option" where
  "setup_queues p [] si = Some si"
| "setup_queues p (i # is') si = do { si \<leftarrow> setup_queue p i si; setup_queues p is' si }"

text \<open>From the options on.  Whether the memory can be allocated is an argument; without it
  the program exits, which is the value \<open>None\<close>, as an access outside an array is.\<close>

definition init_sched :: "('a, 'z) sched_inst dn_alg \<Rightarrow> bool \<Rightarrow> cfg_opts \<Rightarrow> ('a, 'z) sched_inst cfg_s option" where
  "init_sched p mem o1 =
    (if \<not> mem then None
     else do {
       let si = alg_new_sched p (alg_calloc p (nat (o_flows o1)) (nat (o_flowsets o1)));
       (o2, si) \<leftarrow> parse_flowsets_link o1 si;
       let n = nat (o_flowsets o2);
       let si = si\<lparr>si_fs := map (setup_fsk p) (take n (si_fs si)) @ drop n (si_fs si)\<rparr>;
       si \<leftarrow> setup_queues p [0..<nat (o_flows o2)] si;
       Some \<lparr>c_opts = o2, c_enqueue = 0, c_drop = 0, c_pending = 0, c_dequeue = 0, c_alg = p, c_si = si\<rparr> })"

text \<open>The whole function, for a given algorithm.\<close>

definition sched_init :: "('a, 'z) sched_inst dn_alg \<Rightarrow> bool \<Rightarrow> string list \<Rightarrow> ('a, 'z) sched_inst cfg_s option" where
  "sched_init p mem av = do { c \<leftarrow> init_options (tl av) default_opts; init_sched p mem (init_limits c) }"

definition get_flow_count :: "'s cfg_s \<Rightarrow> u32" where
  "get_flow_count c = word_of_int (o_flows (c_opts c))"

section \<open>Enqueue and dequeue\<close>

definition gnet_stats_enq :: "nat \<Rightarrow> ('a, 'z) sched_inst \<Rightarrow> ('a, 'z) sched_inst" where
  "gnet_stats_enq q si =
    (if fl_length (q_ni (si_q si ! q)) = 1
     then upd_q q (\<lambda>x. x\<lparr>q_ni := (q_ni x)\<lparr>fl_bytes := 0, sch_bytes := fl_bytes (si_ni si)\<rparr>\<rparr>) si
     else si)"

definition gnet_stats_deq :: "mbuf \<Rightarrow> ('a, 'z) sched_inst \<Rightarrow> ('a, 'z) sched_inst" where
  "gnet_stats_deq mb si =
    (let len = scast (ucast (m_iov_len mb) :: u32) :: u64;
         si = upd_q (flow_id mb) (\<lambda>x. x\<lparr>q_ni := (q_ni x)\<lparr>fl_bytes := fl_bytes (q_ni x) + len\<rparr>\<rparr>) si
     in si\<lparr>si_ni := (si_ni si)\<lparr>fl_bytes := fl_bytes (si_ni si) + len\<rparr>\<rparr>)"

text \<open>The first component of the result is true when the packet is dropped.\<close>

definition sched_enq :: "mbuf \<Rightarrow> ('a, 'z) sched_inst cfg_s \<Rightarrow> (bool \<times> ('a, 'z) sched_inst cfg_s) option" where
  "sched_enq m c =
    (let q = flow_id m in
     if q < length (si_q (c_si c)) then
       let c = c\<lparr>c_enqueue := c_enqueue c + 1\<rparr> in
       case alg_enqueue (c_alg c) q m (c_si c) of (ret, si) \<Rightarrow>
         let c = c\<lparr>c_si := si\<rparr> in
         if ret then Some (True, c\<lparr>c_drop := c_drop c + 1\<rparr>)
         else Some (False, c\<lparr>c_pending := c_pending c + 1, c_si := gnet_stats_enq q (c_si c)\<rparr>)
     else None)"

text \<open>A failed assertion is the value \<open>None\<close>.\<close>

definition sched_deq :: "('a, 'z) sched_inst cfg_s \<Rightarrow> (mbuf option \<times> ('a, 'z) sched_inst cfg_s) option" where
  "sched_deq c =
    (if sint (c_pending c) < 0 then None
     else if c_pending c \<noteq> 0 then do {
       let c = c\<lparr>c_dequeue := c_dequeue c + 1\<rparr>;
       (m, si) \<leftarrow> alg_dequeue (c_alg c) (c_si c);
       let c = c\<lparr>c_si := si\<rparr>;
       Some (m, case m of
           None \<Rightarrow> c
         | Some mb \<Rightarrow> c\<lparr>c_pending := c_pending c - 1, c_si := gnet_stats_deq mb (c_si c)\<rparr>) }
     else Some (None, c))"

end
