(* ===== verification/Dn_Sched_Rr_Contract.thy ===== *)
theory Dn_Sched_Rr_Contract
  imports Dn_Sched_Rr
begin

text \<open>
  The round robin scheduler meets the contract of a packet scheduler.  The circular list
  is described by the list of its queues from head to tail; the list operations refine
  appending, removing and rotating that list.  The loop of the dequeue ends because each
  turn either removes an empty queue or gives a queue that waits for credit more of it.
\<close>

section \<open>The circular list\<close>

definition rr_list :: "nat list \<Rightarrow> rr_si \<Rightarrow> bool" where
  "rr_list xs si \<longleftrightarrow> distinct xs \<and> set xs \<subseteq> {..<length (si_q si)} \<and>
     (\<forall>i < length (si_q si). rr_status (si_q si ! i) \<longleftrightarrow> i \<in> set xs) \<and>
     map (\<lambda>i. rr_qnext (si_q si ! i)) xs = map Some (rotate1 xs) \<and>
     rr_head si = (if xs = [] then None else Some (hd xs)) \<and>
     (xs \<noteq> [] \<longrightarrow> rr_tail si = Some (last xs))"

lemma upd_q_simps [simp]:
  "length (si_q (upd_q i f s)) = length (si_q s)" "si_ni (upd_q i f s) = si_ni s" "si_fs (upd_q i f s) = si_fs s"
  by (simp_all add: upd_q_def)

lemma upd_q_rr_simps [simp]:
  "rr_head (upd_q i f s) = rr_head s" "rr_tail (upd_q i f s) = rr_tail s" "q_tot (upd_q i f s) = q_tot s"
  by (simp_all add: upd_q_def)

lemma upd_q_nth [simp]:
  "j < length (si_q s) \<Longrightarrow> si_q (upd_q i f s) ! j = (if i = j then f (si_q s ! j) else si_q s ! j)"
  by (simp add: upd_q_def nth_list_update)

text \<open>The fields of the queues that the list operations leave alone.\<close>

definition same_traffic :: "rr_si \<Rightarrow> rr_si \<Rightarrow> bool" where
  "same_traffic si si' \<longleftrightarrow> length (si_q si') = length (si_q si) \<and> si_ni si' = si_ni si \<and> si_fs si' = si_fs si \<and>
     (\<forall>i < length (si_q si). q_mq (si_q si' ! i) = q_mq (si_q si ! i) \<and>
       rr_quantum (si_q si' ! i) = rr_quantum (si_q si ! i))"

definition same_queues :: "rr_si \<Rightarrow> rr_si \<Rightarrow> bool" where
  "same_queues si si' \<longleftrightarrow> same_traffic si si' \<and>
     (\<forall>i < length (si_q si). rr_credit (si_q si' ! i) = rr_credit (si_q si ! i))"

lemma rr_list_ne:
  assumes "rr_list xs si" "rr_head si = Some h"
  obtains ys where "xs = h # ys" "h < length (si_q si)" "rr_tail si = Some (last xs)"
  using assms by (cases xs) (auto simp: rr_list_def)

lemma next_pointer_list:
  assumes "rr_list xs si"
  shows "rr_list (rotate1 xs) (next_pointer si)" "si_q (next_pointer si) = si_q si" "si_ni (next_pointer si) = si_ni si"
    "si_fs (next_pointer si) = si_fs si"
proof -
  show "rr_list (rotate1 xs) (next_pointer si)"
  proof (cases xs)
    case Nil
    then show ?thesis using assms by (simp add: rr_list_def next_pointer_def)
  next
    case (Cons h ys)
    have m: "map (\<lambda>i. rr_qnext (si_q si ! i)) xs = map Some (rotate1 xs)" and t: "rr_tail si = Some (last xs)"
      and hd: "rr_head si = Some h" using assms Cons by (simp_all add: rr_list_def)
    have nh: "rr_qnext (si_q si ! h) = Some (hd (rotate1 xs))" using m Cons by (cases ys) auto
    have "rr_qnext (si_q si ! last xs) = last (map (\<lambda>i. rr_qnext (si_q si ! i)) xs)"
      using Cons by (simp only: last_map list.distinct not_False_eq_True)
    then have nt: "rr_qnext (si_q si ! last xs) = Some h" unfolding m using Cons by (simp add: last_map)
    have "map (\<lambda>i. rr_qnext (si_q si ! i)) (rotate1 xs) = map Some (rotate1 (rotate1 xs))"
      by (metis m rotate1_map)
    then show ?thesis using assms Cons nh nt hd t
      by (simp add: rr_list_def next_pointer_def)
  qed
qed (simp_all add: next_pointer_def split: option.splits)


lemma qnext_butlast:
  assumes "map f (h # ys) = map Some (ys @ [h])"
  shows "map f (butlast (h # ys)) = map Some ys"
proof -
  have "map f (butlast (h # ys)) = butlast (map f (h # ys))" by (rule map_butlast)
  then show ?thesis unfolding assms by simp
qed

lemma last_split:
  assumes "xs \<noteq> []" "distinct xs"
  obtains "xs = butlast xs @ [last xs]" "last xs \<in> set xs" "last xs \<notin> set (butlast xs)"
proof -
  have x: "xs = butlast xs @ [last xs]" using assms(1) by simp
  from x have "distinct (butlast xs @ [last xs])" using assms(2) by metis
  then have "set (butlast xs) \<inter> set [last xs] = {}" unfolding distinct_append by blast
  then have "last xs \<notin> set (butlast xs)" by simp
  with x show ?thesis using that assms(1) by (metis last_in_set)
qed

lemma rr_append_list:
  assumes "rr_list xs si" "x < length (si_q si)" "x \<notin> set xs"
  shows "rr_list (xs @ [x]) (rr_append x si)" "same_traffic si (rr_append x si)"
    "i < length (si_q si) \<Longrightarrow> rr_credit (si_q (rr_append x si) ! i) =
      (if i = x then rr_quantum (si_q si ! x) else rr_credit (si_q si ! i))"
proof -
  show "same_traffic si (rr_append x si)"
    using assms(2) by (auto simp: same_traffic_def rr_append_def Let_def split: option.splits)
  show "i < length (si_q si) \<Longrightarrow> rr_credit (si_q (rr_append x si) ! i) =
      (if i = x then rr_quantum (si_q si ! x) else rr_credit (si_q si ! i))"
    using assms(2) by (auto simp: rr_append_def Let_def split: option.splits)
  show "rr_list (xs @ [x]) (rr_append x si)"
  proof (cases xs)
    case Nil
    then show ?thesis using assms by (auto simp: rr_list_def rr_append_def Let_def)
  next
    case (Cons h ys)
    define t where "t = last xs"
    have l: "distinct xs" "set xs \<subseteq> {..<length (si_q si)}" "rr_head si = Some h" "rr_tail si = Some t"
      "map (\<lambda>i. rr_qnext (si_q si ! i)) (h # ys) = map Some (ys @ [h])"
      "\<And>i. i < length (si_q si) \<Longrightarrow> rr_status (si_q si ! i) \<longleftrightarrow> i \<in> set xs"
      using assms(1) Cons by (simp_all add: rr_list_def t_def)
    have xs: "xs = butlast xs @ [t]" "t \<in> set xs" "t \<notin> set (butlast xs)"
      using last_split [OF _ l(1)] Cons unfolding t_def by blast+
    have t: "t < length (si_q si)" "t \<noteq> x" using xs(2) l(2) assms(3) by auto
    let ?si = "rr_append x si"
    have q: "si_q ?si ! i = (if i = x then (si_q si ! x)\<lparr>rr_status := True, rr_credit := rr_quantum (si_q si ! x), rr_qnext := Some h\<rparr>
        else if i = t then (si_q si ! t)\<lparr>rr_qnext := Some x\<rparr> else si_q si ! i)" if "i < length (si_q si)" for i
      using that l(3,4) t(2) assms(2) by (auto simp: rr_append_def Let_def)
    have lt: "i < length (si_q si)" if "i \<in> set xs" for i using that l(2) by auto
    have "rr_qnext (si_q ?si ! i) = rr_qnext (si_q si ! i)" if "i \<in> set (butlast xs)" for i
      using q [of i] lt [of i] in_set_butlastD [OF that] that xs(3) assms(3) by auto
    then have "map (\<lambda>i. rr_qnext (si_q ?si ! i)) (butlast xs) = map (\<lambda>i. rr_qnext (si_q si ! i)) (butlast xs)" by simp
    then have "map (\<lambda>i. rr_qnext (si_q ?si ! i)) (butlast xs) = map Some ys"
      using qnext_butlast [OF l(5), folded Cons] by (rule trans)
    then have "map (\<lambda>i. rr_qnext (si_q ?si ! i)) (xs @ [x]) = map Some ys @ [Some x, Some h]"
      using q [OF t(1)] q [OF assms(2)] t(2) by (subst xs(1)) simp
    moreover have "rr_head ?si = Some h" "rr_tail ?si = Some x"
      using l(3,4) by (simp_all add: rr_append_def Let_def)
    moreover have "length (si_q ?si) = length (si_q si)" using \<open>same_traffic si ?si\<close> by (simp add: same_traffic_def)
    ultimately show ?thesis using l assms q Cons t by (auto simp: rr_list_def)
  qed
qed


lemma rr_remove_head_list:
  assumes "rr_list (h # ys) si"
  shows "rr_list ys (rr_remove_head si)" "same_queues si (rr_remove_head si)"
proof -
  have l: "distinct (h # ys)" "set (h # ys) \<subseteq> {..<length (si_q si)}" "rr_head si = Some h"
    "rr_tail si = Some (last (h # ys))"
    "map (\<lambda>i. rr_qnext (si_q si ! i)) (h # ys) = map Some (ys @ [h])"
    "\<And>i. i < length (si_q si) \<Longrightarrow> rr_status (si_q si ! i) \<longleftrightarrow> i \<in> set (h # ys)"
    using assms by (simp_all add: rr_list_def)
  show "same_queues si (rr_remove_head si)"
    using l(2-4) by (auto simp: same_queues_def same_traffic_def rr_remove_head_def Let_def split: option.splits)
  then have len: "length (si_q (rr_remove_head si)) = length (si_q si)"
    by (simp add: same_queues_def same_traffic_def)
  show "rr_list ys (rr_remove_head si)"
  proof (cases "ys = []")
    case True
    then show ?thesis using l by (auto simp: rr_list_def rr_remove_head_def Let_def)
  next
    case False
    define t where "t = last ys"
    have d: "distinct ys" "h \<notin> set ys" using l(1) by simp_all
    have ys: "ys = butlast ys @ [t]" "t \<in> set ys" "t \<notin> set (butlast ys)"
      using last_split [OF False d(1)] unfolding t_def by blast+
    have t: "t < length (si_q si)" "t \<noteq> h" using ys(2) l(2) d(2) by auto
    have nh: "rr_qnext (si_q si ! h) = Some (hd ys)" using l(5) False by (cases ys) auto
    let ?si = "rr_remove_head si"
    have q: "si_q ?si ! i = (if i = h then (si_q si ! h)\<lparr>rr_status := False\<rparr>
        else if i = t then (si_q si ! t)\<lparr>rr_qnext := Some (hd ys)\<rparr> else si_q si ! i)" if "i < length (si_q si)" for i
      using that l(2-4) t nh False by (auto simp: rr_remove_head_def Let_def t_def)
    have hd: "rr_head ?si = Some (hd ys)" "rr_tail ?si = Some t"
      using l(2-4) t nh False by (auto simp: rr_remove_head_def Let_def t_def)
    have "map (\<lambda>i. rr_qnext (si_q si ! i)) ys = map Some (tl ys @ [h])" using l(5) False by (cases ys) auto
    then have "map (\<lambda>i. rr_qnext (si_q si ! i)) (butlast ys) = map Some (tl ys)"
      by (metis butlast_snoc map_append map_butlast list.simps(9))
    moreover have "rr_qnext (si_q ?si ! i) = rr_qnext (si_q si ! i)" if "i \<in> set (butlast ys)" for i
      using q [of i] in_set_butlastD [OF that] that ys(3) d(2) l(2) by auto
    ultimately have "map (\<lambda>i. rr_qnext (si_q ?si ! i)) (butlast ys) = map Some (tl ys)"
      by (metis (no_types, lifting) map_eq_conv)
    then have "map (\<lambda>i. rr_qnext (si_q ?si ! i)) ys = map Some (tl ys) @ [Some (hd ys)]"
      using q [OF t(1)] t(2) by (subst ys(1)) simp
    moreover have "rotate1 ys = tl ys @ [hd ys]" using False by (cases ys) simp_all
    ultimately show ?thesis using l d q hd len False by (auto simp: rr_list_def t_def)
  qed
qed


text \<open>A queue in the middle of the list.\<close>

lemma rr_qnext_nth:
  assumes "rr_list xs si" "Suc k < length xs"
  shows "rr_qnext (si_q si ! (xs ! k)) = Some (xs ! Suc k)"
proof -
  have "map (\<lambda>i. rr_qnext (si_q si ! i)) xs ! k = map Some (rotate1 xs) ! k" using assms(1) by (simp add: rr_list_def)
  then show ?thesis using assms(2) by (simp add: nth_rotate1)
qed

lemma rr_find_prev_found:
  assumes "rr_list xs si" "Suc k < length xs" "q = xs ! Suc k" "j \<le> k"
  shows "rr_find_prev q (Some (xs ! j)) si = Some (Some (xs ! k))"
  using assms(4)
proof (induction "k - j" arbitrary: j)
  case 0
  then show ?case using rr_qnext_nth [OF assms(1,2)] assms(3) by (simp add: rr_find_prev.simps)
next
  case (Suc n)
  then have j: "Suc j < length xs" "j < k" using assms(2) by simp_all
  have "xs ! Suc j \<noteq> q" using assms(1-3) j by (simp add: rr_list_def nth_eq_iff_index_eq)
  then have "rr_find_prev q (Some (xs ! j)) si = rr_find_prev q (Some (xs ! Suc j)) si"
    using rr_qnext_nth [OF assms(1) j(1)] by (subst rr_find_prev.simps) simp
  then show ?case using Suc.hyps(1) [of "Suc j"] Suc.hyps(2) j by simp
qed

text \<open>Unlinking a queue that is not the first.\<close>

lemma qnext_split:
  assumes "map f (as @ p # q # bs) = map Some (rotate1 (as @ p # q # bs))"
  shows "map f as @ f q # map f bs = map Some (rotate1 (as @ p # bs))"
proof -
  have r: "rotate1 (as @ p # zs) = tl (as @ [p]) @ zs @ [hd (as @ [p])]" for zs by (cases as) simp_all
  have "map f as @ (f p # f q # map f bs) = map Some (tl (as @ [p])) @ (Some q # map Some (bs @ [hd (as @ [p])]))"
    using assms unfolding r by simp
  then have "map f as = map Some (tl (as @ [p]))" "f q # map f bs = map Some (bs @ [hd (as @ [p])])"
    by (subst (asm) append_eq_append_conv; simp)+
  then show ?thesis unfolding r map_append by (simp only:)
qed

lemma rr_unlink_list:
  assumes "rr_list (as @ p # q # bs) si" "prev = p"
  defines "si1 \<equiv> upd_q p (\<lambda>x. x\<lparr>rr_qnext := rr_qnext (si_q si ! q)\<rparr>) si"
  defines "si2 \<equiv> (if rr_tail si1 = Some q then si1\<lparr>rr_tail := Some p\<rparr> else si1)"
  shows "rr_list (as @ p # bs) (upd_q q (\<lambda>x. x\<lparr>rr_status := False\<rparr>) si2)" (is "rr_list _ ?si")
    and "same_queues si (upd_q q (\<lambda>x. x\<lparr>rr_status := False\<rparr>) si2)"
proof -
  have l: "distinct (as @ p # q # bs)" "set (as @ p # q # bs) \<subseteq> {..<length (si_q si)}"
    "rr_head si = Some (hd (as @ [p]))" "rr_tail si = Some (last (q # bs))"
    "map (\<lambda>i. rr_qnext (si_q si ! i)) (as @ p # q # bs) = map Some (rotate1 (as @ p # q # bs))"
    "\<And>i. i < length (si_q si) \<Longrightarrow> rr_status (si_q si ! i) \<longleftrightarrow> i \<in> set (as @ p # q # bs)"
    using assms(1) by (auto simp: rr_list_def hd_append)
  have len: "length (si_q si2) = length (si_q si)" by (simp add: si2_def si1_def)
  have q: "si_q ?si ! i = (if i = q then (si_q si ! q)\<lparr>rr_status := False\<rparr>
      else if i = p then (si_q si ! p)\<lparr>rr_qnext := rr_qnext (si_q si ! q)\<rparr> else si_q si ! i)" if "i < length (si_q si)" for i
    using that l(1) len by (auto simp: si2_def si1_def)
  show "same_queues si ?si" using q len by (simp add: same_queues_def same_traffic_def si2_def si1_def)
  have "rr_qnext (si_q ?si ! i) = rr_qnext (si_q si ! i)" if "i \<in> set as \<union> set bs" for i
    using q [of i] that l(1,2) by auto
  then have "map (\<lambda>i. rr_qnext (si_q ?si ! i)) (as @ p # bs) =
      map (\<lambda>i. rr_qnext (si_q si ! i)) as @ rr_qnext (si_q si ! q) # map (\<lambda>i. rr_qnext (si_q si ! i)) bs"
    using q [of p] l(1,2) by auto
  then have "map (\<lambda>i. rr_qnext (si_q ?si ! i)) (as @ p # bs) = map Some (rotate1 (as @ p # bs))"
    using qnext_split [OF l(5)] by (rule trans)
  moreover have "rr_head ?si = Some (hd (as @ [p]))" using l(3) by (simp add: si2_def si1_def)
  moreover have "rr_tail ?si = Some (last (p # bs))" using l(1,4) by (auto simp: si2_def si1_def)
  moreover have "\<forall>i < length (si_q si). rr_status (si_q ?si ! i) \<longleftrightarrow> i \<in> set (as @ p # bs)"
    using l(1,6) q by auto
  ultimately show "rr_list (as @ p # bs) ?si" using l(1,2) len by (auto simp: rr_list_def hd_append)
qed

lemma remove_queue_q_list:
  assumes "rr_list xs si" "q \<in> set xs"
  shows "\<exists>si'. remove_queue_q q si = Some si' \<and> rr_list (remove1 q xs) si' \<and> same_queues si si'"
proof (cases xs)
  case (Cons h ys)
  have st: "rr_status (si_q si ! q)" and hd: "rr_head si = Some h" using assms Cons by (auto simp: rr_list_def)
  show ?thesis
  proof (cases "h = q")
    case True
    then show ?thesis using rr_remove_head_list [of h ys si] assms(1) Cons st hd
      by (intro exI [of _ "rr_remove_head si"]) (simp add: remove_queue_q_def)
  next
    case False
    then obtain us bs where u: "ys = us @ q # bs" "q \<notin> set us" using assms(2) Cons by (auto dest: split_list_first)
    obtain as p where p: "h # us = as @ [p]" by (metis list.distinct(1) rev_exhaust)
    have xs: "xs = as @ p # q # bs" using Cons u(1) p by (metis append_Cons append_assoc append_Nil)
    have "rr_find_prev q (Some (xs ! 0)) si = Some (Some (xs ! length as))"
      by (rule rr_find_prev_found [OF assms(1)]) (simp_all add: xs nth_append)
    moreover have "xs ! length as = p" by (simp add: xs)
    moreover have "rr_head si = Some (xs ! 0)" using Cons hd by simp
    ultimately have f: "rr_find_prev q (rr_head si) si = Some (Some p)" by simp
    have "q \<notin> set (as @ [p])" unfolding p [symmetric] using u(2) False by auto
    then have "remove1 q xs = as @ p # bs" unfolding xs by (simp add: remove1_append)
    then show ?thesis
      using rr_unlink_list [OF assms(1) [unfolded xs] refl] st hd False f
      by (simp add: remove_queue_q_def Let_def)
  qed
qed (use assms in simp)

section \<open>The invariant\<close>

definition rr_backlog :: "rr_si \<Rightarrow> nat \<Rightarrow> mbuf list" where
  "rr_backlog si f = (if f < length (si_q si) then q_mq (si_q si ! f) else [])"

text \<open>A packet is shorter than 2 GB, and a queue has a positive quantum that leaves room in
  the 32-bit credit.\<close>

definition rr_traffic :: "rr_si \<Rightarrow> bool" where
  "rr_traffic si \<longleftrightarrow> (\<forall>i < length (si_q si).
     0 < rr_quantum (si_q si ! i) \<and> unat (rr_quantum (si_q si ! i)) < 2 ^ 31 \<and>
     (\<forall>m \<in> set (q_mq (si_q si ! i)). flow_id m = i \<and> unat (m_iov_len m) < 2 ^ 31))"

definition rr_inv :: "rr_si \<Rightarrow> bool" where
  "rr_inv si \<longleftrightarrow> rr_traffic si \<and> (\<exists>xs. rr_list xs si \<and> (\<forall>i < length (si_q si). q_mq (si_q si ! i) \<noteq> [] \<longrightarrow> i \<in> set xs))"

definition rr_ok :: "mbuf \<Rightarrow> rr_si \<Rightarrow> bool" where
  "rr_ok m si \<longleftrightarrow> flow_id m < length (si_q si) \<and> m_iov_len m < 2 ^ 31 \<and>
     m_addr m \<notin> m_addr ` set (q_mq (si_q si ! flow_id m))"

lemma same_traffic_backlog:
  "same_traffic si si' \<Longrightarrow> rr_backlog si' = rr_backlog si \<and> (rr_traffic si' \<longleftrightarrow> rr_traffic si)"
  by (auto simp: same_traffic_def rr_backlog_def rr_traffic_def fun_eq_iff)

section \<open>Enqueue\<close>

lemma is_mq_head_simps:
  "is_mq_head m q \<longleftrightarrow> q_mq q \<noteq> [] \<and> m_addr (hd (q_mq q)) = m_addr m"
  by (auto simp: is_mq_head_def mq_peek_def split: list.splits)

lemma dn_enqueue_rr:
  assumes "dn_enqueue m False x = (d, x')"
  shows "rr_status x' = rr_status x" "rr_quantum x' = rr_quantum x" "rr_qnext x' = rr_qnext x" "rr_credit x' = rr_credit x"
  using assms by (auto simp: dn_enqueue_def mq_append_def Let_def split: if_splits)

lemma rr_list_upd:
  assumes "rr_list xs si" "\<And>i. i < length (si_q si) \<Longrightarrow> rr_status (si_q si' ! i) = rr_status (si_q si ! i) \<and>
      rr_qnext (si_q si' ! i) = rr_qnext (si_q si ! i)"
    and "length (si_q si') = length (si_q si)" "rr_head si' = rr_head si" "rr_tail si' = rr_tail si"
  shows "rr_list xs si'"
proof -
  have "i < length (si_q si)" if "i \<in> set xs" for i using assms(1) that by (auto simp: rr_list_def)
  then have "map (\<lambda>i. rr_qnext (si_q si' ! i)) xs = map (\<lambda>i. rr_qnext (si_q si ! i)) xs"
    by (intro map_cong [OF refl]) (use assms(2) in blast)
  also have "\<dots> = map Some (rotate1 xs)" using assms(1) by (simp add: rr_list_def)
  finally show ?thesis using assms(2-) assms(1) [unfolded rr_list_def] unfolding rr_list_def by metis
qed


lemma rr_inv_same:
  assumes "rr_list xs si'" "same_traffic si si'" "rr_traffic si"
    and "\<And>i. i < length (si_q si) \<Longrightarrow> q_mq (si_q si ! i) \<noteq> [] \<Longrightarrow> i \<in> set xs"
  shows "rr_inv si'"
  using assms same_traffic_backlog [OF assms(2)] by (auto simp: rr_inv_def same_traffic_def intro!: exI [of _ xs])

lemma rr_activate_inv:
  assumes "rr_list xs si" "rr_traffic si" "q < length (si_q si)"
    and "\<And>i. i < length (si_q si) \<Longrightarrow> q_mq (si_q si ! i) \<noteq> [] \<Longrightarrow> i \<noteq> q \<Longrightarrow> i \<in> set xs"
  shows "rr_inv (rr_activate q si) \<and> rr_backlog (rr_activate q si) = rr_backlog si"
proof (cases "rr_status (si_q si ! q)")
  case True
  then have "q \<in> set xs" using assms(1,3) by (simp add: rr_list_def)
  then show ?thesis using assms True by (auto simp: rr_activate_def rr_inv_def intro!: exI [of _ xs])
next
  case False
  then have "q \<notin> set xs" using assms(1,3) by (simp add: rr_list_def)
  note a = rr_append_list [OF assms(1,3) this]
  have "rr_inv (rr_append q si)"
    by (rule rr_inv_same [OF a(1,2) assms(2)]) (use assms(4) in auto)
  then show ?thesis using False same_traffic_backlog [OF a(2)] by (simp add: rr_activate_def)
qed

lemma rr_enqueue_law:
  assumes "rr_inv si" "rr_ok m si" "rr_enqueue (flow_id m) m si = (d, si')"
  shows "rr_inv si' \<and> rr_backlog si' =
    (if d then rr_backlog si else (rr_backlog si)(flow_id m := rr_backlog si (flow_id m) @ [m]))"
proof -
  let ?q = "flow_id m"
  have q: "?q < length (si_q si)" and len: "unat (m_iov_len m) < 2 ^ 31"
    and addr: "m_addr m \<notin> m_addr ` set (q_mq (si_q si ! ?q))" using assms(2) by (simp_all add: rr_ok_def word_less_nat_alt)
  obtain xs where xs: "rr_list xs si" "rr_traffic si"
    "\<And>i. i < length (si_q si) \<Longrightarrow> q_mq (si_q si ! i) \<noteq> [] \<Longrightarrow> i \<in> set xs" using assms(1) by (auto simp: rr_inv_def)
  obtain dr x where e: "dn_enqueue m False (si_q si ! ?q) = (dr, x)" by fastforce
  let ?si = "upd_q ?q (\<lambda>_. x) si"
  note x = dn_enqueue_simps [OF e] dn_enqueue_rr [OF e]
  have l: "rr_list xs ?si" by (rule rr_list_upd [OF xs(1)]) (use x(2-5) in auto)
  have tr: "rr_traffic ?si"
    using xs(2) x len q by (auto simp: rr_traffic_def split: if_splits)
  have b: "rr_backlog ?si = (if dr then rr_backlog si else (rr_backlog si)(?q := rr_backlog si ?q @ [m]))"
    using x(1) q by (auto simp: rr_backlog_def fun_eq_iff)
  have nh: "\<not> is_mq_head m (si_q si ! ?q)" using addr by (cases "q_mq (si_q si ! ?q)") (auto simp: is_mq_head_simps)
  have busy: "is_mq_head m x \<longleftrightarrow> q_mq (si_q si ! ?q) = []" if "\<not> dr"
    using that x(1) addr by (cases "q_mq (si_q si ! ?q)") (auto simp: is_mq_head_simps)
  consider "dr" | "\<not> dr" "\<not> is_mq_head m x" | "\<not> dr" "is_mq_head m x" by blast
  then show ?thesis
  proof cases
    case 1
    then have "si' = ?si" "d" using assms(3) nh e by (auto simp: rr_enqueue_def Let_def)
    moreover have "rr_inv ?si" using l tr xs(3) x(1) 1 q by (auto simp: rr_inv_def intro!: exI [of _ xs] split: if_splits)
    ultimately show ?thesis using b 1 by simp
  next
    case 2
    then have "si' = ?si" "\<not> d" using assms(3) nh e by (auto simp: rr_enqueue_def Let_def)
    moreover have "rr_inv ?si" using l tr xs(3) busy 2 q by (auto simp: rr_inv_def intro!: exI [of _ xs] split: if_splits)
    ultimately show ?thesis using b 2 by simp
  next
    case 3
    then have "si' = rr_activate ?q ?si" "\<not> d" using assms(3) nh e by (auto simp: rr_enqueue_def Let_def)
    moreover have "rr_inv (rr_activate ?q ?si) \<and> rr_backlog (rr_activate ?q ?si) = rr_backlog ?si"
      by (rule rr_activate_inv [OF l tr]) (use q xs(3) in \<open>auto split: if_splits\<close>)
    ultimately show ?thesis using b 3 by simp
  qed
qed


section \<open>Dequeue\<close>

definition rr_ready :: "nat list \<Rightarrow> rr_si \<Rightarrow> bool" where
  "rr_ready xs si \<longleftrightarrow> rr_list xs si \<and> rr_traffic si \<and> (\<forall>i < length (si_q si). q_mq (si_q si ! i) \<noteq> [] \<longrightarrow> i \<in> set xs)"

lemma rr_inv_ready: "rr_inv si \<longleftrightarrow> (\<exists>xs. rr_ready xs si)"
  by (auto simp: rr_inv_def rr_ready_def)

text \<open>The credit that the first packet of a queue still needs.\<close>

definition rr_deficit :: "rr_queue \<Rightarrow> nat" where
  "rr_deficit x = (case q_mq x of [] \<Rightarrow> 0 | m # _ \<Rightarrow> unat (m_iov_len m) - unat (rr_credit x))"

definition rr_measure :: "nat list \<Rightarrow> rr_si \<Rightarrow> nat" where
  "rr_measure xs si = length xs + (\<Sum>i\<leftarrow>xs. rr_deficit (si_q si ! i))"

text \<open>What the dequeue gives.\<close>

definition rr_gives :: "rr_si \<Rightarrow> mbuf option \<Rightarrow> rr_si \<Rightarrow> bool" where
  "rr_gives si r si' \<longleftrightarrow> rr_inv si' \<and>
     (case r of
        None \<Rightarrow> (\<forall>f. rr_backlog si f = []) \<and> rr_backlog si' = rr_backlog si
      | Some m \<Rightarrow> rr_backlog si (flow_id m) = m # rr_backlog si' (flow_id m) \<and>
          (\<forall>f. f \<noteq> flow_id m \<longrightarrow> rr_backlog si' f = rr_backlog si f))"

lemma rr_step_empty:
  assumes "rr_ready (h # ys) si" "q_mq (si_q si ! h) = []"
  shows "\<exists>si1. rr_step si = Inl si1 \<and> rr_ready ys si1 \<and> rr_measure ys si1 < rr_measure (h # ys) si \<and>
    rr_backlog si1 = rr_backlog si"
proof -
  have l: "rr_list (h # ys) si" "rr_traffic si" "\<forall>i < length (si_q si). q_mq (si_q si ! i) \<noteq> [] \<longrightarrow> i \<in> set (h # ys)"
    using assms(1) by (simp_all add: rr_ready_def)
  note r = rr_remove_head_list [OF l(1)]
  have st: "same_traffic si (rr_remove_head si)" using r(2) by (simp add: same_queues_def)
  have "rr_step si = Inl (rr_remove_head si)"
    using l(1) assms(2) by (simp add: rr_step_def rr_list_def mq_peek_def)
  moreover have "rr_ready ys (rr_remove_head si)"
    using r(1) st l same_traffic_backlog [OF st] assms(2) by (auto simp: rr_ready_def same_traffic_def)
  moreover have "rr_deficit (si_q (rr_remove_head si) ! i) = rr_deficit (si_q si ! i)" if "i \<in> set ys" for i
  proof -
    have "i < length (si_q si)" using l(1) that by (auto simp: rr_list_def)
    then have "q_mq (si_q (rr_remove_head si) ! i) = q_mq (si_q si ! i)"
      "rr_credit (si_q (rr_remove_head si) ! i) = rr_credit (si_q si ! i)"
      using r(2) by (simp_all add: same_queues_def same_traffic_def)
    then show ?thesis unfolding rr_deficit_def by (simp only:)
  qed
  then have "(\<Sum>i\<leftarrow>ys. rr_deficit (si_q (rr_remove_head si) ! i)) = (\<Sum>i\<leftarrow>ys. rr_deficit (si_q si ! i))"
    by (intro arg_cong [of _ _ sum_list] map_cong) simp_all
  then have "rr_measure ys (rr_remove_head si) < rr_measure (h # ys) si" by (simp add: rr_measure_def)
  ultimately show ?thesis using same_traffic_backlog [OF st] by simp
qed

lemma rr_step_wait:
  assumes "rr_ready (h # ys) si" "q_mq (si_q si ! h) = m # ms" "m_iov_len m > ucast (rr_credit (si_q si ! h))"
  shows "\<exists>si1. rr_step si = Inl si1 \<and> rr_ready (rotate1 (h # ys)) si1 \<and>
    rr_measure (rotate1 (h # ys)) si1 < rr_measure (h # ys) si \<and> rr_backlog si1 = rr_backlog si"
proof -
  have l: "rr_list (h # ys) si" "rr_traffic si" "\<forall>i < length (si_q si). q_mq (si_q si ! i) \<noteq> [] \<longrightarrow> i \<in> set (h # ys)"
    using assms(1) by (simp_all add: rr_ready_def)
  have h: "h < length (si_q si)" "distinct (h # ys)" "\<And>i. i \<in> set ys \<Longrightarrow> i < length (si_q si)" using l(1) by (auto simp: rr_list_def)
  let ?si = "upd_q h (\<lambda>x. x\<lparr>rr_credit := rr_credit x + rr_quantum x\<rparr>) si"
  have l1: "rr_list (h # ys) ?si" by (rule rr_list_upd [OF l(1)]) simp_all
  note n = next_pointer_list [OF l1]
  have st: "same_traffic si (next_pointer ?si)" by (simp add: same_traffic_def n)
  have "rr_step si = Inl (next_pointer ?si)"
    using l(1) assms(2,3) by (simp add: rr_step_def rr_list_def mq_peek_def)
  moreover have "rr_ready (rotate1 (h # ys)) (next_pointer ?si)"
    using n(1) st l same_traffic_backlog [OF st] by (auto simp: rr_ready_def same_traffic_def)
  moreover have "rr_deficit (si_q ?si ! h) < rr_deficit (si_q si ! h)"
  proof -
    have len: "unat (m_iov_len m) < 2 ^ 31" and q: "0 < unat (rr_quantum (si_q si ! h))" "unat (rr_quantum (si_q si ! h)) < 2 ^ 31"
      using l(2) h(1) assms(2) by (auto simp: rr_traffic_def unat_gt_0)
    have cr: "unat (rr_credit (si_q si ! h)) < unat (m_iov_len m)"
      using assms(3) by (simp add: word_less_nat_alt unat_ucast_up)
    then have "unat (rr_credit (si_q si ! h) + rr_quantum (si_q si ! h)) = unat (rr_credit (si_q si ! h)) + unat (rr_quantum (si_q si ! h))"
      using len q(2) by (simp add: unat_word_ariths)
    then show ?thesis using cr q(1) h(1) assms(2) by (simp add: rr_deficit_def)
  qed
  moreover have "rr_deficit (si_q ?si ! i) = rr_deficit (si_q si ! i)" if "i \<in> set ys" for i
    using that h by auto
  then have "(\<Sum>i\<leftarrow>ys. rr_deficit (si_q ?si ! i)) = (\<Sum>i\<leftarrow>ys. rr_deficit (si_q si ! i))"
    by (intro arg_cong [of _ _ sum_list] map_cong) simp_all
  ultimately show ?thesis using same_traffic_backlog [OF st] by (auto simp: rr_measure_def n(2))
qed


lemma rr_step_give:
  assumes "rr_ready (h # ys) si" "q_mq (si_q si ! h) = m # ms" "\<not> m_iov_len m > ucast (rr_credit (si_q si ! h))"
  shows "\<exists>si1. rr_step si = Inr (Some m, si1) \<and> rr_gives si (Some m) si1"
proof -
  have l: "rr_list (h # ys) si" "rr_traffic si" "\<forall>i < length (si_q si). q_mq (si_q si ! i) \<noteq> [] \<longrightarrow> i \<in> set (h # ys)"
    using assms(1) by (simp_all add: rr_ready_def)
  have h: "h < length (si_q si)" "flow_id m = h" using l(1,2) assms(2) by (auto simp: rr_list_def rr_traffic_def)
  let ?x = "(si_q si ! h)\<lparr>rr_credit := rr_credit (si_q si ! h) - ucast (m_iov_len m)\<rparr>"
  obtain r x ni where d: "dn_dequeue ?x (si_ni si) = (r, x, ni)" by (metis prod_cases3)
  have x: "r = Some m" "q_mq x = ms" "rr_status x = rr_status (si_q si ! h)" "rr_qnext x = rr_qnext (si_q si ! h)"
    "rr_quantum x = rr_quantum (si_q si ! h)"
    using d assms(2) by (auto simp: dn_dequeue_def mq_dequeue_def mq_peek_def Let_def split: if_splits)
  let ?si = "si\<lparr>si_ni := ni, si_q := (si_q si)[h := x]\<rparr>"
  have step: "rr_step si = Inr (Some m, ?si)"
    using l(1) assms(2,3) d x(1) h(1) by (simp add: rr_step_def rr_list_def mq_peek_def si_dequeue_def upd_q_def)
  have nth: "(si_q si)[h := x] ! i = (if i = h then x else si_q si ! i)" for i
    using h(1) by (simp add: nth_list_update)
  have "rr_list (h # ys) ?si" by (rule rr_list_upd [OF l(1)]) (use x in \<open>auto simp: nth\<close>)
  moreover have "rr_traffic ?si" using l(2) x(2,5) assms(2) h by (auto simp: rr_traffic_def nth)
  moreover have "\<forall>i < length (si_q ?si). q_mq (si_q ?si ! i) \<noteq> [] \<longrightarrow> i \<in> set (h # ys)" using l(3) by (auto simp: nth)
  ultimately have "rr_inv ?si" unfolding rr_inv_def by (intro conjI exI [of _ "h # ys"])
  moreover have "rr_backlog ?si = (rr_backlog si)(h := ms)" using h(1) x(2) by (simp add: rr_backlog_def fun_eq_iff nth)
  ultimately have "rr_gives si (Some m) ?si" using h assms(2) by (simp add: rr_gives_def rr_backlog_def)
  then show ?thesis using step by blast
qed

lemma rr_step_cases:
  assumes "rr_ready xs si"
  obtains (go) si1 xs1 where "rr_step si = Inl si1" "rr_ready xs1 si1" "rr_measure xs1 si1 < rr_measure xs si"
      "rr_backlog si1 = rr_backlog si"
    | (fin) r si1 where "rr_step si = Inr (r, si1)" "rr_gives si r si1"
proof (cases xs)
  case Nil
  then have "rr_step si = Inr (None, si)" using assms by (simp add: rr_step_def rr_ready_def rr_list_def)
  moreover have "rr_gives si None si"
    using assms Nil by (auto simp: rr_gives_def rr_ready_def rr_backlog_def rr_inv_def)
  ultimately show ?thesis by (rule fin)
next
  case (Cons h ys)
  show ?thesis
  proof (cases "q_mq (si_q si ! h)")
    case Nil
    then show ?thesis using rr_step_empty [of h ys si] assms Cons go by blast
  next
    case (Cons m ms)
    then show ?thesis
      using rr_step_wait [of h ys si m ms] rr_step_give [of h ys si m ms] assms \<open>xs = h # ys\<close> go fin by metis
  qed
qed

lemma rr_dequeue_gives:
  assumes "rr_ready xs si"
  shows "\<exists>r si'. rr_dequeue si = Some (r, si') \<and> rr_gives si r si'"
  using assms
proof (induction "rr_measure xs si" arbitrary: xs si rule: less_induct)
  case less
  from less.prems show ?case
  proof (cases rule: rr_step_cases)
    case (go si1 xs1)
    obtain r si' where r: "rr_dequeue si1 = Some (r, si')" "rr_gives si1 r si'"
      using less.hyps [OF go(3,2)] by blast
    have "rr_dequeue si = Some (r, si')" using r(1) go(1) by (subst rr_dequeue.simps) simp
    moreover have "rr_gives si r si'" using r(2) go(4) unfolding rr_gives_def by (simp only:)
    ultimately show ?thesis by blast
  next
    case (fin r si1)
    then show ?thesis by (subst rr_dequeue.simps) simp
  qed
qed

interpretation rr: packet_sched rr_inv rr_backlog flow_id rr_ok "\<lambda>m si. rr_enqueue (flow_id m) m si" rr_dequeue
proof (unfold_locales, goal_cases)
  case (1 s m d s')
  then show ?case by (rule rr_enqueue_law)
next
  case (2 s)
  then obtain xs where "rr_ready xs s" by (auto simp: rr_inv_ready)
  then show ?case using rr_dequeue_gives by (fastforce simp: rr_gives_def)
qed

end
