(* ===== verification/Sched_Main_Contract.thy ===== *)
theory Sched_Main_Contract
  imports Sched_Main Dn_Sched_Rr_Contract
begin

text \<open>
  On top of any scheduler that meets the contract, the operations of \<open>sched_main.c\<close> meet it
  again: the counter of pending packets is the number of packets in the scheduler, so the
  test of the counter in front of the dequeue never hides a packet.
\<close>

section \<open>The backlog\<close>

definition backlog_size :: "(nat \<Rightarrow> mbuf list) \<Rightarrow> nat" where
  "backlog_size b = (\<Sum>f<65536. length (b f))"

lemma backlog_size_upd:
  assumes "f < 65536"
  shows "backlog_size (b(f := xs)) + length (b f) = backlog_size b + length xs"
proof -
  have "backlog_size c = length (c f) + (\<Sum>g \<in> {..<65536} - {f}. length (c g))" for c
    unfolding backlog_size_def using assms by (intro sum.remove) simp_all
  moreover have "(\<Sum>g \<in> {..<65536} - {f}. length ((b(f := xs)) g)) = (\<Sum>g \<in> {..<65536} - {f}. length (b g))"
    by (rule sum.cong) simp_all
  ultimately show ?thesis by simp
qed

lemma backlog_size_0: "backlog_size b = 0 \<Longrightarrow> f < 65536 \<Longrightarrow> b f = []"
  by (simp add: backlog_size_def)

section \<open>The counter\<close>

lemma sint_of_int_small: "- (2 ^ 31) \<le> x \<Longrightarrow> x < 2 ^ 31 \<Longrightarrow> sint (word_of_int x :: u32) = x"
  by (simp add: signed_of_int signed_take_bit_int_eq_self)

lemma sint_add_small:
  "- (2 ^ 31) \<le> sint (w :: u32) + x \<Longrightarrow> sint w + x < 2 ^ 31 \<Longrightarrow> sint (w + word_of_int x) = sint w + x"
proof -
  assume *: "- (2 ^ 31) \<le> sint w + x" "sint w + x < 2 ^ 31"
  have "w + word_of_int x = word_of_int (sint w + x)" by simp
  then show "sint (w + word_of_int x) = sint w + x" using sint_of_int_small [OF *] by metis
qed

lemmas sint_add_1 = sint_add_small [where x = 1, simplified]
lemmas sint_sub_1 = sint_add_small [where x = "-1", simplified]

section \<open>The contract of a scheduler module\<close>

definition main_inv :: "(('a, 'z) sched_inst \<Rightarrow> bool) \<Rightarrow> (('a, 'z) sched_inst \<Rightarrow> nat \<Rightarrow> mbuf list)
    \<Rightarrow> ('a, 'z) sched_inst dn_alg \<Rightarrow> ('a, 'z) sched_inst cfg_s \<Rightarrow> bool" where
  "main_inv invar backlog p c \<longleftrightarrow> c_alg c = p \<and> invar (c_si c) \<and> (\<forall>f \<ge> 65536. backlog (c_si c) f = []) \<and>
     sint (c_pending c) = int (backlog_size (backlog (c_si c)))"

definition main_ok :: "(mbuf \<Rightarrow> ('a, 'z) sched_inst \<Rightarrow> bool) \<Rightarrow> mbuf \<Rightarrow> ('a, 'z) sched_inst cfg_s \<Rightarrow> bool" where
  "main_ok ok m c \<longleftrightarrow> flow_id m < length (si_q (c_si c)) \<and> ok m (c_si c) \<and> sint (c_pending c) < 2 ^ 31 - 1"

definition main_enq :: "mbuf \<Rightarrow> ('a, 'z) sched_inst cfg_s \<Rightarrow> bool \<times> ('a, 'z) sched_inst cfg_s" where
  "main_enq m c = the (sched_enq m c)"

text \<open>The statistics are not part of the state that the scheduler depends on.\<close>

locale alg_sched = packet_sched invar backlog flow_of ok "\<lambda>m. alg_enqueue p (flow_id m) m" "alg_dequeue p"
  for invar :: "('a, 'z) sched_inst \<Rightarrow> bool" and backlog and flow_of and ok
    and p :: "('a, 'z) sched_inst dn_alg" +
  assumes flow_bound: "flow_of m < 65536"
    and stats_queue: "invar si \<Longrightarrow> invar (upd_q q (\<lambda>x. x\<lparr>q_ni := n\<rparr>) si) \<and>
      backlog (upd_q q (\<lambda>x. x\<lparr>q_ni := n\<rparr>) si) = backlog si"
    and stats_inst: "invar si \<Longrightarrow> invar (si\<lparr>si_ni := n\<rparr>) \<and> backlog (si\<lparr>si_ni := n\<rparr>) = backlog si"
begin

lemma stats_queue_fun:
  assumes "invar si"
  shows "invar (upd_q q (\<lambda>x. x\<lparr>q_ni := f (q_ni x)\<rparr>) si) \<and> backlog (upd_q q (\<lambda>x. x\<lparr>q_ni := f (q_ni x)\<rparr>) si) = backlog si"
proof -
  have "upd_q q (\<lambda>x. x\<lparr>q_ni := f (q_ni x)\<rparr>) si = upd_q q (\<lambda>x. x\<lparr>q_ni := f (q_ni (si_q si ! q))\<rparr>) si"
    by (simp add: upd_q_def)
  then show ?thesis using stats_queue [OF assms] by simp
qed

lemma gnet_stats_enq_law: "invar si \<Longrightarrow> invar (gnet_stats_enq q si) \<and> backlog (gnet_stats_enq q si) = backlog si"
  using stats_queue_fun [of si q "\<lambda>n. n\<lparr>fl_bytes := 0, sch_bytes := fl_bytes (si_ni si)\<rparr>"]
  by (simp add: gnet_stats_enq_def)

lemma gnet_stats_deq_law:
  assumes "invar si"
  shows "invar (gnet_stats_deq m si) \<and> backlog (gnet_stats_deq m si) = backlog si"
proof -
  note q = stats_queue_fun [OF assms, of "flow_id m" "\<lambda>n. n\<lparr>fl_bytes := fl_bytes n + scast (ucast (m_iov_len m) :: u32)\<rparr>"]
  show ?thesis using stats_inst [OF q [THEN conjunct1]] q by (simp add: gnet_stats_deq_def Let_def)
qed

lemma sched_enq_law:
  assumes "main_inv invar backlog p c" "main_ok ok m c" "main_enq m c = (d, c')"
  shows "main_inv invar backlog p c' \<and> backlog (c_si c') =
    (if d then backlog (c_si c) else (backlog (c_si c))(flow_of m := backlog (c_si c) (flow_of m) @ [m]))"
proof -
  have c: "c_alg c = p" "invar (c_si c)" "\<And>f. f \<ge> 65536 \<Longrightarrow> backlog (c_si c) f = []"
    "sint (c_pending c) = int (backlog_size (backlog (c_si c)))" using assms(1) by (simp_all add: main_inv_def)
  have k: "flow_id m < length (si_q (c_si c))" "ok m (c_si c)" "sint (c_pending c) < 2 ^ 31 - 1"
    using assms(2) by (simp_all add: main_ok_def)
  obtain r si where e: "alg_enqueue p (flow_id m) m (c_si c) = (r, si)" by fastforce
  have s: "invar si" "backlog si = (if r then backlog (c_si c)
      else (backlog (c_si c))(flow_of m := backlog (c_si c) (flow_of m) @ [m]))"
    using enq_law [OF c(2) k(2) e] by simp_all
  show ?thesis
  proof (cases r)
    case True
    then show ?thesis using assms(3) k(1) c e s by (auto simp: main_enq_def sched_enq_def main_inv_def)
  next
    case False
    note g = gnet_stats_enq_law [OF s(1), of "flow_id m"]
    have "sint (c_pending c + 1) = sint (c_pending c) + 1"
      by (rule sint_add_1) (use k(3) c(4) in simp_all)
    then have "sint (c_pending c + 1) = int (backlog_size (backlog si))"
      using backlog_size_upd [OF flow_bound, of "backlog (c_si c)" m "backlog (c_si c) (flow_of m) @ [m]"] c(4) s(2) False by simp
    then show ?thesis using False assms(3) k(1) c e s g flow_bound [of m]
      by (auto simp: main_enq_def sched_enq_def main_inv_def)
  qed
qed

lemma sched_deq_law:
  assumes "main_inv invar backlog p c"
  shows "\<exists>r c'. sched_deq c = Some (r, c') \<and> main_inv invar backlog p c' \<and>
    (case r of
       None \<Rightarrow> (\<forall>f. backlog (c_si c) f = []) \<and> backlog (c_si c') = backlog (c_si c)
     | Some m \<Rightarrow> backlog (c_si c) (flow_of m) = m # backlog (c_si c') (flow_of m) \<and>
         (\<forall>f. f \<noteq> flow_of m \<longrightarrow> backlog (c_si c') f = backlog (c_si c) f))"
proof -
  have c: "c_alg c = p" "invar (c_si c)" "\<And>f. f \<ge> 65536 \<Longrightarrow> backlog (c_si c) f = []"
    "sint (c_pending c) = int (backlog_size (backlog (c_si c)))" using assms(1) by (simp_all add: main_inv_def)
  obtain r si where d: "alg_dequeue p (c_si c) = Some (r, si)" "invar si" "case r of
         None \<Rightarrow> (\<forall>f. backlog (c_si c) f = []) \<and> backlog si = backlog (c_si c)
       | Some m \<Rightarrow> backlog (c_si c) (flow_of m) = m # backlog si (flow_of m) \<and>
           (\<forall>f. f \<noteq> flow_of m \<longrightarrow> backlog si f = backlog (c_si c) f)" using deq_law [OF c(2)] by blast
  show ?thesis
  proof (cases "c_pending c = 0")
    case True
    then have "backlog (c_si c) f = []" for f using c(3,4) backlog_size_0 [of "backlog (c_si c)" f] by (cases "f < 65536") simp_all
    then show ?thesis using True assms by (simp add: sched_deq_def)
  next
    case False
    show ?thesis
    proof (cases r)
      case None
      then show ?thesis using False c d by (simp add: sched_deq_def main_inv_def)
    next
      case (Some m)
      note b = d(3) [unfolded Some option.case]
      have "backlog si = (backlog (c_si c))(flow_of m := backlog si (flow_of m))" using b by (simp add: fun_eq_iff)
      then have n: "backlog_size (backlog (c_si c)) = Suc (backlog_size (backlog si))"
        using backlog_size_upd [OF flow_bound, of "backlog (c_si c)" m "backlog si (flow_of m)"] b by simp
      have "sint (c_pending c - 1) = sint (c_pending c) - 1"
        by (rule sint_sub_1) (use c(4) n sint_lt [of "c_pending c"] in simp_all)
      then show ?thesis using False c d(1) gnet_stats_deq_law [OF d(2), of m] b n flow_bound [of m] Some
        by (auto simp: sched_deq_def main_inv_def)
    qed
  qed
qed

end

sublocale alg_sched \<subseteq> main: packet_sched "main_inv invar backlog p" "\<lambda>c. backlog (c_si c)" flow_of "main_ok ok" main_enq sched_deq
proof (unfold_locales, goal_cases)
  case (1 s m d s')
  then show ?case by (rule sched_enq_law)
next
  case (2 s)
  then show ?case by (rule sched_deq_law)
qed

section \<open>The modules\<close>

interpretation fifo_alg: alg_sched "\<lambda>s. True" fifo_backlog "\<lambda>m. 0" "\<lambda>m s. True" fifo_desc
proof (unfold_locales, goal_cases)
  case (1 s m d s')
  then show ?case using fifo.enq_law [of m s d s'] by (simp add: fifo_desc_def)
next
  case (2 s)
  then show ?case using fifo.deq_law [of s] by (simp add: fifo_desc_def)
qed (simp_all add: fifo_backlog_def fun_eq_iff upd_q_def)

lemma rr_inv_stats:
  assumes "rr_inv si" "length (si_q si') = length (si_q si)" "rr_head si' = rr_head si" "rr_tail si' = rr_tail si"
    and "\<And>i. i < length (si_q si) \<Longrightarrow> rr_status (si_q si' ! i) = rr_status (si_q si ! i) \<and>
      rr_qnext (si_q si' ! i) = rr_qnext (si_q si ! i) \<and> rr_quantum (si_q si' ! i) = rr_quantum (si_q si ! i) \<and>
      q_mq (si_q si' ! i) = q_mq (si_q si ! i)"
  shows "rr_inv si' \<and> rr_backlog si' = rr_backlog si"
proof -
  obtain xs where xs: "rr_list xs si" "rr_traffic si" "\<forall>i < length (si_q si). q_mq (si_q si ! i) \<noteq> [] \<longrightarrow> i \<in> set xs"
    using assms(1) by (auto simp: rr_inv_def)
  have "rr_list xs si'" by (rule rr_list_upd [OF xs(1)]) (use assms in auto)
  moreover have "rr_traffic si'" using xs(2) assms(2,5) by (auto simp: rr_traffic_def)
  moreover have "rr_backlog si' = rr_backlog si" using assms(2,5) by (auto simp: rr_backlog_def fun_eq_iff)
  ultimately show ?thesis using xs(3) assms(2,5) by (auto simp: rr_inv_def intro!: exI [of _ xs])
qed

interpretation rr_alg: alg_sched rr_inv rr_backlog flow_id rr_ok rr_desc
proof (unfold_locales, goal_cases)
  case (1 s m d s')
  then show ?case using rr.enq_law [of s m d s'] by (simp add: rr_desc_def)
next
  case (2 s)
  then show ?case using rr.deq_law [of s] by (simp add: rr_desc_def)
next
  case (3 m)
  show ?case using unsigned_less [of "m_flow_id m"] by (simp add: flow_id_def)
next
  case (4 si q n)
  then show ?case by (rule rr_inv_stats) simp_all
next
  case (5 si n)
  then show ?case by (rule rr_inv_stats) simp_all
qed

end
