(* ===== verification/Sched_Main_Init.thy ===== *)
theory Sched_Main_Init
  imports Sched_Main_Contract
begin

text \<open>
  The two passes over the list of flowsets agree: the second one, run on the arrays that the
  first one sized, fills every flowset, and links every queue to the flowset whose range of
  flows contains it.  The round robin scheduler that \<open>init\<close> sets up satisfies its invariant.
\<close>

section \<open>The entries of the list\<close>

function entries :: "string option \<Rightarrow> string list" where
  "entries s = (case strsep (CHR '','') s of (None, _) \<Rightarrow> [] | (Some cur, r) \<Rightarrow> cur # entries r)"
  by pat_completeness auto

termination entries
  by (relation "measure (\<lambda>s. case s of None \<Rightarrow> 0 | Some x \<Rightarrow> Suc (length x))") (auto dest: strsep_shorter [OF sym])

declare entries.simps [simp del]

fun ps_entries :: "bool \<Rightarrow> int \<Rightarrow> string list \<Rightarrow> parse_state \<Rightarrow> (bool \<times> parse_state) option" where
  "ps_entries pass k [] st = Some (True, st)"
| "ps_entries pass k (cur # cs) st =
    (case ps_entry pass k cur st of
       None \<Rightarrow> None
     | Some (go, st) \<Rightarrow> if go then ps_entries pass k cs st else Some (False, st))"

lemma ps_loop_entries: "ps_loop pass k s st = ps_entries pass k (entries s) st"
proof (induction pass k s st rule: ps_loop.induct)
  case (1 pass k s st)
  show ?case
  proof (cases "strsep (CHR '','') s")
    case (Pair t r)
    show ?thesis
    proof (cases t)
      case None
      then show ?thesis using Pair by (simp add: ps_loop.simps [of _ _ s] entries.simps [of s])
    next
      case (Some cur)
      then show ?thesis using Pair 1 [OF Pair [symmetric] Some]
        by (auto simp: ps_loop.simps [of _ _ s] entries.simps [of s] split: option.splits prod.splits)
    qed
  qed
qed

definition entry_flows :: "flowspec \<Rightarrow> int" where
  "entry_flows f = fflows f * fw_steps f * fl_steps f"

text \<open>Every entry is right and has a positive number of flows, and the flows can be counted
  by an \<open>int\<close>.\<close>

definition entry_fits :: "flowspec \<Rightarrow> bool" where
  "entry_fits f \<longleftrightarrow> \<not> wrong_entry f \<and> 0 < fflows f \<and> 0 \<le> fw_steps f \<and> 0 \<le> fl_steps f"

definition flowsets_fit :: "string \<Rightarrow> bool" where
  "flowsets_fit s \<longleftrightarrow> list_all (\<lambda>cur. entry_fits (parse_entry cur)) (entries (Some s)) \<and>
     sum_list (map (\<lambda>cur. entry_flows (parse_entry cur)) (entries (Some s))) < 2 ^ 31"

lemma i32_small: "- (2 ^ 31) \<le> x \<Longrightarrow> x < 2 ^ 31 \<Longrightarrow> i32 x = x"
  unfolding i32_def by (rule sint_of_int_small)

lemma entry_cells_flows:
  assumes "entry_fits f"
  shows "int (length (entry_cells f)) * fflows f = entry_flows f"
  using assms by (simp add: entry_cells_def entry_fits_def entry_flows_def)

section \<open>The first pass\<close>

lemma ps_cells_count:
  "ps_cells False k f ijs st = Some (go, st') \<Longrightarrow> go \<and> st' = st\<lparr>ps_fs := ps_fs st + length ijs\<rparr>"
proof (induction ijs arbitrary: st)
  case (Cons ij ijs)
  then have "ps_cells False k f ijs (st\<lparr>ps_fs := ps_fs st + 1\<rparr>) = Some (go, st')"
    by (auto simp: ps_cell_def Let_def split: if_splits)
  then show ?case using Cons.IH by fastforce
qed simp

lemma ps_entry_count:
  assumes "ps_entry False k cur st = Some (go, st')" "entry_fits (parse_entry cur)"
  shows "go \<and> st' = st\<lparr>ps_flows := i32 (ps_flows st + entry_flows (parse_entry cur)),
    ps_fs := ps_fs st + length (entry_cells (parse_entry cur))\<rparr>"
  using assms by (auto simp: ps_entry_def Let_def entry_fits_def entry_flows_def dest!: ps_cells_count)

section \<open>The second pass\<close>

text \<open>The flowsets filled so far share out the flows in order.\<close>

definition fs_chain :: "dn_fs list \<Rightarrow> nat \<Rightarrow> bool" where
  "fs_chain arr n \<longleftrightarrow> n \<le> length arr \<and>
     (\<forall>k < n. first_flow (arr ! k) = (if k = 0 then 0 else next_flow (arr ! (k - 1))) \<and>
        first_flow (arr ! k) < next_flow (arr ! k))"

definition ps_ok :: "parse_state \<Rightarrow> bool" where
  "ps_ok st \<longleftrightarrow> fs_chain (ps_arr st) (ps_fs st) \<and>
     ps_prev st = (if ps_fs st = 0 then None else Some (ps_arr st ! (ps_fs st - 1)))"

definition linked_flows :: "parse_state \<Rightarrow> int" where
  "linked_flows st = (case ps_prev st of None \<Rightarrow> 0 | Some p \<Rightarrow> next_flow p)"

lemma fs_chain_next:
  "fs_chain arr n \<Longrightarrow> k < n \<Longrightarrow> 0 \<le> first_flow (arr ! k) \<and> 0 < next_flow (arr ! k)"
proof (induction k)
  case (Suc k)
  then have "first_flow (arr ! Suc k) = next_flow (arr ! k)" "first_flow (arr ! Suc k) < next_flow (arr ! Suc k)"
    unfolding fs_chain_def by auto
  then show ?case using Suc by simp
qed (force simp: fs_chain_def)

lemma ps_cell_fill:
  assumes "ps_cell False k0 f ij st0 = Some r" "ps_ok st" "int (ps_fs st) < k" "nat k \<le> length (ps_arr st)"
    and "0 < fflows f" "0 \<le> linked_flows st" "linked_flows st + fflows f < 2 ^ 31"
  shows "\<exists>st'. ps_cell True k f ij st = Some (True, st') \<and> ps_ok st' \<and> ps_fs st' = Suc (ps_fs st) \<and>
    linked_flows st' = linked_flows st + fflows f \<and> ps_flows st' = ps_flows st \<and> length (ps_arr st') = length (ps_arr st)"
proof -
  let ?n = "ps_fs st"
  let ?wi = "range_step (fw f) (fw_h f) (fw_steps f) (fst ij)" and ?li = "range_step (flen f) (flen_h f) (fl_steps f) (snd ij)"
  define fs where "fs = fill_fs ?n ?wi ?li (i32 (?wi * 2048) sdiv ?li) (fflows f) (ps_prev st) (ps_arr st ! ?n)"
  let ?st = "st\<lparr>ps_wsum := i32 (ps_wsum st + ?wi * fflows f), ps_arr := (ps_arr st)[?n := fs], ps_prev := Some fs, ps_fs := ?n + 1\<rparr>"
  have n: "?n < length (ps_arr st)" using assms(3,4) by linarith
  have fs: "first_flow fs = linked_flows st" "next_flow fs = linked_flows st + fflows f"
    using assms(5-7) by (simp_all add: fs_def fill_fs_def linked_flows_def Let_def i32_small)
  have "ps_cell True k f ij st = Some (True, ?st)"
    using assms(1,3) by (auto simp: ps_cell_def Let_def fs_def split: if_splits)
  moreover have "fs_chain ((ps_arr st)[?n := fs]) (Suc ?n)"
    using assms(2,5) n fs by (auto simp: fs_chain_def ps_ok_def less_Suc_eq linked_flows_def nth_list_update)
  ultimately show ?thesis using n fs by (simp add: ps_ok_def linked_flows_def)
qed

lemma ps_cells_fill:
  assumes "ps_cells False k0 f ijs st0 = Some r" "ps_ok st" "int (ps_fs st + length ijs) \<le> k" "nat k \<le> length (ps_arr st)"
    and "0 < fflows f" "0 \<le> linked_flows st" "linked_flows st + int (length ijs) * fflows f < 2 ^ 31"
  shows "\<exists>st'. ps_cells True k f ijs st = Some (True, st') \<and> ps_ok st' \<and> ps_fs st' = ps_fs st + length ijs \<and>
    linked_flows st' = linked_flows st + int (length ijs) * fflows f \<and> ps_flows st' = ps_flows st \<and>
    length (ps_arr st') = length (ps_arr st)"
  using assms
proof (induction ijs arbitrary: st st0)
  case (Cons ij ijs)
  obtain r1 st1 where r1: "ps_cell False k0 f ij st0 = Some (r1, st1)" "ps_cells False k0 f ijs st1 = Some r"
    using Cons.prems(1) by (auto simp: ps_cell_def Let_def split: if_splits)
  have s: "0 \<le> int (length ijs) * fflows f" using Cons.prems(5) by simp
  have t: "int (length (ij # ijs)) * fflows f = fflows f + int (length ijs) * fflows f" by (simp add: algebra_simps)
  obtain st2 where st2: "ps_cell True k f ij st = Some (True, st2)" "ps_ok st2" "ps_fs st2 = Suc (ps_fs st)"
    "linked_flows st2 = linked_flows st + fflows f" "ps_flows st2 = ps_flows st" "length (ps_arr st2) = length (ps_arr st)"
    using ps_cell_fill [OF r1(1) Cons.prems(2) _ Cons.prems(4-6)] Cons.prems(3,7) s unfolding t by auto
  obtain st3 where "ps_cells True k f ijs st2 = Some (True, st3)" "ps_ok st3" "ps_fs st3 = ps_fs st2 + length ijs"
    "linked_flows st3 = linked_flows st2 + int (length ijs) * fflows f" "ps_flows st3 = ps_flows st2"
    "length (ps_arr st3) = length (ps_arr st2)"
    using Cons.IH [OF r1(2) st2(2)] Cons.prems(3-7) st2 t by auto
  then show ?case using st2 t by auto
qed simp

lemma entry_flows_nonneg: "entry_fits f \<Longrightarrow> 0 \<le> entry_flows f"
  by (simp add: entry_fits_def entry_flows_def)

text \<open>The two passes side by side.\<close>

lemma ps_entries_fill:
  assumes "ps_entries False k0 cs st0 = Some (True, stc)" "list_all (\<lambda>cur. entry_fits (parse_entry cur)) cs"
    and "ps_ok st" "ps_fs st0 = ps_fs st" "ps_flows st0 = ps_flows st" "linked_flows st = ps_flows st" "0 \<le> ps_flows st"
    and "int (ps_fs stc) \<le> k" "nat k \<le> length (ps_arr st)"
    and "ps_flows st + sum_list (map (\<lambda>cur. entry_flows (parse_entry cur)) cs) < 2 ^ 31"
  shows "\<exists>st'. ps_entries True k cs st = Some (True, st') \<and> ps_ok st' \<and> ps_fs st' = ps_fs stc \<and> ps_flows st' = ps_flows stc \<and>
    linked_flows st' = ps_flows stc \<and> length (ps_arr st') = length (ps_arr st)"
  using assms
proof (induction cs arbitrary: st st0)
  case (Cons cur cs)
  let ?f = "parse_entry cur" and ?S = "sum_list (map (\<lambda>cur. entry_flows (parse_entry cur)) cs)"
  have f: "entry_fits ?f" and fs: "list_all (\<lambda>cur. entry_fits (parse_entry cur)) cs" using Cons.prems(2) by simp_all
  obtain go st1 where e: "ps_entry False k0 cur st0 = Some (go, st1)" using Cons.prems(1) by (auto split: option.splits)
  note c = ps_entry_count [OF e f]
  have rest: "ps_entries False k0 cs st1 = Some (True, stc)" using Cons.prems(1) e c by simp
  have S: "0 \<le> ?S" using fs entry_flows_nonneg by (induction cs) auto
  note n = entry_flows_nonneg [OF f]
  have fl: "i32 (ps_flows st + entry_flows ?f) = ps_flows st + entry_flows ?f"
    using Cons.prems(7,10) S n by (intro i32_small) simp_all
  have mono: "ps_fs st1 \<le> ps_fs stc" using rest fs
  proof (induction cs arbitrary: st1)
    case (Cons cur cs)
    then show ?case by (fastforce split: option.splits prod.splits if_splits dest: ps_entry_count)
  qed simp
  obtain r where r: "ps_cells False k0 ?f (entry_cells ?f) (st0\<lparr>ps_flows := i32 (ps_flows st0 + entry_flows ?f)\<rparr>) = Some r"
    using e f by (simp add: ps_entry_def Let_def entry_fits_def entry_flows_def)
  let ?st = "st\<lparr>ps_flows := ps_flows st + entry_flows ?f\<rparr>"
  have st: "ps_ok ?st" "linked_flows ?st = ps_flows st" "ps_fs ?st = ps_fs st" "ps_arr ?st = ps_arr st"
    using Cons.prems(3,6) by (simp_all add: ps_ok_def linked_flows_def)
  have "ps_fs st + length (entry_cells ?f) = ps_fs st1" using c Cons.prems(4) by simp
  then obtain st2 where st2: "ps_cells True k ?f (entry_cells ?f) ?st = Some (True, st2)" "ps_ok st2" "ps_fs st2 = ps_fs st1"
    "linked_flows st2 = ps_flows st + entry_flows ?f" "ps_flows st2 = ps_flows st + entry_flows ?f"
    "length (ps_arr st2) = length (ps_arr st)"
    using ps_cells_fill [OF r st(1), of k] st entry_cells_flows [OF f] f mono Cons.prems(7-10) S n
    by (auto simp: entry_fits_def)
  have e2: "ps_entry True k cur st = Some (True, st2)"
    using st2(1) f fl by (simp add: ps_entry_def Let_def entry_fits_def entry_flows_def)
  have "ps_flows st1 = ps_flows st2" using c fl Cons.prems(5) st2(5) by simp
  then show ?case using Cons.IH [OF rest fs st2(2) _ _ _ _ Cons.prems(8)] st2 e2 Cons.prems(7,9,10) n by auto
qed simp

section \<open>Linking\<close>

text \<open>Linking changes the flowset of the queues that it names and nothing else.\<close>

definition only_fs :: "('a, 'z) sched_inst \<Rightarrow> ('a, 'z) sched_inst \<Rightarrow> bool" where
  "only_fs si si' \<longleftrightarrow> (\<exists>qs. si' = si\<lparr>si_q := qs\<rparr> \<and> length qs = length (si_q si) \<and>
     (\<forall>j < length qs. \<exists>v. qs ! j = (si_q si ! j)\<lparr>q_fs := v\<rparr>))"

lemma only_fs_refl: "only_fs si si"
proof -
  have "\<forall>j < length (si_q si). \<exists>v. si_q si ! j = (si_q si ! j)\<lparr>q_fs := v\<rparr>"
    by (metis dn_queue.surjective dn_queue.update_convs(5))
  then show ?thesis by (auto simp: only_fs_def intro!: exI [of _ "si_q si"])
qed

lemma only_fs_upd:
  assumes "only_fs (upd_q j (\<lambda>x. x\<lparr>q_fs := v\<rparr>) si) si'"
  shows "only_fs si si'"
proof -
  obtain qs where qs: "si' = (upd_q j (\<lambda>x. x\<lparr>q_fs := v\<rparr>) si)\<lparr>si_q := qs\<rparr>" "length qs = length (si_q si)"
    "\<And>i. i < length qs \<Longrightarrow> \<exists>w. qs ! i = (si_q (upd_q j (\<lambda>x. x\<lparr>q_fs := v\<rparr>) si) ! i)\<lparr>q_fs := w\<rparr>"
    using assms by (auto simp: only_fs_def)
  have "\<exists>w. qs ! i = (si_q si ! i)\<lparr>q_fs := w\<rparr>" if "i < length qs" for i
    using qs(2,3) that by (cases "i = j") force+
  then show ?thesis using qs(1,2) by (auto simp: only_fs_def upd_q_def intro!: exI [of _ qs])
qed

lemma only_fs_len: "only_fs si si' \<Longrightarrow> length (si_q si') = length (si_q si) \<and> si_fs si' = si_fs si"
  by (auto simp: only_fs_def)

lemma link_flows_spec:
  assumes "link_flows ps si = Some si'"
  shows "only_fs si si'"
    and "\<And>j. j < length (si_q si) \<Longrightarrow> (\<exists>i. (i, int j) \<in> set ps \<and> q_fs (si_q si' ! j) = Some i) \<or>
      (int j \<notin> snd ` set ps \<and> q_fs (si_q si' ! j) = q_fs (si_q si ! j))"
  using assms
proof (induction ps arbitrary: si)
  case Nil
  { case 1 then show ?case by (simp add: only_fs_refl) next case 2 then show ?case by simp }
next
  case (Cons p ps)
  obtain i k where p: "p = (i, k)" by (cases p)
  { case 1
    let ?si = "upd_q (nat k) (\<lambda>x. x\<lparr>q_fs := Some i\<rparr>) si"
    have "link_flows ps ?si = Some si'" using 1 p by (auto split: if_splits)
    then show ?case by (rule only_fs_upd [OF Cons.IH(1)])
  next
    case 2
    let ?si = "upd_q (nat k) (\<lambda>x. x\<lparr>q_fs := Some i\<rparr>) si"
    from 2 have k: "0 \<le> k" "k < int (length (si_q si))" "link_flows ps ?si = Some si'" using p by (auto split: if_splits)
    have q: "q_fs (si_q ?si ! j) = (if k = int j then Some i else q_fs (si_q si ! j))" using 2(1) k(1) by auto
    have "(\<exists>i. (i, int j) \<in> set ps \<and> q_fs (si_q si' ! j) = Some i) \<or>
        (int j \<notin> snd ` set ps \<and> q_fs (si_q si' ! j) = q_fs (si_q ?si ! j))"
      by (rule Cons.IH(2) [OF _ k(3)]) (use 2(1) in simp)
    then show ?case unfolding q p by (cases "k = int j") auto
  }
qed

lemma link_flows_ok:
  assumes "\<forall>(i, j) \<in> set ps. 0 \<le> j \<and> j < int (length (si_q si))"
  shows "\<exists>si'. link_flows ps si = Some si'"
  using assms by (induction ps arbitrary: si) auto

lemma flow_links_set:
  "(i, j) \<in> set (flow_links fs n) \<longleftrightarrow> i < n \<and> first_flow (fs ! i) \<le> j \<and> j < next_flow (fs ! i)"
  by (auto simp: flow_links_def image_iff)

lemma fs_chain_mono:
  assumes "fs_chain arr n" "i < n"
  shows "next_flow (arr ! i) \<le> next_flow (arr ! (n - 1))"
proof -
  have "i + d < n \<Longrightarrow> next_flow (arr ! i) \<le> next_flow (arr ! (i + d))" for d
  proof (induction d)
    case (Suc d)
    then have "next_flow (arr ! (i + d)) < next_flow (arr ! (i + Suc d))" using assms(1) unfolding fs_chain_def by auto
    then show ?case using Suc by simp
  qed simp
  from this [of "n - 1 - i"] show ?thesis using assms(2) by simp
qed

lemma fs_chain_covers:
  assumes "fs_chain arr n" "0 \<le> j" "n > 0" "j < next_flow (arr ! (n - 1))"
  shows "\<exists>k < n. first_flow (arr ! k) \<le> j \<and> j < next_flow (arr ! k)"
proof -
  define k where "k = (LEAST k. j < next_flow (arr ! k))"
  have k: "j < next_flow (arr ! k)" unfolding k_def using assms(4) by (rule LeastI)
  have kn: "k \<le> n - 1" unfolding k_def using assms(4) by (rule Least_le)
  have "first_flow (arr ! k) \<le> j"
  proof (cases k)
    case 0
    then show ?thesis using assms(1-3) unfolding fs_chain_def by auto
  next
    case (Suc i)
    then have "\<not> j < next_flow (arr ! i)" unfolding k_def using not_less_Least [of i "\<lambda>k. j < next_flow (arr ! k)"] by simp
    then show ?thesis using assms(1,3) kn Suc unfolding fs_chain_def by auto
  qed
  then show ?thesis using k kn assms(3) by (intro exI [of _ k]) auto
qed

lemma ps_entries_done:
  "ps_entries False k cs st = Some (b, st') \<Longrightarrow> list_all (\<lambda>cur. entry_fits (parse_entry cur)) cs \<Longrightarrow> b"
proof (induction cs arbitrary: st)
  case (Cons cur cs)
  then show ?case by (fastforce split: option.splits prod.splits if_splits dest: ps_entry_count)
qed simp

lemma ps_ok_start: "ps_ok (parse_start arr)" "linked_flows (parse_start arr) = 0"
  by (simp_all add: ps_ok_def fs_chain_def parse_start_def linked_flows_def)

lemma flow_links_ok:
  assumes "ps_ok st" "linked_flows st = int (length (si_q si))"
  shows "\<exists>si'. link_flows (flow_links (ps_arr st) (ps_fs st)) si = Some si'"
proof (intro link_flows_ok ballI, clarify)
  fix i j
  assume "(i, j) \<in> set (flow_links (ps_arr st) (ps_fs st))"
  then have ij: "i < ps_fs st" "first_flow (ps_arr st ! i) \<le> j" "j < next_flow (ps_arr st ! i)" by (simp_all add: flow_links_set)
  have c: "fs_chain (ps_arr st) (ps_fs st)" using assms(1) by (simp add: ps_ok_def)
  have "next_flow (ps_arr st ! (ps_fs st - 1)) = int (length (si_q si))"
    using assms ij(1) by (simp add: ps_ok_def linked_flows_def)
  then show "0 \<le> j \<and> j < int (length (si_q si))" using fs_chain_next [OF c ij(1)] fs_chain_mono [OF c ij(1)] ij by linarith
qed

lemma flow_links_cover:
  assumes "ps_ok st" "linked_flows st = int n" "j < n"
  shows "\<exists>k. (k, int j) \<in> set (flow_links (ps_arr st) (ps_fs st))"
proof -
  have c: "fs_chain (ps_arr st) (ps_fs st)" "0 < ps_fs st" "next_flow (ps_arr st ! (ps_fs st - 1)) = int n"
    using assms by (auto simp: ps_ok_def linked_flows_def split: if_splits)
  then show ?thesis using fs_chain_covers [OF c(1), of "int j"] assms(3) by (auto simp: flow_links_set)
qed


lemma flowsets_sample:
  "(case parse_flowsets_count ''1-2-2:1500:1'' default_opts of None \<Rightarrow> False | Some c \<Rightarrow> o_flows c = 2 \<and> o_flowsets c = 2) \<and>
   flowsets_fit ''1-2-2:1500:1''"
  by code_simp


end
