(* ===== verification/Sched_Main_Rr.thy ===== *)
theory Sched_Main_Rr
  imports Sched_Main_Init
begin

text \<open>
  The round robin scheduler that \<open>init\<close> sets up: the bounds that \<open>rr_new_fsk\<close> puts on weight and
  quantum, the quanta of the queues, and the scheduler's invariant in the initial state.
\<close>

section \<open>Quanta\<close>

definition rr_fs_ok :: "dn_fs \<Rightarrow> bool" where
  "rr_fs_ok fs \<longleftrightarrow> 1 \<le> par0 fs \<and> par0 fs \<le> 65536 \<and> 60 \<le> par1 fs \<and> par1 fs \<le> 2048"

lemma rr_new_fsk_ok: "rr_fs_ok (rr_new_fsk rr_config fs)"
  by (simp add: rr_fs_ok_def rr_new_fsk_def rr_config_def ipdn_bound_var_def)

lemma rr_quantum_value:
  fixes a b :: int
  assumes "1 \<le> a" "a \<le> 65536" "60 \<le> b" "b \<le> 2048"
  defines "q \<equiv> word_of_int a * word_of_int b :: u64"
  shows "q < push_bit 32 1" "unat (ucast q :: u32) = nat (a * b)" "60 \<le> a * b" "a * b \<le> 2 ^ 27"
proof -
  have "1 * 60 \<le> a * b" "a * b \<le> 65536 * 2048" using assms by (intro mult_mono; simp)+
  then show b: "60 \<le> a * b" "a * b \<le> 2 ^ 27" by simp_all
  have q: "q = word_of_int (a * b)" by (simp add: q_def)
  have "uint q = take_bit 64 (a * b)" unfolding q by (simp only: unsigned_of_int) simp
  also have "\<dots> = a * b" using b by (intro take_bit_int_eq_self) simp_all
  finally have u: "unat q = nat (a * b)" by (metis nat_uint_eq)
  then show "q < push_bit 32 1" using b by (simp add: word_less_nat_alt push_bit_eq_mult)
  have "nat (a * b) < 2 ^ 32" using b by simp
  then show "unat (ucast q :: u32) = nat (a * b)" using u by (simp add: unsigned_ucast_eq take_bit_nat_eq_self)
qed

section \<open>New queues\<close>

text \<open>A scheduler without packets, before and after its queues are set up.\<close>

definition rr_fresh :: "rr_si \<Rightarrow> bool" where
  "rr_fresh si \<longleftrightarrow> rr_head si = None \<and> (\<forall>i < length (si_q si). \<not> rr_status (si_q si ! i) \<and> q_mq (si_q si ! i) = [])"

definition quantum_ok :: "rr_queue \<Rightarrow> bool" where
  "quantum_ok x \<longleftrightarrow> 60 \<le> unat (rr_quantum x) \<and> unat (rr_quantum x) \<le> 2 ^ 27"

lemma rr_fresh_inv:
  assumes "rr_fresh si" "\<And>i. i < length (si_q si) \<Longrightarrow> quantum_ok (si_q si ! i)"
  shows "rr_inv si" "rr_backlog si f = []"
proof -
  have "rr_list [] si" using assms(1) by (simp add: rr_fresh_def rr_list_def)
  moreover have "0 < rr_quantum (si_q si ! i) \<and> unat (rr_quantum (si_q si ! i)) < 2 ^ 31" if "i < length (si_q si)" for i
    using assms(2) [OF that] by (auto simp: quantum_ok_def word_greater_zero_iff)
  ultimately show "rr_inv si" using assms(1) by (auto simp: rr_inv_def rr_traffic_def rr_fresh_def)
  show "rr_backlog si f = []" using assms(1) by (simp add: rr_backlog_def rr_fresh_def)
qed

lemma rr_new_queue_fresh:
  assumes "rr_fresh si" "q < length (si_q si)" "q_fs (si_q si ! q) = Some k" "rr_fs_ok (si_fs si ! k)"
  shows "\<exists>si'. rr_new_queue q si = Some si' \<and> rr_fresh si' \<and> length (si_q si') = length (si_q si) \<and> si_fs si' = si_fs si \<and>
    quantum_ok (si_q si' ! q) \<and> q_fs (si_q si' ! q) = Some k \<and> (\<forall>i < length (si_q si). i \<noteq> q \<longrightarrow> si_q si' ! i = si_q si ! i)"
proof -
  have fs: "1 \<le> par0 (si_fs si ! k)" "par0 (si_fs si ! k) \<le> 65536" "60 \<le> par1 (si_fs si ! k)" "par1 (si_fs si ! k) \<le> 2048"
    using assms(4) by (simp_all add: rr_fs_ok_def)
  define w where "w = (word_of_int (par0 (si_fs si ! k)) * word_of_int (par1 (si_fs si ! k)) :: u64)"
  note v = rr_quantum_value [OF fs, folded w_def]
  let ?si = "upd_q q (\<lambda>x. x\<lparr>rr_quantum := ucast w, rr_credit := ucast w, rr_status := False\<rparr>) si"
  have "q_mq (si_q ?si ! q) = []" using assms(1,2) by (simp add: rr_fresh_def)
  then have "rr_new_queue q si = Some ?si"
    using assms(3) v(1) by (simp add: rr_new_queue_def w_def not_le Let_def)
  moreover have "rr_fresh ?si" using assms(1) by (simp add: rr_fresh_def)
  moreover have "quantum_ok (si_q ?si ! q)" using v(2-4) assms(2) by (simp add: quantum_ok_def nat_le_iff le_nat_iff)
  moreover have "q_fs (si_q ?si ! q) = Some k" using assms(2,3) by simp
  ultimately show ?thesis by auto
qed

lemma setup_queues_rr:
  assumes "rr_fresh si"
    and "\<And>i k. i < length (si_q si) \<Longrightarrow> (case q_fs (si_q si ! i) of None \<Rightarrow> k = 0 | Some f \<Rightarrow> k = f) \<Longrightarrow> rr_fs_ok (si_fs si ! k)"
    and "setup_queues rr_desc is' si = Some si'"
  shows "rr_fresh si' \<and> length (si_q si') = length (si_q si) \<and> (\<forall>i \<in> set is'. quantum_ok (si_q si' ! i)) \<and>
    (\<forall>i < length (si_q si). i \<notin> set is' \<longrightarrow> si_q si' ! i = si_q si ! i)"
  using assms
proof (induction is' arbitrary: si)
  case (Cons i is')
  let ?si = "upd_q i (\<lambda>x. x\<lparr>q_fs := (case q_fs x of None \<Rightarrow> Some 0 | Some f \<Rightarrow> Some f), q_si := True\<rparr>) si"
  have i: "i < length (si_q si)" using Cons.prems(3) by (auto simp: setup_queue_def split: if_splits)
  obtain k where k: "q_fs (si_q ?si ! i) = Some k" "case q_fs (si_q si ! i) of None \<Rightarrow> k = 0 | Some f \<Rightarrow> k = f"
    using i by (cases "q_fs (si_q si ! i)") auto
  have f: "rr_fresh ?si" using Cons.prems(1) by (simp add: rr_fresh_def)
  obtain si1 where s1: "rr_new_queue i ?si = Some si1" "rr_fresh si1" "length (si_q si1) = length (si_q si)"
    "si_fs si1 = si_fs si" "quantum_ok (si_q si1 ! i)" "q_fs (si_q si1 ! i) = Some k" "\<And>j. j < length (si_q si) \<Longrightarrow> j \<noteq> i \<Longrightarrow> si_q si1 ! j = si_q si ! j"
    using rr_new_queue_fresh [OF f _ k(1)] Cons.prems(2) [OF i k(2)] i by auto
  have r: "setup_queues rr_desc is' si1 = Some si'" using Cons.prems(3) s1(1) i by (simp add: setup_queue_def rr_desc_def)
  have p: "rr_fs_ok (si_fs si1 ! f)" if "j < length (si_q si1)" "case q_fs (si_q si1 ! j) of None \<Rightarrow> f = 0 | Some g \<Rightarrow> f = g" for j f
  proof (cases "j = i")
    case True
    then show ?thesis using that(2) s1(4,6) Cons.prems(2) [OF i k(2)] by simp
  next
    case False
    then show ?thesis using that s1(3,4,7) Cons.prems(2) [of j f] by simp
  qed
  have h: "rr_fresh si' \<and> length (si_q si') = length (si_q si1) \<and> (\<forall>i \<in> set is'. quantum_ok (si_q si' ! i)) \<and>
    (\<forall>i < length (si_q si1). i \<notin> set is' \<longrightarrow> si_q si' ! i = si_q si1 ! i)"
    by (rule Cons.IH [OF s1(2) _ r]) (rule p)
  have "quantum_ok (si_q si' ! i)" using h s1(3,5) i by (cases "i \<in> set is'") auto
  then show ?case using h s1(3,7) by auto
qed simp

section \<open>Initialisation\<close>

text \<open>The second pass changes the flowsets and the links to them only.\<close>

lemma ps_cells_bound:
  "ps_cells True k f ijs st = Some (b, st') \<Longrightarrow> int (ps_fs st) \<le> k \<Longrightarrow> int (ps_fs st') \<le> k \<and> length (ps_arr st') = length (ps_arr st)"
proof (induction ijs arbitrary: st)
  case (Cons ij ijs)
  obtain go st1 where c: "ps_cell True k f ij st = Some (go, st1)" using Cons.prems(1) by (auto split: option.splits)
  then have "int (ps_fs st1) \<le> k" "length (ps_arr st1) = length (ps_arr st)"
    using Cons.prems(2) by (auto simp: ps_cell_def Let_def split: if_splits)
  then show ?case using Cons.IH [of st1] Cons.prems(1) c by (auto split: if_splits)
qed simp

lemma ps_entries_bound:
  "ps_entries True k cs st = Some (b, st') \<Longrightarrow> int (ps_fs st) \<le> k \<Longrightarrow> int (ps_fs st') \<le> k \<and> length (ps_arr st') = length (ps_arr st)"
proof (induction cs arbitrary: st)
  case (Cons cur cs)
  obtain go st1 where c: "ps_entry True k cur st = Some (go, st1)" using Cons.prems(1) by (auto split: option.splits)
  then have "int (ps_fs st1) \<le> k \<and> length (ps_arr st1) = length (ps_arr st)"
    using Cons.prems(2) by (auto simp: ps_entry_def Let_def split: if_splits dest!: ps_cells_bound)
  then show ?case using Cons.IH [of st1] Cons.prems(1) c by (auto split: if_splits)
qed simp

definition links_ok :: "cfg_opts \<Rightarrow> ('a, 'z) sched_inst \<Rightarrow> bool" where
  "links_ok c si \<longleftrightarrow> o_flowsets c \<le> int (length (si_fs si)) \<and>
     (\<forall>i < length (si_q si). case q_fs (si_q si ! i) of None \<Rightarrow> True | Some f \<Rightarrow> int f < o_flowsets c)"

lemma parse_flowsets_link_only:
  assumes "parse_flowsets_link c si = Some (c', si')" "o_flowsets c = int (length (si_fs si))"
    and "\<And>i. i < length (si_q si) \<Longrightarrow> q_fs (si_q si ! i) = None"
  shows "links_ok c' si' \<and> (\<exists>fs. only_fs (si\<lparr>si_fs := fs\<rparr>) si')"
proof (cases "o_fs_config c")
  case None
  then have "c' = c" "si' = si" using assms(1) by (simp_all add: parse_flowsets_link_def)
  moreover have "\<exists>fs. only_fs (si\<lparr>si_fs := fs\<rparr>) si" using only_fs_refl [of si] by (intro exI [of _ "si_fs si"]) simp
  ultimately show ?thesis using assms(2,3) by (simp add: links_ok_def)
next
  case (Some s)
  obtain b st where l: "ps_entries True (o_flowsets c) (entries (Some s)) (parse_start (si_fs si)) = Some (b, st)"
    using assms(1) Some by (auto simp: parse_flowsets_link_def ps_loop_entries split: bind_splits)
  have n: "int (ps_fs st) \<le> o_flowsets c" "length (ps_arr st) = length (si_fs si)"
    using ps_entries_bound [OF l] assms(2) by (simp_all add: parse_start_def)
  let ?si = "si\<lparr>si_fs := ps_arr st\<rparr>"
  show ?thesis
  proof (cases b)
    case False
    then have "c' = c" "si' = ?si" using assms(1) Some l by (simp_all add: parse_flowsets_link_def ps_loop_entries)
    then show ?thesis using n assms(2,3) only_fs_refl [of ?si] by (auto simp: links_ok_def)
  next
    case True
    then obtain k: "link_flows (flow_links (ps_arr st) (ps_fs st)) ?si = Some si'" and c': "o_flowsets c' = int (ps_fs st)"
      using assms(1) Some l by (auto simp: parse_flowsets_link_def ps_loop_entries split: bind_splits)
    have "case q_fs (si_q si' ! i) of None \<Rightarrow> True | Some f \<Rightarrow> int f < o_flowsets c'" if "i < length (si_q si')" for i
      using link_flows_spec(2) [OF k, of i] only_fs_len [OF link_flows_spec(1) [OF k]] that assms(3) c'
      by (auto simp: flow_links_set)
    then show ?thesis using link_flows_spec(1) [OF k] only_fs_len [OF link_flows_spec(1) [OF k]] n assms(2) c'
      by (auto simp: links_ok_def)
  qed
qed

lemma only_fs_fresh:
  assumes "only_fs si si'" "rr_fresh si"
  shows "rr_fresh si'"
proof -
  obtain qs where q: "si' = si\<lparr>si_q := qs\<rparr>" "length qs = length (si_q si)"
    "\<And>j. j < length qs \<Longrightarrow> \<exists>v. qs ! j = (si_q si ! j)\<lparr>q_fs := v\<rparr>" using assms(1) by (auto simp: only_fs_def)
  have "\<not> rr_status (qs ! j) \<and> q_mq (qs ! j) = []" if "j < length qs" for j
    using q(3) [OF that] assms(2) that q(2) by (auto simp: rr_fresh_def)
  then show ?thesis using assms(2) q(1,2) by (auto simp: rr_fresh_def)
qed

lemma init_sched_rr:
  assumes "init_sched rr_desc True o1 = Some c" "0 < o_flowsets (c_opts c)" "0 \<le> o_flowsets o1"
    and "nat (o_flows (c_opts c)) = length (si_q (c_si c))"
  shows "main_inv rr_inv rr_backlog rr_desc c" "rr_backlog (c_si c) f = []"
    and "i < length (si_q (c_si c)) \<Longrightarrow> quantum_ok (si_q (c_si c) ! i)"
proof -
  define si0 where "si0 = rr_new_sched (zero_rr (nat (o_flows o1)) (nat (o_flowsets o1)))"
  obtain o2 si1 where l: "parse_flowsets_link o1 si0 = Some (o2, si1)"
    using assms(1) by (auto simp: init_sched_def rr_desc_def si0_def split: bind_splits)
  define si2 where "si2 = si1\<lparr>si_fs := map (setup_fsk rr_desc) (take (nat (o_flowsets o2)) (si_fs si1)) @ drop (nat (o_flowsets o2)) (si_fs si1)\<rparr>"
  have c: "setup_queues rr_desc [0..<nat (o_flows o2)] si2 = Some (c_si c)" "c_opts c = o2" "c_pending c = 0" "c_alg c = rr_desc"
    using assms(1) l by (auto simp: init_sched_def si0_def si2_def rr_desc_def Let_def split: bind_splits)
  have z: "rr_fresh (si0\<lparr>si_fs := fs\<rparr>)" for fs by (simp add: si0_def zero_rr_def rr_new_sched_def rr_fresh_def zero_rr_queue_def zero_queue_def dn_queue.extend_def)
  have p: "links_ok o2 si1" "\<exists>fs. only_fs (si0\<lparr>si_fs := fs\<rparr>) si1"
    using parse_flowsets_link_only [OF l] assms(3)
    by (auto simp: si0_def zero_rr_def rr_new_sched_def zero_rr_queue_def zero_queue_def dn_queue.extend_def)
  have f: "rr_fresh si2" using p(2) z only_fs_fresh by (fastforce simp: si2_def rr_fresh_def)
  have k: "rr_fs_ok (si_fs si2 ! k)" if "int k < o_flowsets o2" for k
  proof -
    have "k < nat (o_flowsets o2)" "nat (o_flowsets o2) \<le> length (si_fs si1)" using that p(1) by (auto simp: links_ok_def)
    then show ?thesis using rr_new_fsk_ok by (simp add: si2_def nth_append setup_fsk_def rr_desc_def)
  qed
  have g: "rr_fs_ok (si_fs si2 ! k)" if "i < length (si_q si2)" "case q_fs (si_q si2 ! i) of None \<Rightarrow> k = 0 | Some f \<Rightarrow> k = f" for i k
    using that k p(1) assms(2) c(2) by (auto simp: si2_def links_ok_def split: option.splits)
  have s: "rr_fresh (c_si c) \<and> length (si_q (c_si c)) = length (si_q si2) \<and>
      (\<forall>i \<in> set [0..<nat (o_flows o2)]. quantum_ok (si_q (c_si c) ! i)) \<and>
      (\<forall>i < length (si_q si2). i \<notin> set [0..<nat (o_flows o2)] \<longrightarrow> si_q (c_si c) ! i = si_q si2 ! i)"
    by (rule setup_queues_rr [OF f _ c(1)]) (rule g)
  have q: "quantum_ok (si_q (c_si c) ! i)" if "i < length (si_q (c_si c))" for i using s that assms(4) c(2) by auto
  have "rr_fresh (c_si c)" using s by blast
  then have r: "rr_inv (c_si c)" "rr_backlog (c_si c) f = []" for f using rr_fresh_inv [of "c_si c"] q by blast+
  show "rr_backlog (c_si c) f = []" by (rule r(2))
  show "i < length (si_q (c_si c)) \<Longrightarrow> quantum_ok (si_q (c_si c) ! i)" by (rule q)
  show "main_inv rr_inv rr_backlog rr_desc c" using r c(3,4) by (simp add: main_inv_def backlog_size_def)
qed

end
