(* ===== verification/Sched_Main_Props.thy ===== *)
theory Sched_Main_Props
  imports Sched_Main_Rr
begin

text \<open>
  Properties of the packet schedulers as the programs use them: from the command line
  through \<open>sched_init\<close> to any sequence of \<open>sched_enq\<close> and \<open>sched_deq\<close>.
\<close>

section \<open>Round robin\<close>

lemma sched_init_rr:
  assumes "sched_init rr_desc True av = Some c0" "0 < o_flowsets (c_opts c0)"
    and "nat (o_flows (c_opts c0)) = length (si_q (c_si c0))"
  shows "main_inv rr_inv rr_backlog rr_desc c0" "rr_backlog (c_si c0) f = []"
    and "i < length (si_q (c_si c0)) \<Longrightarrow> quantum_ok (si_q (c_si c0) ! i)"
proof -
  obtain o1 where o1: "init_sched rr_desc True (init_limits o1) = Some c0"
    using assms(1) by (auto simp: sched_init_def split: bind_splits)
  have n: "0 \<le> o_flowsets (init_limits o1)" by (simp add: init_limits_def at_least_1_def Let_def)
  note i = init_sched_rr [OF o1 assms(2) n assms(3)]
  show "main_inv rr_inv rr_backlog rr_desc c0" by (rule i(1))
  show "rr_backlog (c_si c0) f = []" by (rule i(2))
  show "i < length (si_q (c_si c0)) \<Longrightarrow> quantum_ok (si_q (c_si c0) ! i)" by (rule i(3))
qed

text \<open>C27.  Work conservation and termination of the deficit round robin scheduler: after any
  sequence of enqueues and dequeues from the state that \<open>sched_init\<close> sets up, the loop of the
  dequeue ends, and it gives a packet exactly when some accepted packet was not given yet.\<close>

theorem sched_rr_work_conserving:
  assumes "sched_init rr_desc True av = Some c0" "0 < o_flowsets (c_opts c0)"
    and "nat (o_flows (c_opts c0)) = length (si_q (c_si c0))"
    and "sched_run (main_ok rr_ok) main_enq sched_deq c0 ins os c"
  shows "\<exists>r c'. sched_deq c = Some (r, c') \<and> (r = None \<longleftrightarrow> length os = length ins)"
  using rr_alg.main.run_work_conserving [OF assms(4) sched_init_rr(1,2) [OF assms(1-3)]] .

text \<open>C28.  The packets of each flow leave the round robin scheduler in the order in which they
  were accepted, none is lost and none is given twice: what was accepted of a flow is what
  was given, followed by what is still queued.\<close>

theorem sched_rr_flow_order:
  assumes "sched_init rr_desc True av = Some c0" "0 < o_flowsets (c_opts c0)"
    and "nat (o_flows (c_opts c0)) = length (si_q (c_si c0))"
    and "sched_run (main_ok rr_ok) main_enq sched_deq c0 ins os c"
  shows "filter (\<lambda>m. flow_id m = f) ins = filter (\<lambda>m. flow_id m = f) os @ rr_backlog (c_si c) f"
  using rr_alg.main.run_flow_order [OF assms(4) sched_init_rr(1,2) [OF assms(1-3)]] .

text \<open>C30.  Every queue of an initialised round robin scheduler has a quantum of at least 60 and at
  most $2^{27}$ bytes, whatever weights and lengths the flowset list asks for: the product of
  the two bounded parameters never reaches the truncation at 4 GB, and no queue waits for
  credit in vain.\<close>

theorem sched_rr_quanta:
  assumes "sched_init rr_desc True av = Some c0" "0 < o_flowsets (c_opts c0)"
    and "nat (o_flows (c_opts c0)) = length (si_q (c_si c0))" "i < length (si_q (c_si c0))"
  shows "60 \<le> unat (rr_quantum (si_q (c_si c0) ! i)) \<and> unat (rr_quantum (si_q (c_si c0) ! i)) \<le> 2 ^ 27"
  using sched_init_rr(3) [OF assms] by (simp add: quantum_ok_def)

section \<open>FIFO\<close>

lemma setup_queues_fifo: "setup_queues fifo_desc is' si = Some si' \<Longrightarrow> fifo_q si' = fifo_q si"
  by (induction is' arbitrary: si)
    (auto simp: setup_queue_def fifo_desc_def upd_q_def split: bind_splits if_splits)

lemma init_sched_fifo:
  assumes "init_sched fifo_desc True o1 = Some c" "0 \<le> o_flowsets o1"
  shows "main_inv (\<lambda>s. True) fifo_backlog fifo_desc c" "fifo_backlog (c_si c) f = []"
proof -
  define si0 where "si0 = fifo_new_sched (zero_fifo (nat (o_flows o1)) (nat (o_flowsets o1)))"
  obtain o2 si1 where l: "parse_flowsets_link o1 si0 = Some (o2, si1)"
    using assms(1) by (auto simp: init_sched_def fifo_desc_def si0_def split: bind_splits)
  let ?fs = "map (setup_fsk fifo_desc) (take (nat (o_flowsets o2)) (si_fs si1)) @ drop (nat (o_flowsets o2)) (si_fs si1)"
  have c: "setup_queues fifo_desc [0..<nat (o_flows o2)] (si1\<lparr>si_fs := ?fs\<rparr>) = Some (c_si c)" "c_pending c = 0" "c_alg c = fifo_desc"
    using assms(1) l by (auto simp: init_sched_def si0_def fifo_desc_def Let_def split: bind_splits)
  have "\<exists>fs. only_fs (si0\<lparr>si_fs := fs\<rparr>) si1"
    using parse_flowsets_link_only [OF l] assms(2) by (auto simp: si0_def zero_fifo_def fifo_new_sched_def zero_queue_def)
  then have "fifo_q si1 = fifo_q si0" by (auto simp: only_fs_def)
  then have "q_mq (fifo_q (c_si c)) = []"
    using setup_queues_fifo [OF c(1)] by (simp add: si0_def zero_fifo_def fifo_new_sched_def zero_queue_def)
  then have b: "fifo_backlog (c_si c) f = []" for f by (simp add: fifo_backlog_def)
  then show "fifo_backlog (c_si c) f = []" .
  show "main_inv (\<lambda>s. True) fifo_backlog fifo_desc c" using b c(2,3) by (simp add: main_inv_def backlog_size_def)
qed

text \<open>C31.  The FIFO scheduler gives the packets of all flows in the order in which they were
  accepted: after any sequence of operations, what was accepted is what was given, followed
  by the queue, and the number of pending packets is the length of the queue.\<close>

theorem sched_fifo_order:
  assumes "sched_init fifo_desc True av = Some c0"
    and "sched_run (main_ok (\<lambda>m s. True)) main_enq sched_deq c0 ins os c"
  shows "ins = os @ q_mq (fifo_q (c_si c)) \<and> sint (c_pending c) = int (length (q_mq (fifo_q (c_si c))))"
proof -
  obtain o1 where o1: "init_sched fifo_desc True (init_limits o1) = Some c0"
    using assms(1) by (auto simp: sched_init_def split: bind_splits)
  have n: "0 \<le> o_flowsets (init_limits o1)" by (simp add: init_limits_def at_least_1_def Let_def)
  note i = init_sched_fifo [OF o1 n]
  have r: "main_inv (\<lambda>s. True) fifo_backlog fifo_desc c" "ins = os @ fifo_backlog (c_si c) 0"
    using fifo_alg.main.run_invar [OF assms(2) i] by (auto dest: spec [of _ 0])
  have "backlog_size (fifo_backlog (c_si c)) = length (fifo_backlog (c_si c) 0)"
    unfolding backlog_size_def by (subst sum.remove [of _ 0]) (simp_all add: fifo_backlog_def)
  then show ?thesis using r by (simp add: main_inv_def fifo_backlog_def)
qed

section \<open>Samples\<close>

lemma sched_run_one: "ok m s \<Longrightarrow> \<not> fst (enq m s) \<Longrightarrow> sched_run ok enq deq s [m] [] (snd (enq m s))"
  using run_accept [of ok enq deq s "[]" "[]" s m "snd (enq m s)"] run_init [of ok enq deq s] by (cases "enq m s") simp

definition av_sample :: "string list" where
  "av_sample = [''sched'', ''-alg'', ''rr'', ''-flowsets'', ''1-2-2:1500:1'']"

definition mbuf_sample :: "u16 \<Rightarrow> mbuf" where
  "mbuf_sample f = \<lparr>m_addr = 64 * ucast f + 64, m_iov_base = 0, m_iov_len = 1000, m_be = 0, m_txq = 0, m_idx = 0, m_flow_id = f\<rparr>"

lemma av_sample_init:
  "case sched_init rr_desc True av_sample of None \<Rightarrow> False
   | Some c \<Rightarrow> 0 < o_flowsets (c_opts c) \<and> nat (o_flows (c_opts c)) = length (si_q (c_si c)) \<and>
       main_ok rr_ok (mbuf_sample 1) c \<and> \<not> fst (main_enq (mbuf_sample 1) c)"
  by code_simp

lemma av_sample_run:
  obtains c0 c where "sched_init rr_desc True av_sample = Some c0" "0 < o_flowsets (c_opts c0)"
    "nat (o_flows (c_opts c0)) = length (si_q (c_si c0))" "1 < length (si_q (c_si c0))"
    "sched_run (main_ok rr_ok) main_enq sched_deq c0 [mbuf_sample 1] [] c"
proof -
  obtain c0 where c0: "sched_init rr_desc True av_sample = Some c0" "0 < o_flowsets (c_opts c0)"
    "nat (o_flows (c_opts c0)) = length (si_q (c_si c0))" "main_ok rr_ok (mbuf_sample 1) c0"
    "\<not> fst (main_enq (mbuf_sample 1) c0)"
    using av_sample_init by (auto split: option.splits)
  have "sched_run (main_ok rr_ok) main_enq sched_deq c0 [mbuf_sample 1] [] (snd (main_enq (mbuf_sample 1) c0))"
    by (rule sched_run_one) (use c0 in simp_all)
  then show ?thesis using c0 that by (auto simp: main_ok_def flow_id_def mbuf_sample_def)
qed

text \<open>Witness of C27.\<close>

theorem sched_rr_work_conserving_witness:
  "\<exists>c0 c m c'. sched_init rr_desc True av_sample = Some c0 \<and>
     sched_run (main_ok rr_ok) main_enq sched_deq c0 [mbuf_sample 1] [] c \<and> sched_deq c = Some (Some m, c')"
proof -
  obtain c0 c where c: "sched_init rr_desc True av_sample = Some c0" "0 < o_flowsets (c_opts c0)"
    "nat (o_flows (c_opts c0)) = length (si_q (c_si c0))" "sched_run (main_ok rr_ok) main_enq sched_deq c0 [mbuf_sample 1] [] c"
    by (rule av_sample_run)
  show ?thesis using sched_rr_work_conserving [OF c] c(1,4) by force
qed

text \<open>Witness of C28.\<close>

theorem sched_rr_flow_order_witness:
  "\<exists>c0 c. sched_init rr_desc True av_sample = Some c0 \<and>
     sched_run (main_ok rr_ok) main_enq sched_deq c0 [mbuf_sample 1] [] c \<and> rr_backlog (c_si c) 1 = [mbuf_sample 1]"
proof -
  obtain c0 c where c: "sched_init rr_desc True av_sample = Some c0" "0 < o_flowsets (c_opts c0)"
    "nat (o_flows (c_opts c0)) = length (si_q (c_si c0))" "sched_run (main_ok rr_ok) main_enq sched_deq c0 [mbuf_sample 1] [] c"
    by (rule av_sample_run)
  have "flow_id (mbuf_sample 1) = 1" by (simp add: flow_id_def mbuf_sample_def)
  then show ?thesis using sched_rr_flow_order [OF c, of 1] c(1,4) by force
qed

text \<open>Witness of C30.\<close>

theorem sched_rr_quanta_witness:
  "\<exists>c0. sched_init rr_desc True av_sample = Some c0 \<and> 60 \<le> unat (rr_quantum (si_q (c_si c0) ! 1))"
proof -
  obtain c0 c where c: "sched_init rr_desc True av_sample = Some c0" "0 < o_flowsets (c_opts c0)"
    "nat (o_flows (c_opts c0)) = length (si_q (c_si c0))" "1 < length (si_q (c_si c0))"
    by (rule av_sample_run)
  show ?thesis using sched_rr_quanta [OF c] c(1) by auto
qed

lemma av_sample_fifo:
  "case sched_init fifo_desc True av_sample of None \<Rightarrow> False
   | Some c \<Rightarrow> main_ok (\<lambda>m s. True) (mbuf_sample 1) c \<and> \<not> fst (main_enq (mbuf_sample 1) c)"
  by code_simp

text \<open>Witness of C31.\<close>

theorem sched_fifo_order_witness:
  "\<exists>c0 c. sched_init fifo_desc True av_sample = Some c0 \<and>
     sched_run (main_ok (\<lambda>m s. True)) main_enq sched_deq c0 [mbuf_sample 1] [] c \<and> q_mq (fifo_q (c_si c)) = [mbuf_sample 1]"
proof -
  obtain c0 where c0: "sched_init fifo_desc True av_sample = Some c0" "main_ok (\<lambda>m s. True) (mbuf_sample 1) c0"
    "\<not> fst (main_enq (mbuf_sample 1) c0)" using av_sample_fifo by (auto split: option.splits)
  have r: "sched_run (main_ok (\<lambda>m s. True)) main_enq sched_deq c0 [mbuf_sample 1] [] (snd (main_enq (mbuf_sample 1) c0))"
    by (rule sched_run_one) (use c0 in simp_all)
  show ?thesis using sched_fifo_order [OF c0(1) r] c0(1) r by auto
qed

text \<open>A number of flows that is given after the flowset list sizes the array of queues, but the
  second pass links the flows of the list: the queues beyond the array are written.\<close>

lemma flows_after_flowsets_overflow:
  "Option.is_none (sched_init rr_desc True [''sched'', ''-flowsets'', ''1:1500:4'', ''-flows'', ''2''])"
  by code_simp

end
