(* ===== verification/Backend_Control.thy ===== *)
theory Backend_Control
  imports Guest_Memory Bpfhv_Types Sring Sring_Gso Vring_Packed
begin

text \<open>
  The control plane of the proxy backend (\<open>proxy/backend.c\<close>, \<open>proxy/backend.h\<close>,
  \<open>include/bpfhv-proxy.h\<close>): the requests that a hypervisor sends over its socket, and their
  effect on the backend.

  What the operating system answers (\<open>mmap\<close>, \<open>open\<close>, \<open>pthread_create\<close>, \<open>pthread_join\<close>,
  \<open>sendmsg\<close>) is an argument.  What the handler asks of it is a list of effects: closed file
  descriptors, unmapped memory, initialised contexts.  Messages on the console, the file with
  the process status and the queue names that only appear in messages are left out.
\<close>

section \<open>The protocol\<close>

record proxy_hdr =
  reqtype :: u32
  hdr_flags :: u32
  hdr_size :: u32

record proxy_params =
  num_rx_queues :: u32
  num_tx_queues :: u32
  p_num_rx_bufs :: u32
  p_num_tx_bufs :: u32

record proxy_region =
  guest_physical_addr :: u64
  pr_size :: u64
  hypervisor_virtual_addr :: u64
  pr_mmap_offset :: u64

record proxy_map =
  pm_num_regions :: u32
  pm_regions :: "proxy_region list"

text \<open>The views of the payload; a request reads the one that belongs to its type.\<close>

record proxy_payload =
  pl_u64 :: u64
  pl_params :: proxy_params
  pl_map :: proxy_map
  pl_ctx_queue_idx :: u32
  pl_ctx_gpa :: u64
  pl_notify_queue_idx :: u32

definition REQ_GET_FEATURES :: u32 where "REQ_GET_FEATURES = 1"
definition REQ_SET_FEATURES :: u32 where "REQ_SET_FEATURES = 2"
definition REQ_SET_PARAMETERS :: u32 where "REQ_SET_PARAMETERS = 3"
definition REQ_GET_PROGRAMS :: u32 where "REQ_GET_PROGRAMS = 4"
definition REQ_SET_MEM_TABLE :: u32 where "REQ_SET_MEM_TABLE = 5"
definition REQ_SET_QUEUE_CTX :: u32 where "REQ_SET_QUEUE_CTX = 6"
definition REQ_SET_QUEUE_KICK :: u32 where "REQ_SET_QUEUE_KICK = 7"
definition REQ_SET_QUEUE_IRQ :: u32 where "REQ_SET_QUEUE_IRQ = 8"
definition REQ_SET_UPGRADE :: u32 where "REQ_SET_UPGRADE = 9"
definition REQ_RX_ENABLE :: u32 where "REQ_RX_ENABLE = 10"
definition REQ_TX_ENABLE :: u32 where "REQ_TX_ENABLE = 11"
definition REQ_RX_DISABLE :: u32 where "REQ_RX_DISABLE = 12"
definition REQ_TX_DISABLE :: u32 where "REQ_TX_DISABLE = 13"

lemmas req_defs = REQ_GET_FEATURES_def REQ_SET_FEATURES_def REQ_SET_PARAMETERS_def REQ_GET_PROGRAMS_def
  REQ_SET_MEM_TABLE_def REQ_SET_QUEUE_CTX_def REQ_SET_QUEUE_KICK_def REQ_SET_QUEUE_IRQ_def
  REQ_SET_UPGRADE_def REQ_RX_ENABLE_def REQ_TX_ENABLE_def REQ_RX_DISABLE_def REQ_TX_DISABLE_def

definition PROXY_VERSION :: u32 where "PROXY_VERSION = 1"
definition PROXY_F_VERSION_MASK :: u32 where "PROXY_F_VERSION_MASK = 0x7"
definition PROXY_F_ERROR :: u32 where "PROXY_F_ERROR = 0x8"

text \<open>A request as the socket delivers it: the result of \<open>recvmsg\<close>, the file descriptors of
  the ancillary data, the header, the result of \<open>read\<close> and the payload.\<close>

record proxy_in =
  in_n :: int
  in_fds :: "int list"
  in_hdr :: proxy_hdr
  in_read :: int
  in_payload :: proxy_payload

datatype resp_payload = Resp_none | Resp_u64 u64 | Resp_ctx_sizes u32 u32

text \<open>The expected size of the payload; \<open>None\<close> for an unknown type.\<close>

definition payload_size :: "u32 \<Rightarrow> int option" where
  "payload_size t =
    (if t = REQ_GET_FEATURES \<or> t = REQ_GET_PROGRAMS \<or> t = REQ_RX_ENABLE \<or> t = REQ_TX_ENABLE
        \<or> t = REQ_RX_DISABLE \<or> t = REQ_TX_DISABLE then Some 0
     else if t = REQ_SET_FEATURES then Some 8
     else if t = REQ_SET_PARAMETERS then Some 16
     else if t = REQ_SET_MEM_TABLE then Some 264
     else if t = REQ_SET_QUEUE_CTX then Some 16
     else if t = REQ_SET_QUEUE_KICK \<or> t = REQ_SET_QUEUE_IRQ \<or> t = REQ_SET_UPGRADE then Some 4
     else None)"

text \<open>The checks before a request is processed, in their order: the error that the function
  returns, \<open>None\<close> when all pass.\<close>

definition recv_error :: "proxy_in \<Rightarrow> int option" where
  "recv_error m =
    (if in_n m < 0 then Some (-1)
     else if in_n m = 0 then Some (-2)
     else if length (in_fds m) > BPFHV_PROXY_MAX_REGIONS then Some (-1)
     else if in_n m < 12 then Some (-1)
     else if hdr_flags (in_hdr m) AND PROXY_F_VERSION_MASK \<noteq> PROXY_VERSION then Some (-1)
     else case payload_size (reqtype (in_hdr m)) of
       None \<Rightarrow> Some (-1)
     | Some n \<Rightarrow>
         if n \<noteq> uint (hdr_size (in_hdr m)) then Some (-1)
         else if in_read m < 0 then Some (-1)
         else if in_read m \<noteq> n then Some (-1)
         else None)"

section \<open>The backend\<close>

text \<open>The context pointer of a queue is null when it is 0; a file descriptor that is not there
  is negative.\<close>

record be_queue =
  bq_ctx :: u64
  kickfd :: int
  irqfd :: int

text \<open>The part of the device operations that the control plane uses.\<close>

record BeOps =
  op_rx_ctx_size :: "nat \<Rightarrow> nat"
  op_tx_ctx_size :: "nat \<Rightarrow> nat"
  op_has_mark :: bool
  op_features_avail :: u64
  op_progfile :: string

record BpfhvBackend = be_mem +
  be_ops :: BeOps
  features_avail :: u64
  features_sel :: u64
  num_queue_pairs :: u32
  be_num_rx_bufs :: u32
  be_num_tx_bufs :: u32
  num_queues :: u32
  be_status :: u32
  running :: bool
  upgrade_fd :: int
  be_stopflag :: u32
  befd :: int
  vnet_hdr_len :: int
  max_rx_pkt_size :: nat
  be_q :: "be_queue list"

definition BPFHV_MAX_QUEUES :: nat where "BPFHV_MAX_QUEUES = 16"
definition BPFHV_STOPFD_HALT :: u32 where "BPFHV_STOPFD_HALT = 1"

record BpfhvBackendBatch =
  th_running :: bool
  bc_stopflag :: u32
  allocated_instances :: u16
  used_instances :: u16

text \<open>The settings of the process and the answers of the operating system.\<close>

record be_env =
  client_threshold_activation :: int
  mark_mode :: u8
  env_mmap :: "nat \<Rightarrow> u64 option"
  env_open :: int
  env_create :: int
  env_join :: int
  env_send :: bool

datatype be_effect =
    Eff_close int
  | Eff_munmap u64 u64
  | Eff_rx_init u64 u32
  | Eff_tx_init u64 u32
  | Eff_tx_mark u64 u8
  | Eff_drain

definition sring_ops :: BeOps where
  "sring_ops = \<lparr>op_rx_ctx_size = sring_rx_ctx_size, op_tx_ctx_size = sring_tx_ctx_size, op_has_mark = False,
     op_features_avail = 0, op_progfile = ''proxy/sring_progs.o''\<rparr>"

definition sring_gso_ops :: BeOps where
  "sring_gso_ops = \<lparr>op_rx_ctx_size = sring_gso_rx_ctx_size, op_tx_ctx_size = sring_gso_tx_ctx_size, op_has_mark = False,
     op_features_avail = BPFHV_F_SG OR BPFHV_F_TX_CSUM OR BPFHV_F_RX_CSUM OR BPFHV_F_TSOv4 OR BPFHV_F_TCPv4_LRO
       OR BPFHV_F_TSOv6 OR BPFHV_F_TCPv6_LRO OR BPFHV_F_UFO OR BPFHV_F_UDP_LRO,
     op_progfile = ''proxy/sring_gso_progs.o''\<rparr>"

definition vring_packed_ops :: BeOps where
  "vring_packed_ops = \<lparr>op_rx_ctx_size = vring_packed_rx_ctx_size, op_tx_ctx_size = vring_packed_tx_ctx_size,
     op_has_mark = True, op_features_avail = 0, op_progfile = ''proxy/vring_packed_progs.o''\<rparr>"

section \<open>Queue parameters and readiness\<close>

definition num_bufs_valid :: "u64 \<Rightarrow> bool" where
  "num_bufs_valid n \<longleftrightarrow> \<not> (n < 16 \<or> n > 8192 \<or> n AND (n - 1) \<noteq> 0)"

definition be_queue_ready :: "be_queue \<Rightarrow> bool" where
  "be_queue_ready q \<longleftrightarrow> bq_ctx q \<noteq> 0 \<and> \<not> kickfd q < 0 \<and> \<not> irqfd q < 0"

definition backend_ready :: "BpfhvBackend \<Rightarrow> bool" where
  "backend_ready be \<longleftrightarrow> (\<forall>i \<in> set [0..<unat (num_queues be)]. be_queue_ready (be_q be ! i)) \<and>
     num_queue_pairs be > 0 \<and> num_bufs_valid (ucast (be_num_rx_bufs be)) \<and>
     num_bufs_valid (ucast (be_num_tx_bufs be)) \<and> num_regions be > 0"

section \<open>The state of a request\<close>

text \<open>The backend and its batch, the array of received descriptors, the response and the
  effects so far.\<close>

record ctl =
  ctl_be :: BpfhvBackend
  ctl_bc :: BpfhvBackendBatch
  ctl_fds :: "int list"
  ctl_num_fds :: nat
  resp_flags :: u32
  resp_size :: u32
  resp_payload :: resp_payload
  ctl_outfds :: "int list"
  ctl_effs :: "be_effect list"

definition ctl_error :: "ctl \<Rightarrow> ctl" where
  "ctl_error c = c\<lparr>resp_flags := resp_flags c OR PROXY_F_ERROR\<rparr>"

definition ctl_eff :: "be_effect list \<Rightarrow> ctl \<Rightarrow> ctl" where
  "ctl_eff es c = c\<lparr>ctl_effs := ctl_effs c @ es\<rparr>"

definition upd_be :: "(BpfhvBackend \<Rightarrow> BpfhvBackend) \<Rightarrow> ctl \<Rightarrow> ctl" where
  "upd_be f c = c\<lparr>ctl_be := f (ctl_be c)\<rparr>"

section \<open>Requests\<close>

definition be_set_features :: "u64 \<Rightarrow> ctl \<Rightarrow> ctl" where
  "be_set_features u c =
    (let be = ctl_be c; sel = features_avail be AND u in
     c\<lparr>ctl_be := be\<lparr>features_sel := sel, max_rx_pkt_size :=
       (if sel AND (BPFHV_F_TCPv4_LRO OR BPFHV_F_TCPv6_LRO OR BPFHV_F_UDP_LRO) \<noteq> 0 then 65536 else 1518)\<rparr>\<rparr>)"

definition be_get_features :: "ctl \<Rightarrow> ctl" where
  "be_get_features c = c\<lparr>resp_size := 8, resp_payload := Resp_u64 (features_avail (ctl_be c))\<rparr>"

definition be_set_parameters :: "proxy_params \<Rightarrow> ctl \<Rightarrow> ctl" where
  "be_set_parameters p c =
    (if num_rx_queues p \<noteq> 1 \<or> num_tx_queues p \<noteq> 1 then ctl_error c
     else if \<not> num_bufs_valid (ucast (p_num_rx_bufs p)) \<or> \<not> num_bufs_valid (ucast (p_num_tx_bufs p)) then ctl_error c
     else
       let be = (ctl_be c)\<lparr>num_queue_pairs := num_rx_queues p, be_num_rx_bufs := p_num_rx_bufs p,
             be_num_tx_bufs := p_num_tx_bufs p\<rparr>;
           be = be\<lparr>num_queues := 2 * num_queue_pairs be\<rparr>
       in c\<lparr>ctl_be := be, resp_size := 8, resp_payload := Resp_ctx_sizes
            (of_nat (op_rx_ctx_size (be_ops be) (unat (be_num_rx_bufs be))))
            (of_nat (op_tx_ctx_size (be_ops be) (unat (be_num_tx_bufs be))))\<rparr>)"

text \<open>The table of memory regions.  A failing \<open>mmap\<close> leaves the entry half filled.\<close>

definition zero_region :: BpfhvBackendMemoryRegion where
  "zero_region = \<lparr>gpa_start = 0, gpa_end = 0, region_size = 0, hv_vaddr = 0, mmap_offset = 0, mmap_addr = 0, va_start = 0\<rparr>"

definition new_region :: "proxy_region \<Rightarrow> BpfhvBackendMemoryRegion" where
  "new_region p = \<lparr>gpa_start = guest_physical_addr p, gpa_end = guest_physical_addr p + pr_size p,
     region_size = pr_size p, hv_vaddr = hypervisor_virtual_addr p, mmap_offset = pr_mmap_offset p,
     mmap_addr = 0, va_start = 0\<rparr>"

fun map_regions :: "(nat \<Rightarrow> u64 option) \<Rightarrow> nat \<Rightarrow> proxy_region list \<Rightarrow> BpfhvBackendMemoryRegion list
    \<Rightarrow> bool \<times> BpfhvBackendMemoryRegion list" where
  "map_regions mm i [] rs = (True, rs)"
| "map_regions mm i (p # ps) rs =
    (let re = new_region p in
     case mm i of
       None \<Rightarrow> (False, rs[i := re])
     | Some a \<Rightarrow> map_regions mm (Suc i) ps (rs[i := re\<lparr>mmap_addr := a, va_start := a + mmap_offset re\<rparr>]))"

text \<open>The first component is what the function returns early, if it does.\<close>

definition be_set_mem_table :: "be_env \<Rightarrow> proxy_map \<Rightarrow> ctl \<Rightarrow> int option \<times> ctl" where
  "be_set_mem_table env m c =
    (if unat (pm_num_regions m) > BPFHV_PROXY_MAX_REGIONS then (Some (-1), ctl_error c)
     else if ctl_num_fds c \<noteq> unat (pm_num_regions m) then (Some (-1), ctl_error c)
     else
       let be = ctl_be c;
           c = ctl_eff (map (\<lambda>re. Eff_munmap (mmap_addr re) (mmap_offset re + region_size re))
                 (take (num_regions be) (regions be))) c;
           n = unat (pm_num_regions m);
           (ok, rs) = map_regions (env_mmap env) 0 (take n (pm_regions m)) (replicate BPFHV_PROXY_MAX_REGIONS zero_region);
           be = be\<lparr>regions := rs, num_regions := 0\<rparr>
       in if \<not> ok then (Some (-1), c\<lparr>ctl_be := be\<rparr>)
          else (None, c\<lparr>ctl_be := be\<lparr>num_regions := n\<rparr>\<rparr>))"

definition be_get_programs :: "be_env \<Rightarrow> ctl \<Rightarrow> ctl" where
  "be_get_programs env c =
    (let c = c\<lparr>resp_size := 0\<rparr> in
     if env_open env < 0 then ctl_error c else c\<lparr>ctl_outfds := [env_open env]\<rparr>)"

definition set_ctx :: "nat \<Rightarrow> u64 \<Rightarrow> BpfhvBackend \<Rightarrow> BpfhvBackend" where
  "set_ctx i ctx be = be\<lparr>be_q := (be_q be)[i := (be_q be ! i)\<lparr>bq_ctx := ctx\<rparr>]\<rparr>"

definition be_set_queue_ctx :: "be_env \<Rightarrow> u32 \<Rightarrow> u64 \<Rightarrow> ctl \<Rightarrow> ctl" where
  "be_set_queue_ctx env queue_idx gpa c =
    (let be = ctl_be c; is_rx = queue_idx < num_queue_pairs be in
     if queue_idx \<ge> num_queues be then ctl_error c
     else if be_num_rx_bufs be = 0 \<or> be_num_tx_bufs be = 0 then ctl_error c
     else
       let ctx_size = (if is_rx then op_rx_ctx_size (be_ops be) (unat (be_num_rx_bufs be))
                       else op_tx_ctx_size (be_ops be) (unat (be_num_tx_bufs be)));
           (ctx, be) = (if gpa \<noteq> 0 then translate_addr be gpa (of_nat ctx_size) else (0, be));
           c = c\<lparr>ctl_be := be\<rparr>
       in if gpa \<noteq> 0 \<and> ctx = 0 then ctl_error c
          else
            let c = c\<lparr>ctl_be := set_ctx (unat queue_idx) ctx be\<rparr>
            in if ctx = 0 then c
               else if is_rx then ctl_eff [Eff_rx_init ctx (be_num_rx_bufs be)] c
               else ctl_eff (Eff_tx_init ctx (be_num_tx_bufs be) #
                      (if op_has_mark (be_ops be) then [Eff_tx_mark ctx (mark_mode env)] else [])) c)"

text \<open>A received descriptor that is installed is taken out of the array.\<close>

definition be_set_queue_notify :: "bool \<Rightarrow> u32 \<Rightarrow> ctl \<Rightarrow> ctl" where
  "be_set_queue_notify is_kick queue_idx c =
    (let be = ctl_be c; i = unat queue_idx; q = be_q be ! i in
     if queue_idx \<ge> num_queues be then ctl_error c
     else if ctl_num_fds c > 1 then ctl_error c
     else
       let old = (if is_kick then kickfd q else irqfd q);
           new = (if ctl_num_fds c = 1 then ctl_fds c ! 0 else -1);
           q = (if is_kick then q\<lparr>kickfd := new\<rparr> else q\<lparr>irqfd := new\<rparr>)
       in ctl_eff (if old \<ge> 0 then [Eff_close old] else [])
            (c\<lparr>ctl_be := be\<lparr>be_q := (be_q be)[i := q]\<rparr>, ctl_fds := (ctl_fds c)[0 := -1]\<rparr>))"

definition be_set_upgrade :: "ctl \<Rightarrow> ctl" where
  "be_set_upgrade c =
    (let be = ctl_be c in
     if ctl_num_fds c \<noteq> 1 then ctl_error c
     else ctl_eff (if upgrade_fd be \<ge> 0 then [Eff_close (upgrade_fd be)] else [])
            (c\<lparr>ctl_be := be\<lparr>upgrade_fd := ctl_fds c ! 0\<rparr>, ctl_fds := (ctl_fds c)[0 := -1]\<rparr>))"

section \<open>Activation\<close>

definition assign_backend :: "be_env \<Rightarrow> BpfhvBackendBatch \<Rightarrow> nat option \<times> BpfhvBackendBatch" where
  "assign_backend env bc =
    (if uint (allocated_instances bc) < client_threshold_activation env
     then (Some (unat (allocated_instances bc)), bc\<lparr>allocated_instances := allocated_instances bc + 1\<rparr>)
     else (None, bc))"

definition activate_backend :: "be_env \<Rightarrow> BpfhvBackend \<Rightarrow> BpfhvBackendBatch \<Rightarrow> int \<times> BpfhvBackendBatch" where
  "activate_backend env be bc =
    (if running be then (-1, bc)
     else if uint (used_instances bc) \<ge> client_threshold_activation env then (-1, bc)
     else
       let bc = bc\<lparr>used_instances := used_instances bc + 1\<rparr> in
       if uint (used_instances bc) = client_threshold_activation env then
         if env_create env \<noteq> 0 then (env_create env, bc) else (0, bc\<lparr>th_running := True\<rparr>)
       else (0, bc))"

text \<open>The processing thread sees the stop flag of the batch, and is joined.\<close>

definition backend_stop :: "be_env \<Rightarrow> BpfhvBackend \<Rightarrow> BpfhvBackendBatch \<Rightarrow> int \<times> BpfhvBackend \<times> BpfhvBackendBatch" where
  "backend_stop env be bc =
    (let bc1 = (if th_running bc then bc\<lparr>bc_stopflag := BPFHV_STOPFD_HALT\<rparr> else bc) in
     if th_running bc \<and> env_join env \<noteq> 0 then (env_join env, be, bc1)
     else
       let bc1 = bc1\<lparr>th_running := False\<rparr> in
       if \<not> running be then (-1, be, bc1)
       else (-1, be\<lparr>running := False\<rparr>, bc1\<lparr>used_instances := used_instances bc1 - 1\<rparr>))"

definition be_enable :: "be_env \<Rightarrow> bool \<Rightarrow> ctl \<Rightarrow> ctl" where
  "be_enable env is_rx c =
    (if \<not> backend_ready (ctl_be c) then ctl_error c
     else
       let c = upd_be (\<lambda>be. be\<lparr>be_status := be_status be OR
             (if is_rx then BPFHV_STATUS_RX_ENABLED else BPFHV_STATUS_TX_ENABLED)\<rparr>) c
       in if running (ctl_be c) then c
          else
            let c = upd_be (\<lambda>be. be\<lparr>be_stopflag := 0\<rparr>) c in
            case activate_backend env (ctl_be c) (ctl_bc c) of (ret, bc) \<Rightarrow>
              let c = c\<lparr>ctl_bc := bc\<rparr> in
              if ret \<noteq> 0 then c else upd_be (\<lambda>be. be\<lparr>running := True\<rparr>) c)"

definition be_disable :: "be_env \<Rightarrow> bool \<Rightarrow> ctl \<Rightarrow> ctl" where
  "be_disable env is_rx c =
    (let c = upd_be (\<lambda>be. be\<lparr>be_status := be_status be AND
           NOT (if is_rx then BPFHV_STATUS_RX_ENABLED else BPFHV_STATUS_TX_ENABLED)\<rparr>) c
     in if \<not> running (ctl_be c) \<or> be_status (ctl_be c) AND (BPFHV_STATUS_RX_ENABLED OR BPFHV_STATUS_TX_ENABLED) \<noteq> 0
        then c
        else case backend_stop env (ctl_be c) (ctl_bc c) of (ret, be, bc) \<Rightarrow>
          let c = c\<lparr>ctl_be := be, ctl_bc := bc\<rparr> in
          if ret \<noteq> 0 then c else ctl_eff [Eff_drain] c)"

section \<open>The message loop\<close>

definition not_while_running :: "u32 \<Rightarrow> bool" where
  "not_while_running t \<longleftrightarrow> t = REQ_SET_FEATURES \<or> t = REQ_SET_PARAMETERS \<or> t = REQ_SET_QUEUE_CTX \<or> t = REQ_SET_QUEUE_KICK"

definition handle_request :: "be_env \<Rightarrow> u32 \<Rightarrow> proxy_payload \<Rightarrow> ctl \<Rightarrow> int option \<times> ctl" where
  "handle_request env t p c =
    (if t = REQ_SET_FEATURES then (None, be_set_features (pl_u64 p) c)
     else if t = REQ_GET_FEATURES then (None, be_get_features c)
     else if t = REQ_SET_PARAMETERS then (None, be_set_parameters (pl_params p) c)
     else if t = REQ_SET_MEM_TABLE then be_set_mem_table env (pl_map p) c
     else if t = REQ_GET_PROGRAMS then (None, be_get_programs env c)
     else if t = REQ_SET_QUEUE_CTX then (None, be_set_queue_ctx env (pl_ctx_queue_idx p) (pl_ctx_gpa p) c)
     else if t = REQ_SET_QUEUE_KICK \<or> t = REQ_SET_QUEUE_IRQ
       then (None, be_set_queue_notify (t = REQ_SET_QUEUE_KICK) (pl_notify_queue_idx p) c)
     else if t = REQ_SET_UPGRADE then (None, be_set_upgrade c)
     else if t = REQ_RX_ENABLE \<or> t = REQ_TX_ENABLE then (None, be_enable env (t = REQ_RX_ENABLE) c)
     else (None, be_disable env (t = REQ_RX_DISABLE) c))"

text \<open>The descriptors that are still in the arrays after the response.\<close>

definition close_fds :: "ctl \<Rightarrow> ctl" where
  "close_fds c = ctl_eff (map Eff_close (filter (\<lambda>f. f \<ge> 0) (take (ctl_num_fds c) (ctl_fds c)))
     @ map Eff_close (filter (\<lambda>f. f \<ge> 0) (ctl_outfds c))) c"

definition start_request :: "proxy_in \<Rightarrow> BpfhvBackend \<Rightarrow> BpfhvBackendBatch \<Rightarrow> ctl" where
  "start_request m be bc = \<lparr>ctl_be = be, ctl_bc = bc,
     ctl_fds = in_fds m @ replicate (BPFHV_PROXY_MAX_REGIONS - length (in_fds m)) 0, ctl_num_fds = length (in_fds m),
     resp_flags = PROXY_VERSION, resp_size = 0, resp_payload = Resp_none, ctl_outfds = [], ctl_effs = []\<rparr>"

text \<open>The result and the state; a response is sent unless the function returned before.\<close>

definition process_guest_message :: "be_env \<Rightarrow> proxy_in \<Rightarrow> BpfhvBackend \<Rightarrow> BpfhvBackendBatch \<Rightarrow> int \<times> ctl" where
  "process_guest_message env m be bc =
    (let c = start_request m be bc; t = reqtype (in_hdr m) in
     case recv_error m of
       Some e \<Rightarrow> (e, c)
     | None \<Rightarrow>
         case (if not_while_running t \<and> running be then (None, ctl_error c) else handle_request env t (in_payload m) c) of
           (Some r, c) \<Rightarrow> (r, c)
         | (None, c) \<Rightarrow> if \<not> env_send env then (-1, c) else (0, close_fds c))"

section \<open>A new connection\<close>

definition OPT_TXCSUM :: u32 where "OPT_TXCSUM = 1"
definition OPT_RXCSUM :: u32 where "OPT_RXCSUM = 2"
definition OPT_TSO :: u32 where "OPT_TSO = 4"
definition OPT_LRO :: u32 where "OPT_LRO = 8"

definition offload_features :: "u32 \<Rightarrow> u64 \<Rightarrow> u64" where
  "offload_features opt f =
    (let f = (if opt AND OPT_TXCSUM = 0 then f AND NOT BPFHV_F_TX_CSUM else f);
         f = (if opt AND OPT_RXCSUM = 0 then f AND NOT BPFHV_F_RX_CSUM else f);
         f = (if opt AND (OPT_TXCSUM OR OPT_RXCSUM) = 0 then f AND NOT BPFHV_F_SG else f);
         f = (if opt AND OPT_TSO = 0 then f AND NOT (BPFHV_F_TSOv4 OR BPFHV_F_TSOv6 OR BPFHV_F_UFO) else f)
     in if opt AND OPT_LRO = 0 then f AND NOT (BPFHV_F_TCPv4_LRO OR BPFHV_F_TCPv6_LRO OR BPFHV_F_UDP_LRO) else f)"

text \<open>The descriptor of the network interface is what opening it gave, negative on failure;
  \<open>BPFHVCTL_DEV_TYPE_NONE\<close> opens nothing.  A device name that is not known leaves the
  operations of the zero-initialised backend.\<close>

definition dev_ops :: "string \<Rightarrow> u32 \<Rightarrow> BeOps \<Rightarrow> BeOps" where
  "dev_ops ifimpl opt old =
    (let dev = (if ifimpl = ''sring'' \<and> opt \<noteq> 0 then ''sring_gso'' else ifimpl) in
     if dev = ''sring'' then sring_ops
     else if dev = ''sring_gso'' then sring_gso_ops
     else if dev = ''vring_packed'' then vring_packed_ops
     else old)"

definition setup_backend :: "bool \<Rightarrow> int \<Rightarrow> bool \<Rightarrow> string \<Rightarrow> u32 \<Rightarrow> BpfhvBackend \<Rightarrow> int \<times> BpfhvBackend" where
  "setup_backend has_if fd eventfd_ok ifimpl opt be =
    (let ops = dev_ops ifimpl opt (be_ops be);
         opt = (if ifimpl = ''vring_packed'' then 0 else opt);
         be = be\<lparr>be_ops := ops, features_avail := offload_features opt (op_features_avail ops),
            vnet_hdr_len := (if opt \<noteq> 0 then 12 else 0), befd := (if has_if then fd else -1)\<rparr>
     in if has_if \<and> fd < 0 then (-1, be)
        else
          let be = be\<lparr>features_sel := 0, num_queue_pairs := 0, num_queues := 0, be_num_rx_bufs := 0, be_num_tx_bufs := 0,
                running := False, be_status := 0, upgrade_fd := -1,
                be_q := map (\<lambda>q. q\<lparr>bq_ctx := 0, kickfd := -1, irqfd := -1\<rparr>) (be_q be)\<rparr>
          in if \<not> eventfd_ok then (-1, be) else (0, be\<lparr>be_stopflag := 0\<rparr>))"

definition zero_backend :: BpfhvBackend where
  "zero_backend = \<lparr>regions = replicate BPFHV_PROXY_MAX_REGIONS zero_region, num_regions = 0,
     be_ops = \<lparr>op_rx_ctx_size = (\<lambda>_. 0), op_tx_ctx_size = (\<lambda>_. 0), op_has_mark = False, op_features_avail = 0, op_progfile = []\<rparr>,
     features_avail = 0, features_sel = 0, num_queue_pairs = 0, be_num_rx_bufs = 0, be_num_tx_bufs = 0, num_queues = 0,
     be_status = 0, running = False, upgrade_fd = 0, be_stopflag = 0, befd = 0, vnet_hdr_len = 0, max_rx_pkt_size = 0,
     be_q = replicate BPFHV_MAX_QUEUES \<lparr>bq_ctx = 0, kickfd = 0, irqfd = 0\<rparr>\<rparr>"

end
