(* ===== verification/Backend_Server.thy ===== *)
theory Backend_Server
  imports Backend_Control
begin

text \<open>
  The server loop of the backend process (\<open>main_server_select\<close> of \<open>proxy/backend.c\<close>): new
  connections, requests on existing ones, and disconnections.  The array of instances is a
  list; the table from socket descriptors to backends is a function into indices of it.
\<close>

section \<open>The state of the process\<close>

record server =
  sv_bc :: BpfhvBackendBatch
  sv_inst :: "BpfhvBackend list"
  sv_sd :: "int \<Rightarrow> nat option"
  sv_socks :: "int set"
  sv_closed :: "int list"

definition BPFHV_MAX_INSTANCES :: nat where "BPFHV_MAX_INSTANCES = 128"
definition BPFHV_MAX_SOCKET_DESCR :: int where "BPFHV_MAX_SOCKET_DESCR = 512"

definition set_backend_from_sd :: "int \<Rightarrow> nat option \<Rightarrow> server \<Rightarrow> server" where
  "set_backend_from_sd sd be s = (if sd \<ge> BPFHV_MAX_SOCKET_DESCR then s else s\<lparr>sv_sd := (sv_sd s)(sd := be)\<rparr>)"

definition get_backend_from_sd :: "int \<Rightarrow> server \<Rightarrow> nat option" where
  "get_backend_from_sd sd s = (if sd \<ge> BPFHV_MAX_SOCKET_DESCR then None else sv_sd s sd)"

text \<open>The settings of the command line that the server uses: scheduler mode chooses the
  device and no interface.\<close>

record conn_env =
  scheduler_mode :: bool
  conn_fd :: int
  conn_eventfd :: bool

section \<open>Events\<close>

text \<open>A new connection.  A failing setup is reported and otherwise ignored.\<close>

definition serve_accept :: "be_env \<Rightarrow> conn_env \<Rightarrow> int \<Rightarrow> server \<Rightarrow> server" where
  "serve_accept env ce sd s =
    (case assign_backend env (sv_bc s) of
       (None, bc) \<Rightarrow> s\<lparr>sv_bc := bc, sv_closed := sv_closed s @ [sd]\<rparr>
     | (Some i, bc) \<Rightarrow>
         let be = snd (if scheduler_mode ce then setup_backend False 0 (conn_eventfd ce) ''vring_packed'' 0 (sv_inst s ! i)
                       else setup_backend True (conn_fd ce) (conn_eventfd ce) ''sring'' 0 (sv_inst s ! i));
             s = s\<lparr>sv_bc := bc, sv_inst := (sv_inst s)[i := be]\<rparr>;
             s = set_backend_from_sd sd (Some i) s
         in s\<lparr>sv_socks := insert sd (sv_socks s)\<rparr>)"

text \<open>A request.  The value \<open>None\<close> is the use of a null pointer.\<close>

definition serve_message :: "be_env \<Rightarrow> proxy_in \<Rightarrow> int \<Rightarrow> server \<Rightarrow> server option" where
  "serve_message env m sd s =
    (case get_backend_from_sd sd s of
       None \<Rightarrow> None
     | Some i \<Rightarrow>
         case process_guest_message env m (sv_inst s ! i) (sv_bc s) of (ret, c) \<Rightarrow>
           let s = s\<lparr>sv_inst := (sv_inst s)[i := ctl_be c], sv_bc := ctl_bc c\<rparr> in
           Some (if ret < 0 then
               let s = set_backend_from_sd sd None s
               in s\<lparr>sv_socks := sv_socks s - {sd}, sv_closed := sv_closed s @ [sd, befd (sv_inst s ! i)]\<rparr>
             else s))"

text \<open>The state in which \<open>main\<close> starts the server.\<close>

definition server_start :: server where
  "server_start = \<lparr>sv_bc = \<lparr>th_running = False, bc_stopflag = 0, allocated_instances = 0, used_instances = 0\<rparr>,
     sv_inst = replicate BPFHV_MAX_INSTANCES zero_backend, sv_sd = (\<lambda>_. None), sv_socks = {}, sv_closed = []\<rparr>"

section \<open>Steps\<close>

text \<open>Any client may send any request; \<open>ok\<close> restricts the answers of the operating system.
  The threshold of clients is fixed, positive and at most the number of instances.\<close>

definition threshold_ok :: "int \<Rightarrow> be_env \<Rightarrow> bool" where
  "threshold_ok thr env \<longleftrightarrow> client_threshold_activation env = thr \<and> 0 < thr \<and> thr \<le> int BPFHV_MAX_INSTANCES"

inductive server_step :: "int \<Rightarrow> (be_env \<Rightarrow> bool) \<Rightarrow> server \<Rightarrow> server \<Rightarrow> bool"
  for thr ok where
  step_accept: "threshold_ok thr env \<Longrightarrow> ok env \<Longrightarrow> 0 \<le> sd \<Longrightarrow> sd \<notin> sv_socks s \<Longrightarrow>
    server_step thr ok s (serve_accept env ce sd s)"
| step_message: "threshold_ok thr env \<Longrightarrow> ok env \<Longrightarrow> sd \<in> sv_socks s \<Longrightarrow> list_all (\<lambda>f. 0 \<le> f) (in_fds m) \<Longrightarrow>
    serve_message env m sd s = Some s' \<Longrightarrow> server_step thr ok s s'"

inductive server_reach :: "int \<Rightarrow> (be_env \<Rightarrow> bool) \<Rightarrow> server \<Rightarrow> server \<Rightarrow> bool"
  for thr ok s0 where
  reach_start: "server_reach thr ok s0 s0"
| reach_step: "server_reach thr ok s0 s \<Longrightarrow> server_step thr ok s s' \<Longrightarrow> server_reach thr ok s0 s'"

section \<open>The invariant of a backend\<close>

text \<open>What the control plane keeps of each backend: the sizes of its arrays, negotiated
  features that are available, one queue pair with valid buffer numbers or none, and for a
  running backend a context and a kick descriptor for every queue.\<close>

definition be_params_ok :: "BpfhvBackend \<Rightarrow> bool" where
  "be_params_ok be \<longleftrightarrow> num_queues be = 2 * num_queue_pairs be \<and>
     (num_queue_pairs be = 0 \<or> num_queue_pairs be = 1 \<and>
        num_bufs_valid (ucast (be_num_rx_bufs be)) \<and> num_bufs_valid (ucast (be_num_tx_bufs be)))"

definition be_inv :: "BpfhvBackend \<Rightarrow> bool" where
  "be_inv be \<longleftrightarrow> length (regions be) = BPFHV_PROXY_MAX_REGIONS \<and> num_regions be \<le> BPFHV_PROXY_MAX_REGIONS \<and>
     length (be_q be) = BPFHV_MAX_QUEUES \<and> features_sel be AND NOT (features_avail be) = 0 \<and> be_params_ok be \<and>
     (running be \<longrightarrow> num_queue_pairs be = 1 \<and> (\<forall>i < 2. bq_ctx (be_q be ! i) \<noteq> 0 \<and> kickfd (be_q be ! i) \<ge> 0))"

named_theorems ctl_simps \<open>the projections of the request state after an operation\<close>

lemma ctl_helper_simps [ctl_simps, simp]:
  "ctl_be (ctl_error c) = ctl_be c" "ctl_bc (ctl_error c) = ctl_bc c" "ctl_be (ctl_eff es c) = ctl_be c"
  "ctl_bc (ctl_eff es c) = ctl_bc c" "ctl_be (close_fds c) = ctl_be c" "ctl_bc (close_fds c) = ctl_bc c"
  "ctl_be (upd_be f c) = f (ctl_be c)" "ctl_bc (upd_be f c) = ctl_bc c"
  by (simp_all add: ctl_error_def ctl_eff_def close_fds_def upd_be_def)

lemma be_set_features_inv [inv_intros]: "be_inv (ctl_be c) \<Longrightarrow> be_inv (ctl_be (be_set_features u c))"
  by (simp add: be_set_features_def be_inv_def be_params_ok_def Let_def ac_simps bit_eq_iff bit_simps)

lemma be_get_features_inv [inv_intros]: "be_inv (ctl_be c) \<Longrightarrow> be_inv (ctl_be (be_get_features c))"
  by (simp add: be_get_features_def)

lemma be_set_parameters_inv [inv_intros]:
  "be_inv (ctl_be c) \<Longrightarrow> \<not> running (ctl_be c) \<Longrightarrow> be_inv (ctl_be (be_set_parameters p c))"
  by (auto simp: be_set_parameters_def be_inv_def be_params_ok_def Let_def)

lemma map_regions_length [simp]: "length (snd (map_regions mm i ps rs)) = length rs"
  by (induction mm i ps rs rule: map_regions.induct) (auto simp: Let_def split: option.splits)

lemma be_set_mem_table_inv [inv_intros]:
  "be_inv (ctl_be c) \<Longrightarrow> be_inv (ctl_be (snd (be_set_mem_table env m c)))"
proof -
  assume "be_inv (ctl_be c)"
  moreover obtain ok rs where r: "map_regions (env_mmap env) 0 (take (unat (pm_num_regions m)) (pm_regions m))
      (replicate BPFHV_PROXY_MAX_REGIONS zero_region) = (ok, rs)" by fastforce
  moreover have "length rs = BPFHV_PROXY_MAX_REGIONS" using map_regions_length r by (metis length_replicate snd_conv)
  ultimately show ?thesis by (auto simp: be_set_mem_table_def be_inv_def be_params_ok_def Let_def)
qed

lemma be_get_programs_inv [inv_intros]: "be_inv (ctl_be c) \<Longrightarrow> be_inv (ctl_be (be_get_programs env c))"
  by (simp add: be_get_programs_def Let_def)

lemma translate_addr_be:
  fixes be :: "'a be_mem_scheme"
  obtains rs where "snd (translate_addr be gpa len) = be\<lparr>regions := rs\<rparr>" "length rs = length (regions be)"
proof -
  have "\<exists>rs. snd (translate_addr be gpa len) = be\<lparr>regions := rs\<rparr> \<and> length rs = length (regions be)"
    by (auto simp: translate_addr_def Let_def split: option.splits intro: exI [of _ "regions be"])
  then show ?thesis using that by blast
qed

lemma be_inv_regions: "length rs = length (regions be) \<Longrightarrow> be_inv (be\<lparr>regions := rs\<rparr>) \<longleftrightarrow> be_inv be"
  by (simp add: be_inv_def be_params_ok_def)

lemma be_inv_q:
  assumes "be_inv be" "\<not> running be \<or> bq_ctx q = bq_ctx (be_q be ! i) \<and> kickfd q = kickfd (be_q be ! i)"
  shows "be_inv (be\<lparr>be_q := (be_q be)[i := q]\<rparr>)"
proof -
  have "(be_q be)[i := q] ! j = (if i = j then q else be_q be ! j)" if "j < 2" for j
    using assms(1) that by (cases "i = j") (simp_all add: be_inv_def BPFHV_MAX_QUEUES_def)
  then show ?thesis using assms by (auto simp: be_inv_def be_params_ok_def)
qed

lemma be_set_queue_ctx_inv [inv_intros]:
  assumes "be_inv (ctl_be c)" "\<not> running (ctl_be c)"
  shows "be_inv (ctl_be (be_set_queue_ctx env qi gpa c))"
proof -
  have t: "be_inv be \<and> \<not> running be" if "translate_addr (ctl_be c) gpa len = (x, be)" for len x be
    by (rule translate_addr_be [of "ctl_be c" gpa len]) (use assms that in \<open>simp add: be_inv_regions\<close>)
  have s: "be_inv be \<Longrightarrow> \<not> running be \<Longrightarrow> be_inv (set_ctx i ctx be)" for be i ctx
    unfolding set_ctx_def by (rule be_inv_q) simp_all
  show ?thesis using assms by (auto simp: be_set_queue_ctx_def Let_def dest!: t intro!: s split: prod.splits if_splits)
qed

lemma be_set_queue_notify_inv [inv_intros]:
  assumes "be_inv (ctl_be c)" "is_kick \<longrightarrow> \<not> running (ctl_be c)"
  shows "be_inv (ctl_be (be_set_queue_notify is_kick qi c))"
  using assms by (auto simp: be_set_queue_notify_def Let_def intro!: be_inv_q)

lemma be_set_upgrade_inv [inv_intros]: "be_inv (ctl_be c) \<Longrightarrow> be_inv (ctl_be (be_set_upgrade c))"
  by (simp add: be_set_upgrade_def be_inv_def be_params_ok_def Let_def)

lemma backend_ready_running:
  assumes "be_inv be" "backend_ready be"
  shows "be_inv (be\<lparr>running := True\<rparr>)"
proof -
  have p: "num_queue_pairs be = 1" "num_queues be = 2" using assms by (auto simp: be_inv_def be_params_ok_def backend_ready_def)
  have "be_queue_ready (be_q be ! i)" if "i < 2" for i using assms(2) that p(2) by (simp add: backend_ready_def)
  then have "bq_ctx (be_q be ! i) \<noteq> 0 \<and> 0 \<le> kickfd (be_q be ! i)" if "i < 2" for i
    using that by (simp add: be_queue_ready_def not_less)
  then show ?thesis using assms(1) p by (simp add: be_inv_def be_params_ok_def)
qed

lemma backend_ready_status [simp]:
  "backend_ready (be\<lparr>be_status := s\<rparr>) = backend_ready be" "backend_ready (be\<lparr>be_stopflag := f\<rparr>) = backend_ready be"
  "be_inv (be\<lparr>be_status := s\<rparr>) = be_inv be" "be_inv (be\<lparr>be_stopflag := f\<rparr>) = be_inv be"
  "be_inv be \<Longrightarrow> be_inv (be\<lparr>running := False\<rparr>)"
  by (simp_all add: backend_ready_def be_inv_def be_params_ok_def)

lemma be_enable_inv [inv_intros]: "be_inv (ctl_be c) \<Longrightarrow> be_inv (ctl_be (be_enable env is_rx c))"
  by (simp add: be_enable_def Let_def backend_ready_running split: prod.splits)

lemma be_disable_inv [inv_intros]: "be_inv (ctl_be c) \<Longrightarrow> be_inv (ctl_be (be_disable env is_rx c))"
  by (auto simp: be_disable_def backend_stop_def Let_def split: prod.splits if_splits)

lemma handle_request_inv:
  assumes "be_inv (ctl_be c)" "not_while_running t \<longrightarrow> \<not> running (ctl_be c)"
  shows "be_inv (ctl_be (snd (handle_request env t p c)))"
  using assms by (auto simp: handle_request_def not_while_running_def intro!: inv_intros)

lemma process_guest_message_inv:
  assumes "be_inv be"
  shows "be_inv (ctl_be (snd (process_guest_message env m be bc)))"
proof -
  have s: "ctl_be (start_request m be bc) = be" by (simp add: start_request_def)
  have h: "be_inv (ctl_be c)" if "handle_request env (reqtype (in_hdr m)) (in_payload m) (start_request m be bc) = (r, c)"
    "\<not> (not_while_running (reqtype (in_hdr m)) \<and> running be)" for r c
    using handle_request_inv [of "start_request m be bc" "reqtype (in_hdr m)" env "in_payload m"] s assms that by simp
  show ?thesis using assms s h
    by (auto simp: process_guest_message_def Let_def split: option.splits prod.splits if_splits)
qed

lemma be_inv_zero: "be_inv zero_backend" "\<not> running zero_backend"
  by (simp_all add: zero_backend_def be_inv_def be_params_ok_def BPFHV_MAX_QUEUES_def BPFHV_PROXY_MAX_REGIONS_def)

lemma setup_backend_inv:
  "be_inv (snd (setup_backend has_if fd ev ifimpl opt zero_backend))" "\<not> running (snd (setup_backend has_if fd ev ifimpl opt zero_backend))"
  using be_inv_zero by (auto simp: setup_backend_def zero_backend_def be_inv_def be_params_ok_def Let_def)

section \<open>The count of active backends\<close>

text \<open>How a request changes the running flag and the batch.\<close>

definition run_change :: "int \<Rightarrow> BpfhvBackend \<Rightarrow> BpfhvBackendBatch \<Rightarrow> BpfhvBackend \<Rightarrow> BpfhvBackendBatch \<Rightarrow> bool" where
  "run_change thr be bc be' bc' \<longleftrightarrow> allocated_instances bc' = allocated_instances bc \<and>
     (running be' = running be \<and> used_instances bc' = used_instances bc \<or>
      \<not> running be \<and> running be' \<and> uint (used_instances bc) < thr \<and> used_instances bc' = used_instances bc + 1 \<or>
      running be \<and> \<not> running be' \<and> used_instances bc' = used_instances bc - 1)"

lemma run_change_refl [simp]: "run_change thr be bc be bc"
  by (simp add: run_change_def)

lemma run_change_same: "running be' = running be \<Longrightarrow> run_change thr be bc be' bc"
  by (simp add: run_change_def)

lemma translate_running: "translate_addr be gpa len = (x, be') \<Longrightarrow> running be' = running be"
  by (rule translate_addr_be [of be gpa len]) simp

lemma config_running:
  "running (ctl_be (be_set_features u c)) = running (ctl_be c)"
  "running (ctl_be (be_get_features c)) = running (ctl_be c)"
  "running (ctl_be (be_set_parameters p c)) = running (ctl_be c)"
  "running (ctl_be (snd (be_set_mem_table env mm c))) = running (ctl_be c)"
  "running (ctl_be (be_get_programs env c)) = running (ctl_be c)"
  "running (ctl_be (be_set_queue_ctx env qi gpa c)) = running (ctl_be c)"
  "running (ctl_be (be_set_queue_notify k qi c)) = running (ctl_be c)"
  "running (ctl_be (be_set_upgrade c)) = running (ctl_be c)"
  by (auto simp: be_set_features_def be_get_features_def be_set_parameters_def be_set_mem_table_def be_get_programs_def
      be_set_queue_ctx_def be_set_queue_notify_def be_set_upgrade_def set_ctx_def Let_def split: prod.splits if_splits
      dest!: translate_running)

lemma config_bc:
  "ctl_bc (be_set_features u c) = ctl_bc c"
  "ctl_bc (be_get_features c) = ctl_bc c"
  "ctl_bc (be_set_parameters p c) = ctl_bc c"
  "ctl_bc (snd (be_set_mem_table env mm c)) = ctl_bc c"
  "ctl_bc (be_get_programs env c) = ctl_bc c"
  "ctl_bc (be_set_queue_ctx env qi gpa c) = ctl_bc c"
  "ctl_bc (be_set_queue_notify k qi c) = ctl_bc c"
  "ctl_bc (be_set_upgrade c) = ctl_bc c"
  by (auto simp: be_set_features_def be_get_features_def be_set_parameters_def be_set_mem_table_def be_get_programs_def
      be_set_queue_ctx_def be_set_queue_notify_def be_set_upgrade_def set_ctx_def Let_def split: prod.splits)

lemmas config_simps = config_running config_bc

lemma handle_request_run:
  assumes "env_create env = 0" "client_threshold_activation env = thr"
  shows "run_change thr (ctl_be c) (ctl_bc c) (ctl_be (snd (handle_request env t p c))) (ctl_bc (snd (handle_request env t p c)))"
proof -
  have e: "run_change thr (ctl_be c) (ctl_bc c) (ctl_be (be_enable env r c)) (ctl_bc (be_enable env r c))" for r
    using assms by (auto simp: be_enable_def activate_backend_def run_change_def Let_def split: prod.splits if_splits)
  have d: "run_change thr (ctl_be c) (ctl_bc c) (ctl_be (be_disable env r c)) (ctl_bc (be_disable env r c))" for r
    by (auto simp: be_disable_def backend_stop_def run_change_def Let_def split: prod.splits if_splits)
  show ?thesis using e d by (simp add: handle_request_def run_change_same config_simps)
qed

lemma process_guest_message_run:
  assumes "env_create env = 0" "client_threshold_activation env = thr"
  shows "run_change thr be bc (ctl_be (snd (process_guest_message env m be bc))) (ctl_bc (snd (process_guest_message env m be bc)))"
proof -
  have s: "ctl_be (start_request m be bc) = be" "ctl_bc (start_request m be bc) = bc" by (simp_all add: start_request_def)
  have h: "run_change thr be bc (ctl_be c) (ctl_bc c)"
    if "handle_request env (reqtype (in_hdr m)) (in_payload m) (start_request m be bc) = (r, c)" for r c
    using handle_request_run [OF assms, of "start_request m be bc" "reqtype (in_hdr m)" "in_payload m"] s that by simp
  show ?thesis using s h
    by (auto simp: process_guest_message_def Let_def split: option.splits prod.splits if_splits)
qed

definition active_count :: "BpfhvBackend list \<Rightarrow> nat" where
  "active_count bs = card {j. j < length bs \<and> running (bs ! j)}"

lemma active_count_upd:
  assumes "i < length bs"
  shows "active_count (bs[i := b]) = (if running b then 1 else 0) + card {j. j < length bs \<and> j \<noteq> i \<and> running (bs ! j)}"
proof -
  let ?R = "{j. j < length bs \<and> j \<noteq> i \<and> running (bs ! j)}"
  have "{j. j < length (bs[i := b]) \<and> running (bs[i := b] ! j)} = (if running b then insert i ?R else ?R)"
    using assms by (auto simp: nth_list_update split: if_splits)
  then show ?thesis by (simp add: active_count_def)
qed

lemma active_count_change:
  assumes "i < length bs" "run_change thr (bs ! i) bc b bc'" "uint (used_instances bc) = int (active_count bs)"
    and "thr \<le> 128"
  shows "uint (used_instances bc') = int (active_count (bs[i := b]))"
proof -
  let ?R = "card {j. j < length bs \<and> j \<noteq> i \<and> running (bs ! j)}"
  have n: "active_count bs = (if running (bs ! i) then 1 else 0) + ?R"
    using active_count_upd [OF assms(1), of "bs ! i"] by simp
  note u = active_count_upd [OF assms(1), of b]
  from assms(2) consider (same) "running b = running (bs ! i)" "used_instances bc' = used_instances bc"
    | (up) "\<not> running (bs ! i)" "running b" "uint (used_instances bc) < thr" "used_instances bc' = used_instances bc + 1"
    | (down) "running (bs ! i)" "\<not> running b" "used_instances bc' = used_instances bc - 1"
    unfolding run_change_def by blast
  then show ?thesis
  proof cases
    case same
    then show ?thesis using assms(3) n u by simp
  next
    case up
    then have "uint (used_instances bc + 1) = uint (used_instances bc) + 1"
      using assms(4) by (simp add: uint_word_ariths)
    then show ?thesis using up assms(3) n u by simp
  next
    case down
    have "uint (used_instances bc) < 2 ^ 16" using uint_lt2p [of "used_instances bc"] by simp
    moreover have "0 < uint (used_instances bc)" using assms(3) n down(1) by simp
    ultimately have "uint (used_instances bc - 1) = uint (used_instances bc) - 1" by (simp add: uint_word_ariths)
    then show ?thesis using down assms(3) n u by simp
  qed
qed

section \<open>The invariant of the server\<close>

definition sv_inv :: "int \<Rightarrow> server \<Rightarrow> bool" where
  "sv_inv thr s \<longleftrightarrow> length (sv_inst s) = BPFHV_MAX_INSTANCES \<and> (\<forall>be \<in> set (sv_inst s). be_inv be) \<and>
     uint (allocated_instances (sv_bc s)) \<le> thr \<and>
     (\<forall>j < BPFHV_MAX_INSTANCES. unat (allocated_instances (sv_bc s)) \<le> j \<longrightarrow> sv_inst s ! j = zero_backend) \<and>
     (\<forall>sd i. sv_sd s sd = Some i \<longrightarrow> i < unat (allocated_instances (sv_bc s)))"

lemma sv_inv_start: "0 < thr \<Longrightarrow> sv_inv thr server_start" "active_count (sv_inst server_start) = 0"
  using be_inv_zero by (simp_all add: sv_inv_def server_start_def active_count_def)

lemma set_backend_from_sd_simps [simp]:
  "sv_bc (set_backend_from_sd sd b s) = sv_bc s" "sv_inst (set_backend_from_sd sd b s) = sv_inst s"
  "sv_socks (set_backend_from_sd sd b s) = sv_socks s" "sv_closed (set_backend_from_sd sd b s) = sv_closed s"
  by (simp_all add: set_backend_from_sd_def)

lemma set_backend_from_sd_sd:
  "sv_sd (set_backend_from_sd sd b s) x = Some i \<Longrightarrow> sv_sd s x = Some i \<or> b = Some i"
  by (auto simp: set_backend_from_sd_def split: if_splits)

lemma serve_accept_inv:
  assumes "sv_inv thr s" "threshold_ok thr env"
  shows "sv_inv thr (serve_accept env ce sd s)"
    and "uint (used_instances (sv_bc s)) = int (active_count (sv_inst s)) \<Longrightarrow>
      uint (used_instances (sv_bc (serve_accept env ce sd s))) = int (active_count (sv_inst (serve_accept env ce sd s)))"
proof -
  let ?a = "allocated_instances (sv_bc s)"
  have inv: "length (sv_inst s) = 128" "\<And>be. be \<in> set (sv_inst s) \<Longrightarrow> be_inv be" "uint ?a \<le> thr"
    "\<And>j. j < 128 \<Longrightarrow> unat ?a \<le> j \<Longrightarrow> sv_inst s ! j = zero_backend" "\<And>sd i. sv_sd s sd = Some i \<Longrightarrow> i < unat ?a"
    using assms(1) by (auto simp: sv_inv_def BPFHV_MAX_INSTANCES_def)
  have thr: "client_threshold_activation env = thr" "thr \<le> 128" using assms(2) by (simp_all add: threshold_ok_def BPFHV_MAX_INSTANCES_def)
  have "sv_inv thr (serve_accept env ce sd s) \<and> (uint (used_instances (sv_bc s)) = int (active_count (sv_inst s)) \<longrightarrow>
      uint (used_instances (sv_bc (serve_accept env ce sd s))) = int (active_count (sv_inst (serve_accept env ce sd s))))"
  proof (cases "uint ?a < thr")
    case False
    then show ?thesis using assms(1) thr by (simp add: serve_accept_def assign_backend_def sv_inv_def)
  next
    case True
    let ?i = "unat ?a"
    define be where "be = snd (if scheduler_mode ce then setup_backend False 0 (conn_eventfd ce) ''vring_packed'' 0 (sv_inst s ! ?i)
                       else setup_backend True (conn_fd ce) (conn_eventfd ce) ''sring'' 0 (sv_inst s ! ?i))"
    have "nat (uint ?a) < nat 128" unfolding zless_nat_conj using True thr(2) by simp
    then have i: "?i < 128" by (simp add: nat_uint_eq)
    then have z: "sv_inst s ! ?i = zero_backend" by (rule inv(4)) simp
    have b: "be_inv be" "\<not> running be" using setup_backend_inv unfolding be_def z by auto
    have u: "uint (?a + 1) = uint ?a + 1" "unat (?a + 1) = Suc ?i" using True thr(2) i by (simp_all add: uint_word_ariths unat_word_ariths)
    let ?s = "s\<lparr>sv_bc := (sv_bc s)\<lparr>allocated_instances := ?a + 1\<rparr>, sv_inst := (sv_inst s)[?i := be]\<rparr>"
    have r: "serve_accept env ce sd s = (set_backend_from_sd sd (Some ?i) ?s)\<lparr>sv_socks := insert sd (sv_socks s)\<rparr>"
      using True thr by (simp add: serve_accept_def assign_backend_def be_def)
    have "sv_inv thr (serve_accept env ce sd s)"
      unfolding r sv_inv_def using inv b u True i
      by (auto simp: BPFHV_MAX_INSTANCES_def dest!: set_backend_from_sd_sd dest: subsetD [OF set_update_subset_insert]
          intro: less_SucI [OF inv(5)])
    moreover have "active_count ((sv_inst s)[?i := be]) = active_count (sv_inst s)"
    proof -
      have "(sv_inst s)[?i := zero_backend] = sv_inst s" using z list_update_id [of "sv_inst s" ?i] by simp
      then show ?thesis
        using active_count_upd [of ?i "sv_inst s" be] active_count_upd [of ?i "sv_inst s" zero_backend] b(2) be_inv_zero(2) i inv(1) by simp
    qed
    ultimately show ?thesis unfolding r by simp
  qed
  then show "sv_inv thr (serve_accept env ce sd s)"
    "uint (used_instances (sv_bc s)) = int (active_count (sv_inst s)) \<Longrightarrow>
      uint (used_instances (sv_bc (serve_accept env ce sd s))) = int (active_count (sv_inst (serve_accept env ce sd s)))" by blast+
qed

lemma process_guest_message_alloc:
  "allocated_instances (ctl_bc (snd (process_guest_message env m be bc))) = allocated_instances bc"
proof -
  have "allocated_instances (ctl_bc (snd (handle_request env t p c))) = allocated_instances (ctl_bc c)" for t p c
    by (simp add: handle_request_def config_bc be_enable_def activate_backend_def be_disable_def backend_stop_def Let_def
        split: prod.splits)
  from this [of "reqtype (in_hdr m)" "in_payload m" "start_request m be bc"] show ?thesis
    by (auto simp: process_guest_message_def start_request_def Let_def split: option.splits prod.splits)
qed

lemma serve_messageE:
  assumes "serve_message env m sd s = Some s'" "sv_inv thr s" "thr \<le> 128"
  obtains i c where "i < 128" "i < unat (allocated_instances (sv_bc s))" "sv_bc s' = ctl_bc c"
    "sv_inst s' = (sv_inst s)[i := ctl_be c]" "c = snd (process_guest_message env m (sv_inst s ! i) (sv_bc s))"
    "\<forall>x j. sv_sd s' x = Some j \<longrightarrow> sv_sd s x = Some j"
proof -
  obtain i where i: "get_backend_from_sd sd s = Some i" using assms(1) by (auto simp: serve_message_def split: option.splits)
  obtain ret c where p: "process_guest_message env m (sv_inst s ! i) (sv_bc s) = (ret, c)" by fastforce
  have il: "i < unat (allocated_instances (sv_bc s))"
    using i assms(2) by (auto simp: get_backend_from_sd_def sv_inv_def split: if_splits)
  have "nat (uint (allocated_instances (sv_bc s))) \<le> nat 128"
    using assms(2,3) by (intro nat_mono) (simp add: sv_inv_def)
  then have "i < 128" using il by (simp add: nat_uint_eq)
  moreover have "\<forall>x j. sv_sd s' x = Some j \<longrightarrow> sv_sd s x = Some j"
    using assms(1) i p by (auto simp: serve_message_def Let_def set_backend_from_sd_def split: if_splits)
  moreover have "sv_bc s' = ctl_bc c" "sv_inst s' = (sv_inst s)[i := ctl_be c]"
    using assms(1) i p by (auto simp: serve_message_def Let_def)
  ultimately show ?thesis using that il p by (metis snd_conv)
qed

lemma serve_message_inv:
  assumes "sv_inv thr s" "serve_message env m sd s = Some s'" "threshold_ok thr env"
  shows "sv_inv thr s'"
    and "env_create env = 0 \<Longrightarrow> uint (used_instances (sv_bc s)) = int (active_count (sv_inst s)) \<Longrightarrow>
      uint (used_instances (sv_bc s')) = int (active_count (sv_inst s'))"
proof -
  have thr: "thr \<le> 128" "client_threshold_activation env = thr"
    using assms(3) by (simp_all add: threshold_ok_def BPFHV_MAX_INSTANCES_def)
  obtain i c where r: "i < 128" "i < unat (allocated_instances (sv_bc s))" "sv_bc s' = ctl_bc c"
    "sv_inst s' = (sv_inst s)[i := ctl_be c]" "c = snd (process_guest_message env m (sv_inst s ! i) (sv_bc s))"
    "\<forall>x j. sv_sd s' x = Some j \<longrightarrow> sv_sd s x = Some j" by (rule serve_messageE [OF assms(2,1) thr(1)])
  have len: "length (sv_inst s) = 128" using assms(1) by (simp add: sv_inv_def BPFHV_MAX_INSTANCES_def)
  have b: "be_inv (ctl_be c)"
    unfolding r(5) by (rule process_guest_message_inv) (use assms(1) r(1) len in \<open>simp add: sv_inv_def\<close>)
  have a: "allocated_instances (ctl_bc c) = allocated_instances (sv_bc s)" unfolding r(5) by (rule process_guest_message_alloc)
  have "\<forall>x j. sv_sd s' x = Some j \<longrightarrow> j < unat (allocated_instances (sv_bc s))"
    using r(6) assms(1) unfolding sv_inv_def by blast
  then show "sv_inv thr s'" using assms(1) r(2-4) b a
    by (auto simp: sv_inv_def dest: subsetD [OF set_update_subset_insert])
  assume "env_create env = 0" "uint (used_instances (sv_bc s)) = int (active_count (sv_inst s))"
  moreover have "run_change thr (sv_inst s ! i) (sv_bc s) (ctl_be c) (ctl_bc c)"
    unfolding r(5) using calculation(1) thr(2) by (rule process_guest_message_run)
  ultimately show "uint (used_instances (sv_bc s')) = int (active_count (sv_inst s'))"
    unfolding r(3,4) using r(1) len thr(1) by (intro active_count_change [of i]) simp_all
qed

lemma server_reach_inv:
  assumes "server_reach thr ok server_start s"
  shows "sv_inv thr s \<or> s = server_start"
    and "(\<And>env. ok env \<Longrightarrow> env_create env = 0) \<Longrightarrow> uint (used_instances (sv_bc s)) = int (active_count (sv_inst s))"
proof -
  have "(sv_inv thr s \<or> s = server_start) \<and>
    ((\<forall>env. ok env \<longrightarrow> env_create env = 0) \<longrightarrow> uint (used_instances (sv_bc s)) = int (active_count (sv_inst s)))"
    using assms
  proof (induction rule: server_reach.induct)
    case reach_start
    show ?case using sv_inv_start(2) by (simp add: server_start_def)
  next
    case (reach_step s s')
    from reach_step.hyps(2) show ?case
    proof (cases rule: server_step.cases)
      case (step_accept env sd ce)
      have "sv_inv thr s" using reach_step.IH sv_inv_start(1) step_accept(2) by (auto simp: threshold_ok_def)
      then show ?thesis using serve_accept_inv [OF _ step_accept(2)] step_accept(1) reach_step.IH by auto
    next
      case (step_message env sd m)
      have "sv_inv thr s" using reach_step.IH sv_inv_start(1) step_message(1) by (auto simp: threshold_ok_def)
      note m = serve_message_inv [OF this step_message(5,1)]
      show ?thesis using m step_message(2) reach_step.IH by auto
    qed
  qed
  then show "sv_inv thr s \<or> s = server_start"
    "(\<And>env. ok env \<Longrightarrow> env_create env = 0) \<Longrightarrow> uint (used_instances (sv_bc s)) = int (active_count (sv_inst s))" by blast+
qed

lemma server_reach_be_inv:
  "server_reach thr ok server_start s \<Longrightarrow> be \<in> set (sv_inst s) \<Longrightarrow> be_inv be"
  using server_reach_inv(1) [of thr ok s] be_inv_zero by (auto simp: sv_inv_def server_start_def)

end
