(* ===== verification/Backend_Sample.thy ===== *)
theory Backend_Sample
  imports Backend_Server
begin

text \<open>
  A complete handshake of a hypervisor with the backend process: parameters, memory table,
  contexts and notification descriptors of both queues, then both directions enabled.  It
  shows that the states the properties are about are reached.
\<close>

section \<open>The requests\<close>

definition sample_env :: be_env where
  "sample_env = \<lparr>client_threshold_activation = 1, mark_mode = 0, env_mmap = (\<lambda>_. Some 0x7000000), env_open = 40,
     env_create = 0, env_join = 0, env_send = True\<rparr>"

definition sample_conn :: conn_env where
  "sample_conn = \<lparr>scheduler_mode = False, conn_fd = 9, conn_eventfd = True\<rparr>"

definition sample_payload :: proxy_payload where
  "sample_payload = \<lparr>pl_u64 = 0,
     pl_params = \<lparr>num_rx_queues = 1, num_tx_queues = 1, p_num_rx_bufs = 16, p_num_tx_bufs = 16\<rparr>,
     pl_map = \<lparr>pm_num_regions = 1, pm_regions =
       [\<lparr>guest_physical_addr = 0x10000, pr_size = 0x10000, hypervisor_virtual_addr = 0, pr_mmap_offset = 0\<rparr>]\<rparr>,
     pl_ctx_queue_idx = 0, pl_ctx_gpa = 0x10000, pl_notify_queue_idx = 0\<rparr>"

definition sample_msg :: "u32 \<Rightarrow> int list \<Rightarrow> proxy_payload \<Rightarrow> proxy_in" where
  "sample_msg t fds p = \<lparr>in_n = 12, in_fds = fds,
     in_hdr = \<lparr>reqtype = t, hdr_flags = PROXY_VERSION, hdr_size = of_int (case payload_size t of None \<Rightarrow> 0 | Some n \<Rightarrow> n)\<rparr>,
     in_read = (case payload_size t of None \<Rightarrow> 0 | Some n \<Rightarrow> n), in_payload = p\<rparr>"

definition sample_config :: "proxy_in list" where
  "sample_config =
    [sample_msg REQ_SET_PARAMETERS [] sample_payload,
     sample_msg REQ_SET_MEM_TABLE [20] sample_payload,
     sample_msg REQ_SET_QUEUE_CTX [] sample_payload,
     sample_msg REQ_SET_QUEUE_CTX [] (sample_payload\<lparr>pl_ctx_queue_idx := 1, pl_ctx_gpa := 0x18000\<rparr>),
     sample_msg REQ_SET_QUEUE_KICK [21] sample_payload,
     sample_msg REQ_SET_QUEUE_KICK [22] (sample_payload\<lparr>pl_notify_queue_idx := 1\<rparr>),
     sample_msg REQ_SET_QUEUE_IRQ [23] sample_payload,
     sample_msg REQ_SET_QUEUE_IRQ [24] (sample_payload\<lparr>pl_notify_queue_idx := 1\<rparr>)]"

definition sample_enable :: "proxy_in list" where
  "sample_enable = [sample_msg REQ_RX_ENABLE [] sample_payload, sample_msg REQ_TX_ENABLE [] sample_payload]"

definition sample_start :: "proxy_in list" where
  "sample_start = sample_config @ sample_enable"

definition sample_stop :: "proxy_in list" where
  "sample_stop = [sample_msg REQ_RX_DISABLE [] sample_payload, sample_msg REQ_TX_DISABLE [] sample_payload]"

section \<open>The run\<close>

fun serve_messages :: "be_env \<Rightarrow> int \<Rightarrow> proxy_in list \<Rightarrow> server \<Rightarrow> server option" where
  "serve_messages env sd [] s = Some s"
| "serve_messages env sd (m # ms) s =
    (if sd \<in> sv_socks s \<and> list_all (\<lambda>f. 0 \<le> f) (in_fds m)
     then case serve_message env m sd s of None \<Rightarrow> None | Some s' \<Rightarrow> serve_messages env sd ms s'
     else None)"

lemma serve_messages_reach:
  "serve_messages env sd ms s = Some s' \<Longrightarrow> threshold_ok thr env \<Longrightarrow> ok env \<Longrightarrow> server_reach thr ok s0 s \<Longrightarrow>
    server_reach thr ok s0 s'"
proof (induction ms arbitrary: s)
  case (Cons m ms)
  from Cons.prems(1) obtain s1 where s1: "sd \<in> sv_socks s" "list_all (\<lambda>f. 0 \<le> f) (in_fds m)" "serve_message env m sd s = Some s1"
      "serve_messages env sd ms s1 = Some s'" by (auto split: if_splits option.splits)
  have "server_step thr ok s s1" by (rule server_step.step_message [of thr env ok]) (use Cons.prems(2,3) s1(1-3) in simp_all)
  then show ?case by (intro Cons.IH [OF s1(4) Cons.prems(2,3)] server_reach.reach_step [OF Cons.prems(4)])
qed simp

text \<open>The same run as seen by one backend.\<close>

fun be_run :: "be_env \<Rightarrow> proxy_in list \<Rightarrow> BpfhvBackend \<times> BpfhvBackendBatch \<Rightarrow> (BpfhvBackend \<times> BpfhvBackendBatch) option" where
  "be_run env [] s = Some s"
| "be_run env (m # ms) (be, bc) =
    (case process_guest_message env m be bc of (ret, c) \<Rightarrow>
       if ret < 0 \<or> \<not> list_all (\<lambda>f. 0 \<le> f) (in_fds m) then None else be_run env ms (ctl_be c, ctl_bc c))"

lemma be_run_serve:
  assumes "be_run env ms (be, bc) = Some (be', bc')" "sv_inst s ! i = be" "sv_bc s = bc" "i < length (sv_inst s)"
    "get_backend_from_sd sd s = Some i" "sd \<in> sv_socks s"
  shows "serve_messages env sd ms s = Some (s\<lparr>sv_inst := (sv_inst s)[i := be'], sv_bc := bc'\<rparr>)"
  using assms
proof (induction ms arbitrary: be bc s)
  case Nil
  then show ?case by auto
next
  case (Cons m ms)
  obtain ret c where c: "process_guest_message env m be bc = (ret, c)" by fastforce
  let ?s = "s\<lparr>sv_inst := (sv_inst s)[i := ctl_be c], sv_bc := ctl_bc c\<rparr>"
  have r: "\<not> ret < 0" "list_all (\<lambda>f. 0 \<le> f) (in_fds m)" "be_run env ms (ctl_be c, ctl_bc c) = Some (be', bc')"
    using Cons.prems(1) c by (auto split: if_splits)
  have "get_backend_from_sd sd ?s = Some i" using Cons.prems(5) by (auto simp: get_backend_from_sd_def split: if_splits)
  then have "serve_messages env sd ms ?s = Some (?s\<lparr>sv_inst := (sv_inst ?s)[i := be'], sv_bc := bc'\<rparr>)"
    using Cons.prems(4,6) by (intro Cons.IH [OF r(3)]) simp_all
  moreover have "serve_message env m sd s = Some ?s"
    using Cons.prems(2,3,5) c r(1) by (simp add: serve_message_def Let_def)
  ultimately show ?case using Cons.prems(6) r(2) by simp
qed

definition sample_be0 :: "BpfhvBackend \<times> BpfhvBackendBatch" where
  "sample_be0 = (snd (setup_backend True 9 True ''sring'' 0 zero_backend),
     \<lparr>th_running = False, bc_stopflag = 0, allocated_instances = 1, used_instances = 0\<rparr>)"

definition sample_conn_state :: server where
  "sample_conn_state = serve_accept sample_env sample_conn 5 server_start"

lemma sample_conn_state_eq:
  "sample_conn_state = \<lparr>sv_bc = snd sample_be0, sv_inst = (replicate BPFHV_MAX_INSTANCES zero_backend)[0 := fst sample_be0],
     sv_sd = (\<lambda>_. None)(5 := Some 0), sv_socks = {5}, sv_closed = []\<rparr>"
  by (simp add: sample_conn_state_def serve_accept_def assign_backend_def server_start_def sample_env_def sample_conn_def
      sample_be0_def set_backend_from_sd_def BPFHV_MAX_SOCKET_DESCR_def BPFHV_MAX_INSTANCES_def Let_def)

definition sample_run :: "proxy_in list \<Rightarrow> server" where
  "sample_run ms = (case serve_messages sample_env 5 ms sample_conn_state of Some s \<Rightarrow> s | None \<Rightarrow> sample_conn_state)"

lemma sample_run_be:
  assumes "be_run sample_env ms sample_be0 = Some (be, bc)"
  shows "sv_inst (sample_run ms) ! 0 = be" "sv_bc (sample_run ms) = bc" "length (sv_inst (sample_run ms)) = 128"
    "get_backend_from_sd 5 (sample_run ms) = Some 0" "5 \<in> sv_socks (sample_run ms)"
proof -
  have "serve_messages sample_env 5 ms sample_conn_state =
      Some (sample_conn_state\<lparr>sv_inst := (sv_inst sample_conn_state)[0 := be], sv_bc := bc\<rparr>)"
    by (rule be_run_serve [where be = "fst sample_be0" and bc = "snd sample_be0"]) (use assms in
      \<open>simp_all add: sample_conn_state_eq get_backend_from_sd_def BPFHV_MAX_SOCKET_DESCR_def BPFHV_MAX_INSTANCES_def\<close>)
  then have r: "sample_run ms = sample_conn_state\<lparr>sv_inst := (sv_inst sample_conn_state)[0 := be], sv_bc := bc\<rparr>"
    by (simp add: sample_run_def)
  show "sv_inst (sample_run ms) ! 0 = be" "sv_bc (sample_run ms) = bc" "length (sv_inst (sample_run ms)) = 128"
    "get_backend_from_sd 5 (sample_run ms) = Some 0" "5 \<in> sv_socks (sample_run ms)"
    unfolding r by (simp_all add: sample_conn_state_eq get_backend_from_sd_def BPFHV_MAX_SOCKET_DESCR_def BPFHV_MAX_INSTANCES_def)
qed

lemma sample_run_reach: "ok sample_env \<Longrightarrow> server_reach 1 ok server_start (sample_run ms)"
proof -
  assume ok: "ok sample_env"
  have t: "threshold_ok 1 sample_env" by (simp add: threshold_ok_def sample_env_def BPFHV_MAX_INSTANCES_def)
  have "server_step 1 ok server_start sample_conn_state" unfolding sample_conn_state_def
    by (rule server_step.step_accept) (use ok t in \<open>simp_all add: server_start_def\<close>)
  then have a: "server_reach 1 ok server_start sample_conn_state"
    by (rule server_reach.reach_step [OF server_reach.reach_start])
  then show ?thesis using serve_messages_reach [OF _ t ok a] by (simp add: sample_run_def split: option.splits)
qed

definition sample_state :: "proxy_in list \<Rightarrow> BpfhvBackend \<times> BpfhvBackendBatch" where
  "sample_state ms = the (be_run sample_env ms sample_be0)"

lemma sample_run_state:
  assumes "be_run sample_env ms sample_be0 = Some r"
  shows "sv_inst (sample_run ms) ! 0 = fst (sample_state ms)" "sv_bc (sample_run ms) = snd (sample_state ms)"
    "length (sv_inst (sample_run ms)) = 128" "get_backend_from_sd 5 (sample_run ms) = Some 0" "5 \<in> sv_socks (sample_run ms)"
  using assms sample_run_be [of ms "fst (sample_state ms)" "snd (sample_state ms)"]
  by (simp_all add: sample_state_def)

text \<open>What each request of the handshake does to a backend.\<close>

lemmas sample_recv = recv_error_def sample_msg_def payload_size_def req_defs PROXY_F_VERSION_MASK_def PROXY_VERSION_def
  BPFHV_PROXY_MAX_REGIONS_def not_while_running_def start_request_def process_guest_message_def handle_request_def sample_env_def

lemma two_le_word [simp]: "\<not> (2::u32) \<le> 1" "\<not> (2::u32) \<le> 0"
  by (simp_all add: word_le_nat_alt)

lemma run_params:
  "\<not> running be \<Longrightarrow> be_run sample_env (sample_msg REQ_SET_PARAMETERS [] sample_payload # ms) (be, bc) =
    be_run sample_env ms (be\<lparr>num_queue_pairs := 1, be_num_rx_bufs := 16, be_num_tx_bufs := 16, num_queues := 2\<rparr>, bc)"
  by (simp add: sample_recv be_set_parameters_def num_bufs_valid_def sample_payload_def Let_def del: be_run.simps(1))

definition sample_regions :: "BpfhvBackendMemoryRegion list" where
  "sample_regions = (replicate BPFHV_PROXY_MAX_REGIONS zero_region)[0 := \<lparr>gpa_start = 0x10000, gpa_end = 0x20000,
     region_size = 0x10000, hv_vaddr = 0, mmap_offset = 0, mmap_addr = 0x7000000, va_start = 0x7000000\<rparr>]"

lemma run_table:
  "be_run sample_env (sample_msg REQ_SET_MEM_TABLE [20] sample_payload # ms) (be, bc) =
    be_run sample_env ms (be\<lparr>regions := sample_regions, num_regions := 1\<rparr>, bc)"
  by (simp add: sample_recv be_set_mem_table_def sample_payload_def new_region_def sample_regions_def Let_def)

lemma run_ctx:
  assumes "regions be = sample_regions" "num_queue_pairs be = 1" "num_queues be = 2" "be_num_rx_bufs be = 16" "be_num_tx_bufs be = 16"
    "be_ops be = sring_ops" "\<not> running be" "p = sample_payload\<lparr>pl_ctx_queue_idx := i, pl_ctx_gpa := g\<rparr>" "(i, g) = (0, 0x10000) \<or> (i, g) = (1, 0x18000)"
  shows "be_run sample_env (sample_msg REQ_SET_QUEUE_CTX [] p # ms) (be, bc) = be_run sample_env ms (set_ctx (unat i) (g + 0x6FF0000) be, bc)"
proof -
  have t: "translate_addr be g 2992 = (g + 0x6FF0000, be)"
    using assms(1,9) by (auto simp: translate_addr_def sample_regions_def region_match_def BPFHV_PROXY_MAX_REGIONS_def Let_def)
  show ?thesis using assms
    by (auto simp: sample_recv be_set_queue_ctx_def sring_ops_def sring_rx_ctx_size_def sring_tx_ctx_size_def
      sizeof_bpfhv_context_def sizeof_sring_context_def sizeof_sring_desc_def t Let_def)
qed

definition set_fd :: "bool \<Rightarrow> nat \<Rightarrow> int \<Rightarrow> BpfhvBackend \<Rightarrow> BpfhvBackend" where
  "set_fd k i fd be = be\<lparr>be_q := (be_q be)[i := (if k then (be_q be ! i)\<lparr>kickfd := fd\<rparr> else (be_q be ! i)\<lparr>irqfd := fd\<rparr>)]\<rparr>"

lemma run_notify:
  assumes "num_queues be = 2" "\<not> running be" "\<not> 2 \<le> i" "0 \<le> fd" "t = (if k then REQ_SET_QUEUE_KICK else REQ_SET_QUEUE_IRQ)"
    "p = sample_payload\<lparr>pl_notify_queue_idx := i\<rparr>"
  shows "be_run sample_env (sample_msg t [fd] p # ms) (be, bc) = be_run sample_env ms (set_fd k (unat i) fd be, bc)"
  using assms by (cases k) (simp_all add: sample_recv be_set_queue_notify_def set_fd_def Let_def)

lemma run_enable:
  assumes "backend_ready be" "t = (if r then REQ_RX_ENABLE else REQ_TX_ENABLE)"
  shows "running be \<Longrightarrow> be_run sample_env (sample_msg t [] sample_payload # ms) (be, bc) = be_run sample_env ms
      (be\<lparr>be_status := be_status be OR (if r then BPFHV_STATUS_RX_ENABLED else BPFHV_STATUS_TX_ENABLED)\<rparr>, bc)"
    and "\<not> running be \<Longrightarrow> used_instances bc = 0 \<Longrightarrow> be_run sample_env (sample_msg t [] sample_payload # ms) (be, bc) =
      be_run sample_env ms (be\<lparr>be_status := be_status be OR (if r then BPFHV_STATUS_RX_ENABLED else BPFHV_STATUS_TX_ENABLED),
        be_stopflag := 0, running := True\<rparr>, bc\<lparr>used_instances := 1, th_running := True\<rparr>)"
  using assms by (cases r; simp add: sample_recv be_enable_def activate_backend_def upd_be_def Let_def)+

lemma run_disable:
  assumes "running be" "th_running bc"
  shows "be_status be = 12 \<Longrightarrow> be_run sample_env (sample_msg REQ_RX_DISABLE [] sample_payload # ms) (be, bc) =
      be_run sample_env ms (be\<lparr>be_status := 8\<rparr>, bc)"
    and "be_status be = 8 \<Longrightarrow> be_run sample_env (sample_msg REQ_TX_DISABLE [] sample_payload # ms) (be, bc) =
      be_run sample_env ms (be\<lparr>be_status := 0, running := False\<rparr>,
        bc\<lparr>bc_stopflag := BPFHV_STOPFD_HALT, th_running := False, used_instances := used_instances bc - 1\<rparr>)"
  using assms by (simp_all add: sample_recv be_disable_def backend_stop_def upd_be_def BPFHV_STATUS_RX_ENABLED_def
      BPFHV_STATUS_TX_ENABLED_def Let_def)

section \<open>The handshake\<close>

text \<open>The backend after the configuration, and after the start.\<close>

definition conf_of :: "BpfhvBackend \<Rightarrow> BpfhvBackend" where
  "conf_of be = set_fd False 1 24 (set_fd False 0 23 (set_fd True 1 22 (set_fd True 0 21 (set_ctx 1 0x7008000 (set_ctx 0 0x7000000
     (be\<lparr>num_queue_pairs := 1, be_num_rx_bufs := 16, be_num_tx_bufs := 16, num_queues := 2, regions := sample_regions, num_regions := 1\<rparr>))))))"

definition on_of :: "BpfhvBackend \<Rightarrow> BpfhvBackend" where
  "on_of be = (conf_of be)\<lparr>be_stopflag := 0, running := True, be_status := 12\<rparr>"

lemmas conf_defs = conf_of_def set_fd_def set_ctx_def

lemma conf_of_simps [simp]:
  "running (conf_of be) = running be" "be_status (conf_of be) = be_status be" "be_ops (conf_of be) = be_ops be"
  "upgrade_fd (conf_of be) = upgrade_fd be" "length (be_q (conf_of be)) = length (be_q be)"
  by (simp_all add: conf_defs)

lemma conf_of_q:
  assumes "be_q be = q0 # q1 # qs"
  shows "be_q (conf_of be) = \<lparr>bq_ctx = 0x7000000, kickfd = 21, irqfd = 23\<rparr> # \<lparr>bq_ctx = 0x7008000, kickfd = 22, irqfd = 24\<rparr> # qs"
  using assms by (simp add: conf_defs)

lemma sample_payload_0:
  "sample_payload\<lparr>pl_ctx_queue_idx := 0, pl_ctx_gpa := 0x10000\<rparr> = sample_payload" "sample_payload\<lparr>pl_notify_queue_idx := 0\<rparr> = sample_payload"
  by (simp_all add: sample_payload_def)

lemma run_config:
  assumes "\<not> running be" "be_ops be = sring_ops"
  shows "be_run sample_env (sample_config @ ms) (be, bc) = be_run sample_env ms (conf_of be, bc)"
  using assms
  by (simp add: sample_config_def run_params run_table run_ctx [where i = 0 and g = "0x10000"] run_ctx [where i = 1 and g = "0x18000"]
    sample_payload_0 run_notify [where k = True and i = 0] run_notify [where k = True and i = 1] run_notify [where k = False and i = 0]
    run_notify [where k = False and i = 1] conf_of_def set_fd_def set_ctx_def del: be_run.simps)

lemma conf_of_ready:
  assumes "be_q be = q0 # q1 # qs"
  shows "backend_ready (conf_of be)"
proof -
  have "num_queues (conf_of be) = 2" "num_queue_pairs (conf_of be) = 1" "be_num_rx_bufs (conf_of be) = 16"
    "be_num_tx_bufs (conf_of be) = 16" "num_regions (conf_of be) = 1" by (simp_all add: conf_defs)
  moreover have "[0..<2] = [0, 1::nat]" by (simp add: upt_rec)
  ultimately show ?thesis
    by (simp add: backend_ready_def be_queue_ready_def conf_of_q [OF assms] num_bufs_valid_def del: upt_rec_numeral)
qed

lemma backend_ready_start: "backend_ready (be\<lparr>be_status := s, be_stopflag := f, running := r\<rparr>) = backend_ready be"
  by (simp add: backend_ready_def)

lemma run_start:
  assumes "\<not> running be" "be_ops be = sring_ops" "be_q be = q0 # q1 # qs" "be_status be = 0" "used_instances bc = 0"
  shows "be_run sample_env (sample_start @ ms) (be, bc) = be_run sample_env ms (on_of be, bc\<lparr>used_instances := 1, th_running := True\<rparr>)"
proof -
  let ?be = "(conf_of be)\<lparr>be_status := 4, be_stopflag := 0, running := True\<rparr>" and ?bc = "bc\<lparr>used_instances := 1, th_running := True\<rparr>"
  have r: "backend_ready (conf_of be)" by (rule conf_of_ready [OF assms(3)])
  then have r': "backend_ready ?be" by (simp add: backend_ready_start)
  have "be_run sample_env (sample_start @ ms) (be, bc) = be_run sample_env (sample_enable @ ms) (conf_of be, bc)"
    unfolding sample_start_def append.assoc by (rule run_config [OF assms(1,2)])
  also have "\<dots> = be_run sample_env (sample_msg REQ_TX_ENABLE [] sample_payload # ms) (?be, ?bc)"
    unfolding sample_enable_def append.simps using run_enable(2) [OF r, of REQ_RX_ENABLE True] assms(1,4,5)
    by (simp add: BPFHV_STATUS_RX_ENABLED_def del: be_run.simps)
  also have "\<dots> = be_run sample_env ms (on_of be, ?bc)"
    using run_enable(1) [OF r', of REQ_TX_ENABLE False] by (simp add: on_of_def BPFHV_STATUS_TX_ENABLED_def del: be_run.simps)
  finally show ?thesis .
qed

definition off_of :: "BpfhvBackend \<Rightarrow> BpfhvBackend" where
  "off_of be = (on_of be)\<lparr>be_status := 0, running := False\<rparr>"

lemma run_stop:
  assumes "th_running bc"
  shows "be_run sample_env (sample_stop @ ms) (on_of be, bc) = be_run sample_env ms (off_of be,
    bc\<lparr>bc_stopflag := BPFHV_STOPFD_HALT, th_running := False, used_instances := used_instances bc - 1\<rparr>)"
  using assms run_disable [of _ bc]
  by (simp add: sample_stop_def on_of_def off_of_def del: be_run.simps)

lemma sample_be0_ready:
  "\<not> running (fst sample_be0)" "be_ops (fst sample_be0) = sring_ops" "be_status (fst sample_be0) = 0" "upgrade_fd (fst sample_be0) = -1"
  "be_q (fst sample_be0) = replicate 16 \<lparr>bq_ctx = 0, kickfd = -1, irqfd = -1\<rparr>"
  by (simp_all add: sample_be0_def setup_backend_def zero_backend_def dev_ops_def BPFHV_MAX_QUEUES_def map_replicate Let_def)

lemma sample_be0_q:
  "be_q (fst sample_be0) = \<lparr>bq_ctx = 0, kickfd = -1, irqfd = -1\<rparr> # \<lparr>bq_ctx = 0, kickfd = -1, irqfd = -1\<rparr> #
     replicate 14 \<lparr>bq_ctx = 0, kickfd = -1, irqfd = -1\<rparr>"
  by (simp add: sample_be0_ready numeral_eq_Suc)

lemma sample_runs:
  "be_run sample_env sample_config sample_be0 = Some (conf_of (fst sample_be0), snd sample_be0)"
  "be_run sample_env sample_start sample_be0 = Some (on_of (fst sample_be0), (snd sample_be0)\<lparr>used_instances := 1, th_running := True\<rparr>)"
  "be_run sample_env (sample_start @ sample_stop) sample_be0 = Some (off_of (fst sample_be0),
     \<lparr>th_running = False, bc_stopflag = BPFHV_STOPFD_HALT, allocated_instances = 1, used_instances = 0\<rparr>)"
proof -
  have u: "used_instances (snd sample_be0) = 0" by (simp add: sample_be0_def)
  note s = run_start [OF sample_be0_ready(1,2) sample_be0_q sample_be0_ready(3) u]
  show "be_run sample_env sample_config sample_be0 = Some (conf_of (fst sample_be0), snd sample_be0)"
    using run_config [OF sample_be0_ready(1,2), of "[]" "snd sample_be0"] by simp
  show "be_run sample_env sample_start sample_be0 = Some (on_of (fst sample_be0), (snd sample_be0)\<lparr>used_instances := 1, th_running := True\<rparr>)"
    using s [of "[]"] by simp
  show "be_run sample_env (sample_start @ sample_stop) sample_be0 = Some (off_of (fst sample_be0),
      \<lparr>th_running = False, bc_stopflag = BPFHV_STOPFD_HALT, allocated_instances = 1, used_instances = 0\<rparr>)"
    using s [of sample_stop] run_stop [of "(snd sample_be0)\<lparr>used_instances := 1, th_running := True\<rparr>" "[]" "fst sample_be0"]
    by (simp add: sample_be0_def)
qed

lemma sample_states:
  "sample_state sample_config = (conf_of (fst sample_be0), snd sample_be0)"
  "sample_state sample_start = (on_of (fst sample_be0), (snd sample_be0)\<lparr>used_instances := 1, th_running := True\<rparr>)"
  "sample_state (sample_start @ sample_stop) = (off_of (fst sample_be0),
     \<lparr>th_running = False, bc_stopflag = BPFHV_STOPFD_HALT, allocated_instances = 1, used_instances = 0\<rparr>)"
  by (simp_all add: sample_state_def sample_runs)

lemma sample_start_running: "running (fst (sample_state sample_start))" "used_instances (snd (sample_state sample_start)) = 1"
  by (simp_all add: sample_states on_of_def)

lemma sample_restarted:
  "be_run sample_env sample_start (sample_state (sample_start @ sample_stop)) = Some (on_of (off_of (fst sample_be0)),
     \<lparr>th_running = True, bc_stopflag = BPFHV_STOPFD_HALT, allocated_instances = 1, used_instances = 1\<rparr>)"
proof -
  have q: "be_q (off_of (fst sample_be0)) = be_q (conf_of (fst sample_be0))" by (simp add: off_of_def on_of_def)
  show ?thesis
    using run_start [of "off_of (fst sample_be0)", OF _ _ q [unfolded conf_of_q [OF sample_be0_q]], of "snd (sample_state (sample_start @ sample_stop))" "[]"]
    by (simp add: sample_states off_of_def on_of_def sample_be0_ready)
qed

lemma sample_config_inv: "be_inv (fst (sample_state sample_config))"
  by (rule server_reach_be_inv [OF sample_run_reach [of "\<lambda>_. True" sample_config]])
    (use nth_mem [of 0 "sv_inst (sample_run sample_config)"] sample_run_state [OF sample_runs(1)] in simp_all)

end
