(* ===== verification/Backend_Fds.thy ===== *)
theory Backend_Fds
  imports Backend_Sample
begin

text \<open>
  Accounting of file descriptors: a request that is answered neither leaks a descriptor nor
  closes one twice.
\<close>

section \<open>Descriptors of a request\<close>

definition valid_fds :: "int list \<Rightarrow> int multiset" where
  "valid_fds xs = mset (filter (\<lambda>f. 0 \<le> f) xs)"

definition installed_fds :: "BpfhvBackend \<Rightarrow> int multiset" where
  "installed_fds be = valid_fds (map kickfd (be_q be)) + valid_fds (map irqfd (be_q be)) + valid_fds [upgrade_fd be]"

fun eff_closed :: "be_effect list \<Rightarrow> int multiset" where
  "eff_closed [] = {#}"
| "eff_closed (Eff_close f # es) = add_mset f (eff_closed es)"
| "eff_closed (_ # es) = eff_closed es"

lemma eff_closed_append [simp]: "eff_closed (xs @ ys) = eff_closed xs + eff_closed ys"
  by (induction xs rule: eff_closed.induct) simp_all

lemma eff_closed_map [simp]: "eff_closed (map Eff_close fs) = mset fs" "eff_closed (map (\<lambda>x. Eff_munmap (f x) (g x)) ys) = {#}"
  by (induction fs, simp_all) (induction ys, simp_all)

definition all_fds :: "ctl \<Rightarrow> int multiset" where
  "all_fds c = valid_fds (take (ctl_num_fds c) (ctl_fds c)) + valid_fds (ctl_outfds c) + installed_fds (ctl_be c) + eff_closed (ctl_effs c)"

lemma valid_fds_upd:
  assumes "i < length xs"
  shows "valid_fds (xs[i := v]) + valid_fds [xs ! i] = valid_fds xs + valid_fds [v]"
proof -
  have "valid_fds ys = valid_fds (take i ys) + valid_fds [ys ! i] + valid_fds (drop (Suc i) ys)" if "i < length ys" for ys
    using id_take_nth_drop [OF that] unfolding valid_fds_def by (metis (no_types, lifting) append_Cons append_Nil filter_append mset_append union_assoc)
  from this [of xs] this [of "xs[i := v]"] assms show ?thesis by (simp add: valid_fds_def)
qed

section \<open>Requests\<close>

lemma all_fds_helpers [simp]:
  "all_fds (ctl_error c) = all_fds c" "all_fds (ctl_eff es c) = all_fds c + eff_closed es"
  by (simp_all add: all_fds_def ctl_error_def ctl_eff_def)

lemma all_fds_be: "installed_fds be = installed_fds (ctl_be c) \<Longrightarrow> all_fds (c\<lparr>ctl_be := be\<rparr>) = all_fds c"
  by (simp add: all_fds_def)

lemma all_fds_other [simp]: "all_fds (c\<lparr>ctl_bc := b\<rparr>) = all_fds c" "all_fds (c\<lparr>resp_size := n, resp_payload := r\<rparr>) = all_fds c"
  by (simp_all add: all_fds_def)

lemma installed_fds_other [simp]:
  "installed_fds (be\<lparr>regions := rs\<rparr>) = installed_fds be" "installed_fds (be\<lparr>regions := rs, num_regions := n\<rparr>) = installed_fds be"
  "installed_fds (be\<lparr>be_status := s\<rparr>) = installed_fds be" "installed_fds (be\<lparr>be_stopflag := s\<rparr>) = installed_fds be"
  "installed_fds (be\<lparr>running := r\<rparr>) = installed_fds be"
  by (simp_all add: installed_fds_def)

lemma all_fds_upd_be: "installed_fds (f (ctl_be c)) = installed_fds (ctl_be c) \<Longrightarrow> all_fds (upd_be f c) = all_fds c"
  by (simp add: upd_be_def all_fds_be)

lemma all_fds_features [simp]: "all_fds (be_set_features u c) = all_fds c" "all_fds (be_get_features c) = all_fds c"
  by (simp_all add: be_set_features_def be_get_features_def Let_def all_fds_def installed_fds_def)

lemma all_fds_parameters [simp]: "all_fds (be_set_parameters p c) = all_fds c"
  by (simp add: be_set_parameters_def Let_def) (simp add: all_fds_def installed_fds_def)

lemma all_fds_mem_table [simp]: "all_fds (snd (be_set_mem_table env mm c)) = all_fds c"
  by (simp add: be_set_mem_table_def Let_def all_fds_be split: prod.split)

lemma installed_fds_set_ctx [simp]: "installed_fds (set_ctx i ctx be) = installed_fds be"
proof -
  have "map f ((be_q be)[i := (be_q be ! i)\<lparr>bq_ctx := ctx\<rparr>]) = map f (be_q be)" if "\<And>q. f (q\<lparr>bq_ctx := ctx\<rparr>) = f q" for f :: "be_queue \<Rightarrow> int"
    using that by (simp add: map_update list_update_same_conv) (metis list_update_beyond list_update_id map_update not_le nth_map)
  then show ?thesis by (simp add: installed_fds_def set_ctx_def)
qed

lemma all_fds_queue_ctx [simp]: "all_fds (be_set_queue_ctx env qi gpa c) = all_fds c"
proof -
  have t: "installed_fds be = installed_fds (ctl_be c)" if "translate_addr (ctl_be c) gpa len = (x, be)" for len x be
    by (rule translate_addr_be [of "ctl_be c" gpa len]) (use that in simp)
  show ?thesis
    by (auto simp: be_set_queue_ctx_def Let_def all_fds_be dest!: t split: prod.splits if_splits)
qed

lemma all_fds_notify [simp]:
  assumes "be_inv (ctl_be c)" "ctl_num_fds c \<le> length (ctl_fds c)"
  shows "all_fds (be_set_queue_notify k qi c) = all_fds c"
proof (cases "qi \<ge> num_queues (ctl_be c) \<or> ctl_num_fds c > 1")
  case False
  let ?qs = "be_q (ctl_be c)" and ?i = "unat qi"
  define new where "new = (if ctl_num_fds c = 1 then ctl_fds c ! 0 else -1)"
  have q: "unat (num_queues (ctl_be c)) \<le> 2" using assms(1) by (auto simp: be_inv_def be_params_ok_def)
  have i: "?i < length ?qs" using False q assms(1) by (auto simp: be_inv_def BPFHV_MAX_QUEUES_def word_le_nat_alt not_le)
  have f: "valid_fds (take (ctl_num_fds c) (ctl_fds c)) = valid_fds [new]"
    "valid_fds (take (ctl_num_fds c) ((ctl_fds c)[0 := -1])) = {#}"
    using False assms(2) by (cases "ctl_fds c"; cases "ctl_num_fds c"; auto simp: valid_fds_def new_def)+
  have u: "valid_fds ((map g ?qs)[?i := v]) + valid_fds [g (?qs ! ?i)] = valid_fds (map g ?qs) + valid_fds [v]" for g v
    using valid_fds_upd [of ?i "map g ?qs" v] i by simp
  have o1: "eff_closed (if old \<ge> 0 then [Eff_close old] else []) = valid_fds [old]" for old by (simp add: valid_fds_def)
  have m: "(map g ?qs)[?i := g (?qs ! ?i)] = map g ?qs" for g using i by (simp add: list_update_same_conv)
  have k: "be_set_queue_notify True qi c = ctl_eff (if kickfd (?qs ! ?i) \<ge> 0 then [Eff_close (kickfd (?qs ! ?i))] else [])
      (c\<lparr>ctl_be := (ctl_be c)\<lparr>be_q := ?qs[?i := (?qs ! ?i)\<lparr>kickfd := new\<rparr>]\<rparr>, ctl_fds := (ctl_fds c)[0 := -1]\<rparr>)"
    "be_set_queue_notify False qi c = ctl_eff (if irqfd (?qs ! ?i) \<ge> 0 then [Eff_close (irqfd (?qs ! ?i))] else [])
      (c\<lparr>ctl_be := (ctl_be c)\<lparr>be_q := ?qs[?i := (?qs ! ?i)\<lparr>irqfd := new\<rparr>]\<rparr>, ctl_fds := (ctl_fds c)[0 := -1]\<rparr>)"
    using False by (simp_all add: be_set_queue_notify_def Let_def new_def)
  have "all_fds (be_set_queue_notify True qi c) = all_fds c"
    unfolding k all_fds_helpers o1 using f u [of kickfd new] by (simp add: all_fds_def installed_fds_def m map_update ac_simps)
  moreover have "all_fds (be_set_queue_notify False qi c) = all_fds c"
    unfolding k all_fds_helpers o1 using f u [of irqfd new] by (simp add: all_fds_def installed_fds_def m map_update ac_simps)
  ultimately show ?thesis by (cases k) simp_all
next
  case True
  then have "be_set_queue_notify k qi c = ctl_error c"
    unfolding be_set_queue_notify_def Let_def by (cases "num_queues (ctl_be c) \<le> qi") simp_all
  then show ?thesis by simp
qed

lemma all_fds_upgrade [simp]:
  assumes "ctl_num_fds c \<le> length (ctl_fds c)"
  shows "all_fds (be_set_upgrade c) = all_fds c"
proof (cases "ctl_num_fds c = 1")
  case True
  have "valid_fds (take 1 (ctl_fds c)) = valid_fds [ctl_fds c ! 0]" "valid_fds (take 1 ((ctl_fds c)[0 := -1])) = {#}"
    using True assms by (cases "ctl_fds c"; simp add: valid_fds_def)+
  then show ?thesis using True by (simp add: be_set_upgrade_def Let_def all_fds_def installed_fds_def ctl_eff_def valid_fds_def)
qed (simp add: be_set_upgrade_def Let_def)

lemma all_fds_run [simp]:
  "all_fds (be_enable env r c) = all_fds c" "all_fds (be_disable env r c) = all_fds c"
proof -
  show "all_fds (be_enable env r c) = all_fds c" by (simp add: be_enable_def Let_def all_fds_upd_be split: prod.split)
  have s: "installed_fds be' = installed_fds be" if "backend_stop env be bc = (n, be', bc')" for be be' bc bc' n
    using that by (simp add: backend_stop_def Let_def split: if_splits) auto
  have u: "all_fds (d\<lparr>ctl_be := be', ctl_bc := bc'\<rparr>) = all_fds d"
    if "backend_stop env (ctl_be d) (ctl_bc d) = (n, be', bc')" for d be' bc' n
    using s [OF that] by (simp add: all_fds_def)
  define d where "d = upd_be (\<lambda>be. be\<lparr>be_status := be_status be AND
      NOT (if r then BPFHV_STATUS_RX_ENABLED else BPFHV_STATUS_TX_ENABLED)\<rparr>) c"
  obtain n be' bc' where b: "backend_stop env (ctl_be d) (ctl_bc d) = (n, be', bc')" by (metis prod_cases3)
  have "all_fds d = all_fds c" unfolding d_def by (rule all_fds_upd_be) simp
  then show "all_fds (be_disable env r c) = all_fds c" using b u [OF b]
    by (simp add: be_disable_def d_def [symmetric] Let_def del: ctl_helper_simps)
qed

text \<open>The descriptor of the program file that a request opens.\<close>

definition opened_fds :: "be_env \<Rightarrow> u32 \<Rightarrow> int multiset" where
  "opened_fds env t = (if t = REQ_GET_PROGRAMS then valid_fds [env_open env] else {#})"

lemma all_fds_programs: "ctl_outfds c = [] \<Longrightarrow> all_fds (be_get_programs env c) = all_fds c + valid_fds [env_open env]"
  by (simp add: be_get_programs_def Let_def all_fds_def ctl_error_def valid_fds_def)

lemma handle_request_fds:
  assumes "be_inv (ctl_be c)" "ctl_num_fds c \<le> length (ctl_fds c)" "ctl_outfds c = []"
  shows "all_fds (snd (handle_request env t p c)) = all_fds c + opened_fds env t"
  using assms by (simp add: handle_request_def opened_fds_def all_fds_programs req_defs)

lemma close_fds_all: "eff_closed (ctl_effs (close_fds c)) + installed_fds (ctl_be c) = all_fds c"
  by (simp add: close_fds_def ctl_eff_def all_fds_def valid_fds_def ac_simps)

lemma start_request_fds:
  assumes "length (in_fds m) \<le> BPFHV_PROXY_MAX_REGIONS" "list_all (\<lambda>f. 0 \<le> f) (in_fds m)"
  shows "all_fds (start_request m be bc) = mset (in_fds m) + installed_fds be"
proof -
  have "filter (\<lambda>f. 0 \<le> f) (in_fds m) = in_fds m" using assms(2) by (simp add: filter_id_conv list_all_iff)
  then show ?thesis by (simp add: start_request_def all_fds_def valid_fds_def)
qed

lemma recv_error_neg: "recv_error m = Some e \<Longrightarrow> e < 0"
  by (auto simp: recv_error_def split: if_splits option.splits)

section \<open>The balance\<close>

text \<open>C15.  No descriptor is leaked and none is closed twice: when a request has been answered, the
  descriptors that were received with it, those installed in the backend before and the
  program file that it opened are exactly those that it closed and those installed after.\<close>

theorem request_fds_balance:
  assumes "process_guest_message env m be bc = (0, c)" "be_inv be" "list_all (\<lambda>f. 0 \<le> f) (in_fds m)"
  shows "mset (in_fds m) + installed_fds be + opened_fds env (reqtype (in_hdr m)) =
    eff_closed (ctl_effs c) + installed_fds (ctl_be c)"
proof -
  let ?t = "reqtype (in_hdr m)" and ?c = "start_request m be bc"
  have e: "recv_error m = None"
    using assms(1) recv_error_neg [of m] by (cases "recv_error m") (auto simp: process_guest_message_def Let_def)
  then have n: "length (in_fds m) \<le> BPFHV_PROXY_MAX_REGIONS" by (auto simp: recv_error_def split: if_splits)
  note s = start_request_fds [OF n assms(3), of be bc]
  have st: "be_inv (ctl_be ?c)" "ctl_num_fds ?c \<le> length (ctl_fds ?c)" "ctl_outfds ?c = []"
    using assms(2) n by (simp_all add: start_request_def)
  show ?thesis
  proof (cases "not_while_running ?t \<and> running be")
    case True
    then have "c = close_fds (ctl_error ?c)" "opened_fds env ?t = {#}"
      using assms(1) e by (auto simp: process_guest_message_def opened_fds_def not_while_running_def req_defs Let_def split: if_splits)
    then show ?thesis using close_fds_all [of "ctl_error ?c"] s by (simp add: ac_simps)
  next
    case False
    obtain r c1 where h: "handle_request env ?t (in_payload m) ?c = (r, c1)" by fastforce
    have "r = None \<and> c = close_fds c1"
    proof (cases r)
      case (Some x)
      then have "x = -1" using h by (auto simp: handle_request_def be_set_mem_table_def Let_def split: if_splits prod.splits)
      then show ?thesis using assms(1) e False h Some by (auto simp: process_guest_message_def Let_def)
    qed (use assms(1) e False h in \<open>auto simp: process_guest_message_def Let_def split: if_splits\<close>)
    then show ?thesis using close_fds_all [of c1] handle_request_fds [OF st, of env ?t "in_payload m"] h s by (simp add: ac_simps)
  qed
qed

text \<open>Witness of C15: a second kick descriptor replaces the first, which is closed.\<close>

lemma request_fds_balance_witness:
  "let be = fst (sample_state sample_config); bc = snd (sample_state sample_config);
       m = sample_msg REQ_SET_QUEUE_KICK [30] sample_payload; c = snd (process_guest_message sample_env m be bc)
   in fst (process_guest_message sample_env m be bc) = 0 \<and> eff_closed (ctl_effs c) = {#21#} \<and>
      mset (in_fds m) + installed_fds be = {#21#} + installed_fds (ctl_be c)"
proof -
  define be where "be = fst (sample_state sample_config)"
  define bc where "bc = snd (sample_state sample_config)"
  define m where "m = sample_msg REQ_SET_QUEUE_KICK [30] sample_payload"
  define c where "c = snd (process_guest_message sample_env m be bc)"
  have be: "num_queues be = 2" "\<not> running be" "kickfd (be_q be ! 0) = 21"
    using sample_be0_ready(1) conf_of_q [OF sample_be0_q] by (simp_all add: be_def sample_states) (simp_all add: conf_defs)
  have r: "process_guest_message sample_env m be bc = (0, c)" "eff_closed (ctl_effs c) = {#21#}" "in_fds m = [30]"
      "opened_fds sample_env (reqtype (in_hdr m)) = {#}"
    using be by (simp_all add: c_def m_def sample_recv be_set_queue_notify_def sample_payload_def close_fds_def ctl_eff_def opened_fds_def Let_def)
  have "be_inv be" unfolding be_def by (rule sample_config_inv)
  moreover have "list_all (\<lambda>f. 0 \<le> f) (in_fds m)" by (simp add: r)
  ultimately have "mset (in_fds m) + installed_fds be + opened_fds sample_env (reqtype (in_hdr m)) =
      eff_closed (ctl_effs c) + installed_fds (ctl_be c)" by (rule request_fds_balance [OF r(1)])
  moreover have "fst (process_guest_message sample_env m be bc) = 0" using r(1) by simp
  ultimately show ?thesis
    using r(2-4) unfolding be_def [symmetric] bc_def [symmetric] m_def [symmetric] Let_def c_def [symmetric] by simp
qed

end
