(* ===== verification/Backend_Props.thy ===== *)
theory Backend_Props
  imports Backend_Fds
begin

text \<open>
  Properties of the control plane over every sequence of connections and requests, and the
  handshake of a well-behaved hypervisor as the witness.
\<close>

section \<open>Running backends\<close>

text \<open>C14.  Whatever requests the hypervisors send, in whatever order, a backend that processes
  packets has one queue pair, buffer numbers that are powers of two between 16 and 8192, a
  context and a kick descriptor for both queues, and selected features that the device has.\<close>

theorem server_running_ready:
  assumes "server_reach thr ok server_start s" "be \<in> set (sv_inst s)" "running be"
  shows "num_queue_pairs be = 1 \<and> num_queues be = 2 \<and> num_bufs_valid (ucast (be_num_rx_bufs be)) \<and>
    num_bufs_valid (ucast (be_num_tx_bufs be)) \<and> features_sel be AND NOT (features_avail be) = 0 \<and>
    (\<forall>i < 2. bq_ctx (be_q be ! i) \<noteq> 0 \<and> 0 \<le> kickfd (be_q be ! i))"
proof -
  have "be_inv be" by (rule server_reach_be_inv [OF assms(1,2)])
  then show ?thesis using assms(3) by (auto simp: be_inv_def be_params_ok_def)
qed

text \<open>Witness of C14: the backend of the sample connection.\<close>

lemma server_running_ready_witness:
  "let be = fst (sample_state sample_start) in running be \<and> num_queues be = 2 \<and>
     num_bufs_valid (ucast (be_num_rx_bufs be)) \<and> (\<forall>i < 2. bq_ctx (be_q be ! i) \<noteq> 0 \<and> 0 \<le> kickfd (be_q be ! i))"
proof -
  note s = sample_run_state [OF sample_runs(2)]
  have "fst (sample_state sample_start) \<in> set (sv_inst (sample_run sample_start))"
    using nth_mem [of 0 "sv_inst (sample_run sample_start)"] s by simp
  from server_running_ready [OF sample_run_reach [of "\<lambda>_. True"] this sample_start_running(1)] sample_start_running(1)
  show ?thesis by (simp add: Let_def)
qed

text \<open>C16.  The number of used instances that decides when the processing thread is started is
  the number of running backends, as long as no thread creation fails.\<close>

theorem server_counts_active:
  assumes "server_reach thr (\<lambda>env. env_create env = 0) server_start s"
  shows "unat (used_instances (sv_bc s)) = card {j. j < length (sv_inst s) \<and> running (sv_inst s ! j)}"
proof -
  have "uint (used_instances (sv_bc s)) = int (active_count (sv_inst s))" by (rule server_reach_inv(2) [OF assms])
  then show ?thesis by (simp add: active_count_def unat_eq_nat_uint)
qed

text \<open>Witness of C16: one backend runs after the sample handshake.\<close>

lemma server_counts_active_witness:
  "used_instances (sv_bc (sample_run sample_start)) = 1 \<and>
   card {j. j < length (sv_inst (sample_run sample_start)) \<and> running (sv_inst (sample_run sample_start) ! j)} = 1"
proof -
  have "used_instances (sv_bc (sample_run sample_start)) = 1"
    using sample_run_state [OF sample_runs(2)] sample_start_running(2) by simp
  moreover have "env_create sample_env = 0" by (simp add: sample_env_def)
  from server_counts_active [OF sample_run_reach [where ok = "\<lambda>env. env_create env = 0", OF this], of sample_start]
  have "unat (used_instances (sv_bc (sample_run sample_start))) =
    card {j. j < length (sv_inst (sample_run sample_start)) \<and> running (sv_inst (sample_run sample_start) ! j)}" .
  ultimately show ?thesis by simp
qed

section \<open>Rejected requests\<close>



section \<open>Stopping\<close>

text \<open>The loop condition of the processing thread (\<open>process_packets_spin_many\<close>).\<close>

definition spin_many_goes_on :: "BpfhvBackendBatch \<Rightarrow> bool" where
  "spin_many_goes_on bc \<longleftrightarrow> bc_stopflag bc = 0"

lemma handle_request_stopflag:
  "bc_stopflag (ctl_bc c) = BPFHV_STOPFD_HALT \<Longrightarrow> bc_stopflag (ctl_bc (snd (handle_request env t p c))) = BPFHV_STOPFD_HALT"
  by (simp add: handle_request_def config_bc be_enable_def activate_backend_def be_disable_def backend_stop_def Let_def
      split: prod.splits)

lemma process_stopflag:
  "bc_stopflag bc = BPFHV_STOPFD_HALT \<Longrightarrow> bc_stopflag (ctl_bc (snd (process_guest_message env m be bc))) = BPFHV_STOPFD_HALT"
  using handle_request_stopflag [of "start_request m be bc" env "reqtype (in_hdr m)" "in_payload m"]
  by (auto simp: process_guest_message_def start_request_def Let_def split: option.splits prod.splits)

lemma serve_message_bc:
  assumes "serve_message env m sd s = Some s'"
  shows "\<exists>be. sv_bc s' = ctl_bc (snd (process_guest_message env m be (sv_bc s)))"
  using assms by (auto simp: serve_message_def set_backend_from_sd_def Let_def split: option.splits prod.splits if_splits
      intro: exI [of _ "sv_inst s ! the (get_backend_from_sd sd s)"])

lemma serve_accept_stopflag: "bc_stopflag (sv_bc (serve_accept env ce sd s)) = bc_stopflag (sv_bc s)"
  by (simp add: serve_accept_def assign_backend_def set_backend_from_sd_def Let_def)



end
