(* ===== verification/Spec2Isabelle.thy ===== *)
theory Spec2Isabelle
  imports Mark Guest_Memory Bpfhv_Types Sring_Contract Sring_Kick Sring_Gso_Contract
    Vring_Ooo Dn_Heap_Props Dn_Hash Sched_Main_Props Backend_Props
begin

text \<open>
  A verification development of bpfhv, a paravirtual network device whose guest-side queue
  operations are eBPF programs supplied by the hypervisor.

  \<^bold>\<open>The program.\<close>  A guest driver (\<open>driver/bpfhv.c\<close>) exchanges packet buffers with a
  hypervisor process (\<open>proxy/backend.c\<close>) through a queue in shared memory.  How a queue is laid
  out is known only to the process and to the eBPF programs it hands to the driver; there are
  three layouts: \<open>sring\<close>, \<open>sring_gso\<close> and \<open>vring_packed\<close>.  The process translates the guest's
  addresses, is configured over a socket (\<open>include/bpfhv-proxy.h\<close>), may classify packets
  (\<open>proxy/mark_fun.h\<close>) and may pass them to a packet scheduler (\<open>sched16\<close>).

  \<^bold>\<open>Shared theories.\<close>
  \<^item> \<open>Prelude\<close>: machine integers, distances of free-running counters, slices of rings.
  \<^item> \<open>Bpfhv_Types\<close>: contexts, buffers, feature and status bits (\<open>include/bpfhv.h\<close>).
  \<^item> \<open>Mark\<close>: the classifier, on the bytes of a packet; a load outside them is \<open>None\<close>, and
    \<open>mark_packet_fun_safe\<close> says that no packet leads to one.
  \<^item> \<open>Guest_Memory\<close>: the region table and \<open>translate_addr\<close> with its move-to-front search;
    equivalence with a search that leaves the table alone, safety, and the wrapping range that
    the check accepts.
  \<^item> \<open>Handoff\<close>: the contract of a queue as a locale: buffers that are published come back
    exactly once and in order over any interleaving of whole operations.

  \<^bold>\<open>Queues.\<close>  Each device has a theory for its eBPF programs, one for the hypervisor side
  and one or more for its contract.
  \<^item> \<open>Ring\<close>, \<open>Sring\<close>, \<open>Sring_Backend\<close>, \<open>Sring_Contract\<close>: the ring, the ten programs of
    \<open>proxy/sring_progs.c\<close>, draining and filling (\<open>proxy/sring.c\<close>) with the guest's stores
    interleaved at every load of shared memory; the hand-off contract, refinement of draining to
    a list-level function, invariants under interference, and interrupts.
  \<^item> \<open>Sring_Kick\<close>: the notification protocol at the level of single shared-memory accesses,
    a step relation whose invariant excludes a lost kick.
  \<^item> \<open>Sring_Gso\<close>, \<open>Sring_Gso_Backend\<close>, \<open>Sring_Gso_Contract\<close>: packets of several
    descriptors (\<open>proxy/sring_gso.c\<close>, \<open>proxy/sring_gso_progs.c\<close>); packets are sent whole, lengths
    are spread over the buffers, and a packet with too many descriptors overruns the array.
  \<^item> \<open>Vring_Packed\<close>, \<open>Vring_Backend\<close>, \<open>Vring_Contract\<close>, \<open>Vring_Queues\<close>, \<open>Vring_Handoff\<close>,
    \<open>Vring_Props\<close>, \<open>Vring_Ooo\<close>: the packed virtqueue (\<open>proxy/vring_packed.c\<close>,
    \<open>proxy/vring_packed_progs.c\<close>); the hand-off contract, events, layout, and completion out of
    order.

  \<^bold>\<open>Control plane.\<close>  \<open>Backend_Control\<close> has one definition per request of
  \<open>process_guest_message\<close>, with activation, stop and set-up; the answers of the operating system
  are arguments and descriptors that are closed, memory that is unmapped and contexts that are
  initialised are a list of effects.  \<open>Backend_Server\<close> is the server loop as a step relation and
  the invariant of every reachable state; \<open>Backend_Sample\<close> is a complete handshake;
  \<open>Backend_Fds\<close> accounts for file descriptors; \<open>Backend_Props\<close> has the properties: a running
  backend is configured, the counter of running backends, requests that are refused, and the
  stop flag that is never reset.

  \<^bold>\<open>Schedulers.\<close>
  \<^item> \<open>Dn_Heap\<close>, \<open>Dn_Heap_Contract\<close>, \<open>Dn_Heap_Queue\<close>, \<open>Dn_Heap_Props\<close>: the binary heap of
    \<open>sched16/dn_heap.c\<close> on its array; it meets the locale \<open>prio_queue\<close> for time stamps less than
    \<open>2 ^ 63\<close> apart, which is what the comparison by difference needs.
  \<^item> \<open>Dn_Hash\<close>: the hash table of the same file as a map.
  \<^item> \<open>Dn_Sched\<close>, \<open>Dn_Sched_Contract\<close>: packet queues, FIFO, and the locale \<open>packet_sched\<close> with its
    runs: each flow leaves in the order of acceptance and a dequeue gives a packet whenever one is
    queued.
  \<^item> \<open>Dn_Sched_Rr\<close>, \<open>Dn_Sched_Rr_Contract\<close>: deficit round robin with its circular list at the
    level of pointers, and that it meets the contract.
  \<^item> \<open>Sched_Flowsets\<close>, \<open>Sched_Main\<close>, \<open>Sched_Main_Contract\<close>, \<open>Sched_Main_Init\<close>, \<open>Sched_Main_Rr\<close>,
    \<open>Sched_Main_Props\<close>: the front end \<open>sched16/sched_main.c\<close>: command line, the two passes over
    the flowset list, initialisation, enqueue and dequeue; the contract of an algorithm carries
    over to the front end (a sublocale), and the properties hold from the command line on.

  \<^bold>\<open>Loops, bounds and interference.\<close>  The loops of the queues are total functions, with a
  measure that counts the guest's remaining updates and the packets up to the budget.  The loops of
  the round robin scheduler (its dequeue and the search of the circular list) are
  \<open>partial_function\<close>s into \<open>option\<close>; that they return is proved.  No fuel is used.  Integers are words of the width of the C type wherever they may
  wrap; lengths of lists are natural numbers.  The guest is a list of updates, one for each load
  of shared memory; the lemmas about results assume a guest that is quiet during the operation,
  the invariants do not.

  \<^bold>\<open>Not modelled.\<close>
  \<^item> The guest driver: almost all of it are calls into the Linux kernel.  The programs it runs
    and the contexts it passes to them are modelled.
  \<^item> The packet loops of \<open>proxy/backend.c\<close> (they wait on \<open>poll\<close> and call the modelled queue
    operations) apart from the condition that ends the scheduler loop, and the network interfaces,
    which are the \<open>send\<close> and \<open>recv\<close> arguments of the queue operations.
  \<^item> The WF2Q+ and QFQ schedulers, the client queues \<open>cqueue\<close> and the scheduler thread \<open>pspat\<close>;
    the heap that WF2Q+ uses is modelled.
  \<^item> In \<open>sched_main.c\<close>: the default queue when no algorithm is chosen, the fairness index in
    floating point, dumps and the lists of the packet generator.
  \<^item> Test programs, console output, statistics, the status file, scripts.
\<close>

end
